(* ===== verification/Prelude.thy ===== *)
theory Prelude
  imports Main "HOL-Library.Word"
begin

text \<open>
  Shared vocabulary of the development.

  \<^item> Machine integers: C's \<open>uint8_t\<close>, \<open>uint16_t\<close>, \<open>uint32_t\<close> and \<open>uint64_t\<close> are words,
    so that every addition and subtraction of the model wraps as the code's does.
  \<^item> Outcomes that are not a return: \<open>Panic\<close> is a call of \<open>panic\<close> (which prints its message
    and halts the processor), \<open>Fault\<close> is an access outside the object the code indexes or a
    call through a null pointer, \<open>Hang\<close> is a loop that never ends.
  \<^item> Memory as the processor sees it: a total map from 64-bit addresses to bytes, with
    little-endian 64-bit and 32-bit accesses.
  \<^item> Character pointers: a pointer to a string is the function that gives the byte at each
    offset from it.
  \<^item> Reachability of a transition system and the locale that turns an inductive invariant
    into a fact about every reachable state.
\<close>

unbundle bit_operations_syntax

named_theorems result_simps \<open>simplification of fallible computations\<close>
named_theorems mem_simps \<open>reads of updated memory\<close>
named_theorems kernel_defs \<open>constants of the kernel headers\<close>

type_synonym u8 = "8 word"
type_synonym u16 = "16 word"
type_synonym u32 = "32 word"
type_synonym u64 = "64 word"

subsection \<open>Fallible computations\<close>

datatype error = Panic string | Fault | Hang

type_synonym 'a result = "error + 'a"

definition bindE :: "'a result \<Rightarrow> ('a \<Rightarrow> 'b result) \<Rightarrow> 'b result" where
  "bindE r f = (case r of Inl e \<Rightarrow> Inl e | Inr x \<Rightarrow> f x)"

definition assertE :: "bool \<Rightarrow> error \<Rightarrow> unit result" where
  "assertE b e = (if b then Inr () else Inl e)"

lemma bindE_Inl [simp, result_simps]: "bindE (Inl e) f = Inl e"
  by (simp add: bindE_def)

lemma bindE_Inr [simp, result_simps]: "bindE (Inr x) f = f x"
  by (simp add: bindE_def)

lemma bindE_eq_Inr [result_simps]: "bindE r f = Inr y \<longleftrightarrow> (\<exists>x. r = Inr x \<and> f x = Inr y)"
  by (cases r) auto

lemma bindE_eq_Inl [result_simps]:
  "bindE r f = Inl e \<longleftrightarrow> r = Inl e \<or> (\<exists>x. r = Inr x \<and> f x = Inl e)"
  by (cases r) auto

lemma bindE_cong [fundef_cong]:
  "r = r' \<Longrightarrow> (\<And>x. r' = Inr x \<Longrightarrow> f x = f' x) \<Longrightarrow> bindE r f = bindE r' f'"
  by (cases r') auto

lemma bindE_assoc: "bindE (bindE r f) g = bindE r (\<lambda>x. bindE (f x) g)"
  by (cases r) auto

lemma assertE_Inr [result_simps]: "assertE b e = Inr u \<longleftrightarrow> b"
  by (auto simp: assertE_def)

lemma assertE_True [simp]: "assertE True e = Inr ()"
  by (simp add: assertE_def)

lemma assertE_False [simp]: "assertE False e = Inl e"
  by (simp add: assertE_def)

text \<open>The outcome of a loop that is modelled with \<open>None\<close> for not returning.\<close>

definition of_loop :: "'a option \<Rightarrow> 'a result" where
  "of_loop r = (case r of None \<Rightarrow> Inl Hang | Some x \<Rightarrow> Inr x)"

definition run_loop :: "'a result option \<Rightarrow> 'a result" where
  "run_loop r = (case r of None \<Rightarrow> Inl Hang | Some x \<Rightarrow> x)"

lemma of_loop_simps [simp]: "of_loop None = Inl Hang" "of_loop (Some x) = Inr x"
  by (simp_all add: of_loop_def)

lemma run_loop_simps [simp, result_simps]: "run_loop None = Inl Hang" "run_loop (Some r) = r"
  by (simp_all add: run_loop_def)

subsection \<open>Word arithmetic\<close>

lemma unat_bound: "unat x < 2 ^ LENGTH('a)" for x :: "'a::len word"
  by (rule unsigned_less)

lemma unat_inc [simp]: "x < y \<Longrightarrow> unat (x + 1) = Suc (unat x)" for x y :: "'a::len word"
proof -
  assume "x < y"
  then have "Suc (unat x) < 2 ^ LENGTH('a)"
    using unat_bound [of y] unfolding word_less_nat_alt by linarith
  then show ?thesis by (simp add: unat_word_ariths)
qed

lemma unat_dec [simp]: "x \<noteq> 0 \<Longrightarrow> unat (x - 1) = unat x - 1" for x :: "'a::len word"
  by (simp add: unat_minus_one)

lemma unat_add_small:
  "unat x + unat y < 2 ^ LENGTH('a) \<Longrightarrow> unat (x + y) = unat x + unat y" for x y :: "'a::len word"
  by (simp add: unat_word_ariths)

lemma unat_mult_small:
  "unat x * unat y < 2 ^ LENGTH('a) \<Longrightarrow> unat (x * y) = unat x * unat y" for x y :: "'a::len word"
  by (simp add: unat_word_ariths)

lemma unat_of_nat_small [simp]:
  "n < 2 ^ LENGTH('a) \<Longrightarrow> unat (of_nat n :: 'a::len word) = n"
  by (simp add: unat_of_nat take_bit_nat_eq_self)

lemma of_nat_eq_small:
  "m < 2 ^ LENGTH('a) \<Longrightarrow> n < 2 ^ LENGTH('a) \<Longrightarrow> (of_nat m :: 'a::len word) = of_nat n \<longleftrightarrow> m = n"
  by (metis unat_of_nat_small)

lemma unat_ucast_up: "LENGTH('a) \<le> LENGTH('b) \<Longrightarrow> unat (ucast x :: 'b::len word) = unat x"
  for x :: "'a::len word"
proof -
  assume "LENGTH('a) \<le> LENGTH('b)"
  then have "(2 :: nat) ^ LENGTH('a) \<le> 2 ^ LENGTH('b)" by simp
  then have "unat x < 2 ^ LENGTH('b)" using unat_bound [of x] by linarith
  then show ?thesis by (simp only: unsigned_ucast_eq take_bit_nat_eq_self)
qed

lemma word_diff_zero_iff: "x - y = 0 \<longleftrightarrow> x = y" for x y :: "'a::len word"
  by simp

lemma all_range_Suc:
  "a < b \<Longrightarrow> (\<forall>j. a \<le> j \<and> j < b \<longrightarrow> P j) \<longleftrightarrow> P a \<and> (\<forall>j. Suc a \<le> j \<and> j < b \<longrightarrow> P j)" for a b :: nat
  by (metis Suc_leD Suc_leI le_eq_less_or_eq order_refl)

subsection \<open>Byte-addressed memory\<close>

type_synonym memory = "u64 \<Rightarrow> u8"

definition load64 :: "memory \<Rightarrow> u64 \<Rightarrow> u64" where
  "load64 m a =
     ucast (m a) OR push_bit 8 (ucast (m (a + 1))) OR push_bit 16 (ucast (m (a + 2))) OR
     push_bit 24 (ucast (m (a + 3))) OR push_bit 32 (ucast (m (a + 4))) OR
     push_bit 40 (ucast (m (a + 5))) OR push_bit 48 (ucast (m (a + 6))) OR
     push_bit 56 (ucast (m (a + 7)))"

definition store64 :: "memory \<Rightarrow> u64 \<Rightarrow> u64 \<Rightarrow> memory" where
  "store64 m a v = m(a := ucast v, a + 1 := ucast (drop_bit 8 v), a + 2 := ucast (drop_bit 16 v),
     a + 3 := ucast (drop_bit 24 v), a + 4 := ucast (drop_bit 32 v),
     a + 5 := ucast (drop_bit 40 v), a + 6 := ucast (drop_bit 48 v),
     a + 7 := ucast (drop_bit 56 v))"

definition load32 :: "memory \<Rightarrow> u64 \<Rightarrow> u32" where
  "load32 m a =
     ucast (m a) OR push_bit 8 (ucast (m (a + 1))) OR push_bit 16 (ucast (m (a + 2))) OR
     push_bit 24 (ucast (m (a + 3)))"

definition store32 :: "memory \<Rightarrow> u64 \<Rightarrow> u32 \<Rightarrow> memory" where
  "store32 m a v = m(a := ucast v, a + 1 := ucast (drop_bit 8 v), a + 2 := ucast (drop_bit 16 v),
     a + 3 := ucast (drop_bit 24 v))"

lemma byte_of_word_bit:
  "bit (push_bit k (ucast (ucast (drop_bit k v) :: u8)) :: 'a::len word) n \<longleftrightarrow>
   k \<le> n \<and> n < k + 8 \<and> n < LENGTH('a) \<and> bit v n" for v :: "'a::len word"
  by (auto simp: bit_simps dest: bit_imp_le_length)

lemma byte0_of_word_bit:
  "bit (ucast (ucast v :: u8) :: 'a::len word) n \<longleftrightarrow> n < 8 \<and> n < LENGTH('a) \<and> bit v n"
  for v :: "'a::len word"
  by (auto simp: bit_simps dest: bit_imp_le_length)

lemma load64_store64_same [simp, mem_simps]: "load64 (store64 m a v) a = v"
proof (rule bit_word_eqI)
  fix n assume "n < LENGTH(64)"
  then have "n < 64" by simp
  then consider "n < 8" | "8 \<le> n \<and> n < 16" | "16 \<le> n \<and> n < 24" | "24 \<le> n \<and> n < 32"
    | "32 \<le> n \<and> n < 40" | "40 \<le> n \<and> n < 48" | "48 \<le> n \<and> n < 56" | "56 \<le> n \<and> n < 64"
    by linarith
  then show "bit (load64 (store64 m a v) a) n = bit v n"
    unfolding load64_def store64_def bit_or_iff
    by cases (simp_all add: byte_of_word_bit byte0_of_word_bit)
qed

lemma load32_store32_same [simp, mem_simps]: "load32 (store32 m a v) a = v"
proof (rule bit_word_eqI)
  fix n assume "n < LENGTH(32)"
  then have "n < 32" by simp
  then consider "n < 8" | "8 \<le> n \<and> n < 16" | "16 \<le> n \<and> n < 24" | "24 \<le> n \<and> n < 32"
    by linarith
  then show "bit (load32 (store32 m a v) a) n = bit v n"
    unfolding load32_def store32_def bit_or_iff
    by cases (simp_all add: byte_of_word_bit byte0_of_word_bit)
qed

text \<open>The bytes of an access; accesses whose bytes differ do not interfere.\<close>

definition bytes_of :: "u64 \<Rightarrow> nat \<Rightarrow> u64 set" where
  "bytes_of a n = (\<lambda>i. a + of_nat i) ` {..<n}"

lemma bytes_of_iff: "x \<in> bytes_of a n \<longleftrightarrow> (\<exists>i<n. x = a + of_nat i)"
  by (auto simp: bytes_of_def)

lemma bytes_of_offset: "n \<le> 2 ^ 64 \<Longrightarrow> x \<in> bytes_of a n \<longleftrightarrow> unat (x - a) < n"
proof
  assume "n \<le> 2 ^ 64" and "x \<in> bytes_of a n"
  then show "unat (x - a) < n"
    by (auto simp: bytes_of_iff)
next
  assume "unat (x - a) < n"
  moreover have "x = a + of_nat (unat (x - a))" by simp
  ultimately show "x \<in> bytes_of a n" unfolding bytes_of_iff by blast
qed

lemma bytes_of_mono: "k \<le> n \<Longrightarrow> bytes_of a k \<subseteq> bytes_of a n"
  by (auto simp: bytes_of_def)

lemma bytes_of_8: "bytes_of a 8 = {a, a + 1, a + 2, a + 3, a + 4, a + 5, a + 6, a + 7}"
proof -
  have "{..<8::nat} = {0, 1, 2, 3, 4, 5, 6, 7}" by auto
  then show ?thesis by (simp add: bytes_of_def)
qed

lemma bytes_of_4: "bytes_of a 4 = {a, a + 1, a + 2, a + 3}"
proof -
  have "{..<4::nat} = {0, 1, 2, 3}" by auto
  then show ?thesis by (simp add: bytes_of_def)
qed

lemma load64_cong: "(\<And>x. x \<in> bytes_of a 8 \<Longrightarrow> m x = m' x) \<Longrightarrow> load64 m a = load64 m' a"
  by (simp add: load64_def bytes_of_8)

lemma load32_cong: "(\<And>x. x \<in> bytes_of a 4 \<Longrightarrow> m x = m' x) \<Longrightarrow> load32 m a = load32 m' a"
  by (simp add: load32_def bytes_of_4)

lemma store64_other: "x \<notin> bytes_of a 8 \<Longrightarrow> store64 m a v x = m x"
  by (simp add: store64_def bytes_of_8)

lemma store32_other: "x \<notin> bytes_of a 4 \<Longrightarrow> store32 m a v x = m x"
  by (simp add: store32_def bytes_of_4)

lemma load64_store64_disjoint [mem_simps]:
  "bytes_of a 8 \<inter> bytes_of b 8 = {} \<Longrightarrow> load64 (store64 m a v) b = load64 m b"
  by (rule load64_cong) (auto intro: store64_other)

lemma load64_zero: "(\<And>x. x \<in> bytes_of a 8 \<Longrightarrow> m x = 0) \<Longrightarrow> load64 m a = 0"
  by (simp add: load64_def bytes_of_8)

lemma load32_zero: "(\<And>x. x \<in> bytes_of a 4 \<Longrightarrow> m x = 0) \<Longrightarrow> load32 m a = 0"
  by (simp add: load32_def bytes_of_4)

lemma bytes_of_disjoint:
  assumes "unat a + n \<le> unat b \<or> unat b + k \<le> unat a"
    and "unat a + n \<le> 2 ^ 64" and "unat b + k \<le> 2 ^ 64"
  shows "bytes_of a n \<inter> bytes_of b k = {}"
proof -
  have e: "unat (c + of_nat i) = unat c + i" if "i < l" "unat c + l \<le> 2 ^ 64"
    for c :: u64 and i l
    using that by (subst unat_add_small) simp_all
  show ?thesis
    using assms by (auto simp: bytes_of_iff e word_unat_eq_iff)
qed

subsection \<open>Character pointers\<close>

type_synonym cstring = "nat \<Rightarrow> u8"

definition cstr :: "string \<Rightarrow> cstring" where
  "cstr s i = (if i < length s then of_char (s ! i) else 0)"

definition mem_cstr :: "memory \<Rightarrow> u64 \<Rightarrow> cstring" where
  "mem_cstr m p i = m (p + of_nat i)"

text \<open>Advancing a character pointer (\<open>p + n\<close>).\<close>

definition shift :: "cstring \<Rightarrow> nat \<Rightarrow> cstring" where
  "shift s n i = s (n + i)"

subsection \<open>Transition systems\<close>

inductive reach :: "('s \<Rightarrow> bool) \<Rightarrow> ('s \<Rightarrow> 's \<Rightarrow> bool) \<Rightarrow> 's \<Rightarrow> bool"
  for init step where
  reach_init: "init s \<Longrightarrow> reach init step s"
| reach_step: "reach init step s \<Longrightarrow> step s t \<Longrightarrow> reach init step t"

locale inductive_invariant =
  fixes init :: "'s \<Rightarrow> bool" and step :: "'s \<Rightarrow> 's \<Rightarrow> bool" and inv :: "'s \<Rightarrow> bool"
  assumes init_inv: "init s \<Longrightarrow> inv s"
    and step_inv: "inv s \<Longrightarrow> step s t \<Longrightarrow> inv t"
begin

lemma reach_inv: "reach init step s \<Longrightarrow> inv s"
  by (induction rule: reach.induct) (auto intro: init_inv step_inv)

end

end
