(* ===== verification/Util.thy ===== *)
theory Util
  imports Prelude
begin

text \<open>
  The kernel's helper library, \<open>src/kernel/lib/util.c\<close> and \<open>util.h\<close>: rounding to a multiple,
  \<open>memset\<close> and \<open>memcpy\<close> on memory, the bounded string copy and comparison, integer powers
  and the octal numbers of tar headers. Every loop is the loop of the source with its counter
  at the source's width. The lemmas give each loop's result in closed form.
\<close>

subsection \<open>Definitions\<close>

definition PAGE_SIZE :: u64 where
  [kernel_defs]: "PAGE_SIZE = 4096"

definition div_round_up :: "u64 \<Rightarrow> u64 \<Rightarrow> u64" where
  "div_round_up addr align = (addr + align - 1) div align"

definition page_align_up :: "u64 \<Rightarrow> u64" where
  "page_align_up addr = div_round_up addr PAGE_SIZE * PAGE_SIZE"

definition page_align_down :: "u64 \<Rightarrow> u64" where
  "page_align_down addr = (addr div PAGE_SIZE) * PAGE_SIZE"

definition max_u64 :: "u64 \<Rightarrow> u64 \<Rightarrow> u64" where
  "max_u64 a b = (if a > b then a else b)"

definition MIN_u64 :: "u64 \<Rightarrow> u64 \<Rightarrow> u64" where
  "MIN_u64 A B = (if A < B then A else B)"

definition MAX_u64 :: "u64 \<Rightarrow> u64 \<Rightarrow> u64" where
  "MAX_u64 A B = (if A > B then A else B)"

definition DIV_ROUNDUP :: "u64 \<Rightarrow> u64 \<Rightarrow> u64" where
  "DIV_ROUNDUP VALUE DIV = (VALUE + (DIV - 1)) div DIV"

definition ALIGN_UP :: "u64 \<Rightarrow> u64 \<Rightarrow> u64" where
  "ALIGN_UP VALUE ALIGN = DIV_ROUNDUP VALUE ALIGN * ALIGN"

definition ALIGN_DOWN :: "u64 \<Rightarrow> u64 \<Rightarrow> u64" where
  "ALIGN_DOWN VALUE ALIGN = (VALUE div ALIGN) * ALIGN"

function memset :: "memory \<Rightarrow> u64 \<Rightarrow> u8 \<Rightarrow> u64 \<Rightarrow> memory" where
  "memset m tmp v sz =
     (if sz > 0 then memset (m(tmp := v)) (tmp + 1) v (sz - 1) else m)"
  by pat_completeness auto
termination
  by (relation "measure (\<lambda>(m, tmp, v, sz). unat sz)") (auto simp: word_less_nat_alt unat_gt_0)

function memcpy :: "memory \<Rightarrow> u64 \<Rightarrow> u64 \<Rightarrow> u64 \<Rightarrow> memory" where
  "memcpy m d s sz =
     (if sz > 0 then memcpy (m(d := m s)) (d + 1) (s + 1) (sz - 1) else m)"
  by pat_completeness auto
termination
  by (relation "measure (\<lambda>(m, d, s, sz). unat sz)") (auto simp: word_less_nat_alt unat_gt_0)

text \<open>The destination array of \<open>kstrcpy\<close> is its contents by index.\<close>

function kstrcpy_loop :: "cstring \<Rightarrow> cstring \<Rightarrow> u32 \<Rightarrow> u32 \<Rightarrow> cstring" where
  "kstrcpy_loop dest src sz i =
     (if i < sz then
        (let dest' = dest(unat i := src (unat i))
         in if src (unat i) = 0 then dest' else kstrcpy_loop dest' src sz (i + 1))
      else dest)"
  by pat_completeness auto
termination
  by (relation "measure (\<lambda>(dest, src, sz, i). unat sz - unat i)")
    (auto simp: word_less_nat_alt)

definition kstrcpy :: "cstring \<Rightarrow> cstring \<Rightarrow> u32 \<Rightarrow> cstring" where
  "kstrcpy dest src sz = kstrcpy_loop dest src sz 0"

text \<open>
  \<open>kstrcmp\<close> advances both pointers and counts \<open>len\<close> down; the comparison with 1 comes before
  the decrement, so a \<open>len\<close> of 0 wraps to the largest 32-bit value.
\<close>

function kstrcmp :: "cstring \<Rightarrow> cstring \<Rightarrow> u32 \<Rightarrow> bool" where
  "kstrcmp str1 str2 len =
     (if str1 0 \<noteq> 0 \<and> str2 0 \<noteq> 0 then
        if str1 0 \<noteq> str2 0 then False
        else if len = 1 then True
        else kstrcmp (shift str1 1) (shift str2 1) (len - 1)
      else str1 0 = 0 \<and> str2 0 = 0)"
  by pat_completeness auto
termination
proof (relation "measure (\<lambda>(str1, str2, len). unat (len - 1))")
  fix str1 str2 :: cstring and len :: u32
  assume "len \<noteq> 1"
  then have "len - 1 \<noteq> 0" by (simp only: word_diff_zero_iff not_False_eq_True)
  then have "unat (len - 1 - 1) < unat (len - 1)" by (rule measure_unat)
  then show "((shift str1 1, shift str2 1, len - 1), str1, str2, len)
    \<in> measure (\<lambda>(str1, str2, len). unat (len - 1))"
    by simp
qed simp

function kpow_loop :: "u64 \<Rightarrow> u16 \<Rightarrow> u64 \<Rightarrow> u64" where
  "kpow_loop x y result = (if y \<noteq> 0 then kpow_loop x (y - 1) (result * x) else result)"
  by pat_completeness auto
termination
  by (relation "measure (\<lambda>(x, y, result). unat y)") (auto simp: word_less_nat_alt unat_gt_0)

definition kpow :: "u64 \<Rightarrow> u16 \<Rightarrow> u64" where
  "kpow x y = kpow_loop x y 1"

text \<open>\<open>*number - '0'\<close>: a signed \<open>char\<close> promoted to \<open>int\<close>, then converted to \<open>uint64_t\<close>.\<close>

definition digit_value :: "u8 \<Rightarrow> u64" where
  "digit_value c = scast c - 48"

function oct_loop :: "cstring \<Rightarrow> u16 \<Rightarrow> u64 \<Rightarrow> u64" where
  "oct_loop number sz result =
     (let result' = result + digit_value (number 0) * kpow 8 sz;
          number' = shift number 1;
          sz' = sz - 1
      in if sz' \<noteq> 0 then oct_loop number' sz' result'
         else result' + digit_value (number' 0) * kpow 8 sz')"
  by pat_completeness auto
termination
proof (relation "measure (\<lambda>(number, sz, result). unat (sz - 1))")
  fix number :: cstring and sz :: u16 and result result' :: u64 and number' sz'
  assume "number' = shift number 1" and "sz' = sz - 1" and "sz' \<noteq> 0"
  then show "((number', sz', result'), number, sz, result)
    \<in> measure (\<lambda>(number, sz, result). unat (sz - 1))"
    by (simp only: in_measure split measure_unat not_False_eq_True)
qed simp

definition oct_ascii_to_dec :: "cstring \<Rightarrow> u16 \<Rightarrow> u64" where
  "oct_ascii_to_dec number sz = oct_loop (shift number 1) (sz - 3) 0"

declare memset.simps [simp del] memcpy.simps [simp del] kstrcpy_loop.simps [simp del]
  kstrcmp.simps [simp del] kpow_loop.simps [simp del] oct_loop.simps [simp del]

subsection \<open>Rounding\<close>

lemma unat_4096 [simp]: "unat (4096 :: u64) = 4096"
  by simp

lemma unat_PAGE_SIZE [simp]: "unat PAGE_SIZE = 4096"
  by (simp add: PAGE_SIZE_def)

lemma unat_DIV_ROUNDUP:
  assumes "unat v + 4095 < 2 ^ 64"
  shows "unat (DIV_ROUNDUP v PAGE_SIZE) = (unat v + 4095) div 4096"
proof -
  have "unat (v + 4095) = unat v + 4095"
    using assms by (subst unat_add_small) simp_all
  then show ?thesis
    by (simp add: DIV_ROUNDUP_def PAGE_SIZE_def unat_div)
qed

lemma unat_ALIGN_UP:
  assumes "unat v + 4095 < 2 ^ 64"
  shows "unat (ALIGN_UP v PAGE_SIZE) = (unat v + 4095) div 4096 * 4096"
proof -
  have "(unat v + 4095) div 4096 * 4096 < 2 ^ 64" using assms by linarith
  then show ?thesis
    by (simp add: ALIGN_UP_def unat_mult_small unat_DIV_ROUNDUP assms)
qed

lemma page_align_up_eq_ALIGN_UP: "page_align_up v = ALIGN_UP v PAGE_SIZE"
  by (simp add: page_align_up_def ALIGN_UP_def div_round_up_def DIV_ROUNDUP_def PAGE_SIZE_def
      add_diff_eq add.commute)

lemma unat_ALIGN_DOWN: "unat (ALIGN_DOWN v PAGE_SIZE) = unat v div 4096 * 4096"
proof -
  have "unat v div 4096 * 4096 \<le> unat v" by simp
  then have "unat v div 4096 * 4096 < 2 ^ 64"
    using unat_bound [of v] by simp
  then show ?thesis
    by (simp add: ALIGN_DOWN_def PAGE_SIZE_def unat_mult_small unat_div)
qed

subsection \<open>Memory\<close>

lemma unat_diff_step:
  fixes x tmp sz :: u64
  assumes "sz \<noteq> 0"
  shows "unat (x - tmp) < unat sz \<longleftrightarrow> x = tmp \<or> unat (x - (tmp + 1)) < unat (sz - 1)"
proof (cases "x = tmp")
  case True
  then show ?thesis using assms by (simp add: word_neq_0_conv word_less_nat_alt)
next
  case False
  then have "unat (x - tmp - 1) = unat (x - tmp) - 1" and "unat (x - tmp) \<noteq> 0"
    by (simp_all add: unat_eq_zero)
  then show ?thesis
    using False assms by (simp add: diff_diff_eq) linarith
qed

lemma memset_apply:
  "memset m tmp v sz x = (if unat (x - tmp) < unat sz then v else m x)"
proof (induction m tmp v sz rule: memset.induct)
  case (1 m tmp v sz)
  show ?case
  proof (cases "sz > 0")
    case True
    then have "sz \<noteq> 0" by simp
    then show ?thesis
      using "1" [OF True] True unat_diff_step [of sz x tmp]
      by (simp add: memset.simps [of m tmp v sz] fun_upd_def)
  next
    case False
    then have "sz = 0" by (simp add: word_gt_0)
    then show ?thesis by (simp add: memset.simps [of m tmp v 0])
  qed
qed

lemma memcpy_apply:
  assumes "\<And>i j. i < unat sz \<Longrightarrow> j < unat sz \<Longrightarrow> d + of_nat i \<noteq> s + of_nat j"
  shows "memcpy m d s sz x = (if unat (x - d) < unat sz then m (s + (x - d)) else m x)"
  using assms
proof (induction m d s sz arbitrary: x rule: memcpy.induct)
  case (1 m d s sz)
  show ?case
  proof (cases "sz > 0")
    case True
    then have nz: "sz \<noteq> 0" and pos: "0 < unat sz" by (simp_all add: unat_gt_0)
    have "memcpy (m(d := m s)) (d + 1) (s + 1) (sz - 1) x =
      (if unat (x - (d + 1)) < unat (sz - 1) then (m(d := m s)) (s + 1 + (x - (d + 1)))
       else (m(d := m s)) x)"
    proof (rule "1.IH" [OF True])
      fix i j assume "i < unat (sz - 1)" "j < unat (sz - 1)"
      then have "Suc i < unat sz" "Suc j < unat sz" using nz by auto
      then have "d + of_nat (Suc i) \<noteq> s + of_nat (Suc j)" by (rule "1.prems")
      then show "d + 1 + of_nat i \<noteq> s + 1 + of_nat j" by (simp add: add.assoc)
    qed
    moreover have "s + 1 + (x - (d + 1)) = s + (x - d)" by simp
    moreover have "s + (x - d) \<noteq> d" if "unat (x - d) < unat sz"
      using "1.prems" [OF pos that] by simp
    ultimately show ?thesis
      using True unat_diff_step [OF nz, of x d] by (auto simp: memcpy.simps [of m d s sz])
  next
    case False
    then have "sz = 0" by (simp add: word_gt_0)
    then show ?thesis by (simp add: memcpy.simps [of m d s 0])
  qed
qed

subsection \<open>Strings\<close>

lemma shift_apply [simp]: "shift s n i = s (n + i)"
  by (simp add: shift_def)

lemma kstrcpy_loop_apply:
  "kstrcpy_loop dest src sz i j =
     (if unat i \<le> j \<and> j < unat sz \<and> (\<forall>k. unat i \<le> k \<and> k < j \<longrightarrow> src k \<noteq> 0) then src j else dest j)"
proof (induction dest src sz i rule: kstrcpy_loop.induct)
  case (1 dest src sz i)
  show ?case
  proof (cases "i < sz")
    case False
    then show ?thesis
      by (auto simp: kstrcpy_loop.simps [of dest src sz i] word_less_nat_alt)
  next
    case True
    then have lt: "unat i < unat sz" by (simp add: word_less_nat_alt)
    have inc: "unat (i + 1) = Suc (unat i)" using True by simp
    show ?thesis
    proof (cases "src (unat i) = 0")
      case nul: True
      then show ?thesis
        using True lt by (auto simp: kstrcpy_loop.simps [of dest src sz i])
    next
      case False
      have "(\<forall>k. unat i \<le> k \<and> k < j \<longrightarrow> src k \<noteq> 0) = (\<forall>k. Suc (unat i) \<le> k \<and> k < j \<longrightarrow> src k \<noteq> 0)"
        using False by (metis le_eq_less_or_eq Suc_leI Suc_le_lessD)
      then show ?thesis
        using "1" [OF True refl False] True False lt
        by (auto simp: kstrcpy_loop.simps [of dest src sz i] inc Let_def fun_upd_def)
    qed
  qed
qed

text \<open>The bytes up to and including the terminator are copied, at most \<open>sz\<close> of them.\<close>

lemma kstrcpy_apply:
  "kstrcpy dest src sz j =
     (if j < unat sz \<and> (\<forall>k<j. src k \<noteq> 0) then src j else dest j)"
  by (simp add: kstrcpy_def kstrcpy_loop_apply)

text \<open>
  Equality of two strings up to the first difference, the terminator or \<open>n\<close> characters: what
  \<open>strncmp\<close> decides.
\<close>

definition cstr_eq_upto :: "nat \<Rightarrow> cstring \<Rightarrow> cstring \<Rightarrow> bool" where
  "cstr_eq_upto n s t \<longleftrightarrow> (\<forall>k<n. (\<forall>j<k. s j \<noteq> 0) \<longrightarrow> s k = t k)"

lemma cstr_eq_upto_0 [simp]: "cstr_eq_upto 0 s t"
  by (simp add: cstr_eq_upto_def)

lemma cstr_eq_upto_Suc:
  "cstr_eq_upto (Suc n) s t \<longleftrightarrow>
     s 0 = t 0 \<and> (s 0 \<noteq> 0 \<longrightarrow> cstr_eq_upto n (shift s 1) (shift t 1))"
  unfolding cstr_eq_upto_def by (subst All_less_Suc2) (auto simp: All_less_Suc2)

lemma kstrcmp_eq_upto: "kstrcmp s t len \<longleftrightarrow> cstr_eq_upto (Suc (unat (len - 1))) s t"
proof (induction s t len rule: kstrcmp.induct)
  case (1 s t len)
  show ?case
  proof (cases "s 0 \<noteq> 0 \<and> t 0 \<noteq> 0 \<and> s 0 = t 0 \<and> len \<noteq> 1")
    case False
    then show ?thesis
      by (auto simp: kstrcmp.simps [of s t len] cstr_eq_upto_Suc)
  next
    case True
    then have "len - 1 \<noteq> 0" by (simp only: word_diff_zero_iff not_False_eq_True)
    then have len: "unat (len - 1) = Suc (unat (len - 1 - 1))"
      by (metis Suc_pred' unat_dec unat_gt_0)
    have "kstrcmp s t len = kstrcmp (shift s 1) (shift t 1) (len - 1)"
      using True by (subst kstrcmp.simps) simp
    also have "\<dots> = cstr_eq_upto (Suc (unat (len - 1 - 1))) (shift s 1) (shift t 1)"
      by (rule "1") (use True in auto)
    also have "\<dots> = cstr_eq_upto (unat (len - 1)) (shift s 1) (shift t 1)"
      by (simp only: len)
    also have "\<dots> = cstr_eq_upto (Suc (unat (len - 1))) s t"
      using True by (subst cstr_eq_upto_Suc) simp
    finally show ?thesis .
  qed
qed

subsection \<open>Powers and octal numbers\<close>

lemma kpow_loop_power: "kpow_loop x y r = r * x ^ unat y"
proof (induction x y r rule: kpow_loop.induct)
  case (1 x y r)
  show ?case
  proof (cases "y = 0")
    case True
    then show ?thesis by (simp add: kpow_loop.simps [of x 0])
  next
    case False
    then have y: "x ^ unat y = x * x ^ unat (y - 1)"
      by (metis Suc_pred' power_Suc unat_dec unat_gt_0)
    show ?thesis
      using "1" [OF False] False by (simp only: kpow_loop.simps [of x y r] y if_True ac_simps
          not_False_eq_True)
  qed
qed

lemma kpow_power: "kpow x y = x ^ unat y"
  by (simp add: kpow_def kpow_loop_power)

lemma oct_loop_sum:
  "unat sz = Suc n \<Longrightarrow>
   oct_loop f sz r = r + (\<Sum>k\<le>Suc n. digit_value (f k) * 8 ^ (Suc n - k))"
proof (induction n arbitrary: f sz r)
  case 0
  then have "sz = 1" by (simp add: word_unat_eq_iff)
  then show ?case by (simp add: oct_loop.simps [of f 1] kpow_power)
next
  case (Suc n)
  then have nz: "sz \<noteq> 0" by auto
  then have dec: "unat (sz - 1) = Suc n" using Suc.prems by simp
  then have nz': "sz - 1 \<noteq> 0" by (metis nat.distinct(1) unat_0)
  have "oct_loop f sz r =
      oct_loop (shift f 1) (sz - 1) (r + digit_value (f 0) * 8 ^ Suc (Suc n))"
    using nz' Suc.prems by (simp add: oct_loop.simps [of f sz r] kpow_power Let_def)
  also have "\<dots> = r + (digit_value (f 0) * 8 ^ Suc (Suc n) +
      (\<Sum>k\<le>Suc n. digit_value (f (Suc k)) * 8 ^ (Suc n - k)))"
    by (subst Suc.IH [OF dec]) (simp add: add.assoc)
  also have "digit_value (f 0) * 8 ^ Suc (Suc n) +
      (\<Sum>k\<le>Suc n. digit_value (f (Suc k)) * 8 ^ (Suc n - k)) =
      (\<Sum>k\<le>Suc (Suc n). digit_value (f k) * 8 ^ (Suc (Suc n) - k))"
    by (subst sum.atMost_Suc_shift) simp
  finally show ?case .
qed

text \<open>
  The field a tar writer stores for the number \<open>n\<close> in twelve bytes: eleven octal digits, most
  significant first, and a terminator.
\<close>

definition octal_field :: "nat \<Rightarrow> cstring" where
  "octal_field n i = (if i < 11 then of_nat (48 + n div 8 ^ (10 - i) mod 8) else 0)"

lemma octal_digits_sum: "(\<Sum>k<m. n div 8 ^ k mod 8 * 8 ^ k) = n mod 8 ^ m" for n :: nat
proof (induction m)
  case 0
  then show ?case by simp
next
  case (Suc m)
  have "n mod 8 ^ Suc m = n div 8 ^ m mod 8 * 8 ^ m + n mod 8 ^ m"
    by (simp add: power_Suc2 mod_mult2_eq del: power_Suc)
  then show ?case using Suc.IH by simp
qed

lemma digit_value_octal_digit: "d < 8 \<Longrightarrow> digit_value (of_nat (48 + d)) = of_nat d"
proof -
  assume "d < 8"
  then consider "d = 0" | "d = 1" | "d = 2" | "d = 3" | "d = 4" | "d = 5" | "d = 6" | "d = 7"
    by linarith
  then show ?thesis by cases (simp_all add: digit_value_def)
qed

lemma oct_ascii_to_dec_sum:
  "oct_ascii_to_dec f 12 = (\<Sum>k\<le>9. digit_value (f (Suc k)) * 8 ^ (9 - k))"
proof -
  have u: "unat (12 - 3 :: u16) = Suc 8" by simp
  have e: "Suc 8 = 9" by simp
  show ?thesis
    unfolding oct_ascii_to_dec_def oct_loop_sum [OF u]
    by (simp only: shift_apply add_0 plus_1_eq_Suc e)
qed

lemma oct_ascii_to_dec_octal_field_aux:
  "oct_ascii_to_dec (octal_field n) 12 = of_nat (n mod 8 ^ 10)"
proof -
  have ten: "{..<10} = {..9::nat}" by auto
  have "digit_value (octal_field n (Suc k)) = of_nat (n div 8 ^ (9 - k) mod 8)" if "k \<le> 9" for k
    using that by (simp add: octal_field_def digit_value_octal_digit del: of_nat_add)
  then have "oct_ascii_to_dec (octal_field n) 12 =
      (\<Sum>k\<le>9. of_nat (n div 8 ^ (9 - k) mod 8 * 8 ^ (9 - k)))"
    by (simp add: oct_ascii_to_dec_sum)
  also have "\<dots> = of_nat (\<Sum>k\<le>9. n div 8 ^ (9 - k) mod 8 * 8 ^ (9 - k))"
    by simp
  also have "(\<Sum>k\<le>9. n div 8 ^ (9 - k) mod 8 * 8 ^ (9 - k)) = (\<Sum>k\<le>9. n div 8 ^ k mod 8 * 8 ^ k)"
    by (rule sum.reindex_bij_witness [of _ "\<lambda>k. 9 - k" "\<lambda>k. 9 - k"]) auto
  also have "\<dots> = n mod 8 ^ 10"
    using octal_digits_sum [of n 10] unfolding ten .
  finally show ?thesis .
qed

subsection \<open>Properties\<close>

text \<open>
  C40. Reading back the size field of a tar header: for every number below \<open>8 ^ 10\<close> the twelve
  byte field of octal digits that a tar writer stores is read by \<open>oct_ascii_to_dec\<close> as that
  number. The reader skips the first of the eleven digits, hence the bound.
\<close>

theorem oct_ascii_to_dec_roundtrip:
  assumes "n < 8 ^ 10"
  shows "oct_ascii_to_dec (octal_field n) 12 = of_nat n"
  using assms by (simp add: oct_ascii_to_dec_octal_field_aux)

theorem oct_ascii_to_dec_roundtrip_witness:
  "oct_ascii_to_dec (octal_field 1234) 12 = 1234"
  using oct_ascii_to_dec_roundtrip [of 1234] by simp

text \<open>
  \<open>kstrcmp\<close> with a positive length decides equality of the two strings up to the first
  terminator or \<open>len\<close> characters, whichever comes first; with length 0 the counter wraps and
  the whole strings are compared over \<open>2 ^ 32\<close> characters.
\<close>

theorem kstrcmp_correct:
  "kstrcmp s t len \<longleftrightarrow> cstr_eq_upto (if len = 0 then 2 ^ 32 else unat len) s t"
proof (cases "len = 0")
  case True
  have "unat (- 1 :: u32) = 2 ^ 32 - 1"
    by (simp add: unsigned_minus_1_eq_mask mask_eq_exp_minus_1)
  then show ?thesis using True by (simp add: kstrcmp_eq_upto)
next
  case False
  then have "0 < unat len" by (simp add: word_neq_0_conv word_less_nat_alt)
  then show ?thesis using False by (simp add: kstrcmp_eq_upto)
qed

text \<open>
  Rounding an address up to a page: for addresses at most 4095 below \<open>2 ^ 64\<close> the result is
  the least multiple of the page size that is not below the address; above that the addition
  wraps and the result is 0.
\<close>

theorem page_align_up_bounds:
  "page_align_up a =
     (if unat a + 4095 < 2 ^ 64 then of_nat (LEAST n. 4096 dvd n \<and> unat a \<le> n) else 0)"
proof (cases "unat a + 4095 < 2 ^ 64")
  case True
  have "(LEAST n. 4096 dvd n \<and> unat a \<le> n) = (unat a + 4095) div 4096 * 4096"
  proof (rule Least_equality)
    show "4096 dvd (unat a + 4095) div 4096 * 4096 \<and> unat a \<le> (unat a + 4095) div 4096 * 4096"
      by (rule conjI) (simp, linarith)
    fix y assume "4096 dvd y \<and> unat a \<le> y"
    then obtain k where "y = 4096 * k" "unat a \<le> 4096 * k" by (auto elim: dvdE)
    moreover from this have "(unat a + 4095) div 4096 < Suc k" by (simp add: div_less_iff_less_mult)
    ultimately show "(unat a + 4095) div 4096 * 4096 \<le> y" by simp
  qed
  then show ?thesis
    using True unat_ALIGN_UP [OF True]
    by (simp add: page_align_up_eq_ALIGN_UP word_unat_eq_iff del: of_nat_mult)
next
  case False
  have "unat (a + 4095) = (unat a + 4095) mod 2 ^ 64" by (simp add: unat_word_ariths)
  also have "\<dots> = unat a + 4095 - 2 ^ 64"
    using False unat_bound [of a] by (subst mod_if) simp
  finally have "unat (a + 4095) < 4096" using unat_bound [of a] by simp
  then have "(a + 4095) div 4096 = 0" by (simp add: word_unat_eq_iff unat_div)
  then show ?thesis using False
    by (simp add: page_align_up_def div_round_up_def PAGE_SIZE_def add_diff_eq [symmetric])
qed

end
