(* ===== verification/Bitmap.thy ===== *)
theory Bitmap
  imports Util
begin

text \<open>
  The bit array of \<open>src/kernel/mm/bitmap.h\<close>, one bit per physical page, stored in memory from
  the address \<open>bm\<close> on. The locale \<open>bit_array\<close> states what its users rely on: a bit reads back
  as last written and writing one bit leaves the others alone. The marking and clearing loops
  of the page allocator are analysed once, inside it.
\<close>

subsection \<open>Definitions\<close>

definition bitmap_set :: "memory \<Rightarrow> u64 \<Rightarrow> u64 \<Rightarrow> memory" where
  "bitmap_set m bm i = m(bm + i div 8 := m (bm + i div 8) OR push_bit (unat (i mod 8)) 1)"

definition bitmap_clear :: "memory \<Rightarrow> u64 \<Rightarrow> u64 \<Rightarrow> memory" where
  "bitmap_clear m bm i = m(bm + i div 8 := m (bm + i div 8) AND NOT (push_bit (unat (i mod 8)) 1))"

definition bitmap_get :: "memory \<Rightarrow> u64 \<Rightarrow> u64 \<Rightarrow> bool" where
  "bitmap_get m bm i \<longleftrightarrow> m (bm + i div 8) AND push_bit (unat (i mod 8)) 1 \<noteq> 0"

subsection \<open>The contract of a bit array\<close>

locale bit_array =
  fixes get :: "'m \<Rightarrow> 'b \<Rightarrow> 'i \<Rightarrow> bool"
    and set_bit :: "'m \<Rightarrow> 'b \<Rightarrow> 'i \<Rightarrow> 'm"
    and clear_bit :: "'m \<Rightarrow> 'b \<Rightarrow> 'i \<Rightarrow> 'm"
  assumes get_set_bit: "get (set_bit m b i) b j \<longleftrightarrow> j = i \<or> get m b j"
    and get_clear_bit: "get (clear_bit m b i) b j \<longleftrightarrow> j \<noteq> i \<and> get m b j"
begin

lemma get_set_bits: "get (fold (\<lambda>i m. set_bit m b i) xs m) b j \<longleftrightarrow> j \<in> set xs \<or> get m b j"
  by (induction xs arbitrary: m) (auto simp: get_set_bit)

lemma get_clear_bits: "get (fold (\<lambda>i m. clear_bit m b i) xs m) b j \<longleftrightarrow> j \<notin> set xs \<and> get m b j"
  by (induction xs arbitrary: m) (auto simp: get_clear_bit)

lemma clear_set_bits:
  assumes "\<And>i. i \<in> set xs \<Longrightarrow> \<not> get m b i"
  shows "get (fold (\<lambda>i m. clear_bit m b i) xs (fold (\<lambda>i m. set_bit m b i) xs m)) b j = get m b j"
  using assms by (auto simp: get_set_bits get_clear_bits)

end

subsection \<open>The bitmap in memory\<close>

lemma bitmap_get_bit: "bitmap_get m bm i \<longleftrightarrow> bit (m (bm + i div 8)) (unat (i mod 8))"
  by (simp add: bitmap_get_def bit_iff_and_push_bit_not_eq_0)

lemma unat_mod_8: "unat (i mod 8 :: u64) < 8"
  by (simp add: unat_mod)

lemma word_div_mod_8_eq: "i div 8 = j div 8 \<Longrightarrow> unat (i mod 8) = unat (j mod 8) \<Longrightarrow> i = j"
  for i j :: u64
  by (metis div_mult_mod_eq word_unat_eq_iff)

lemma bitmap_get_set: "bitmap_get (bitmap_set m bm i) bm j \<longleftrightarrow> j = i \<or> bitmap_get m bm j"
  using unat_mod_8 [of i] unat_mod_8 [of j]
  by (auto simp: bitmap_get_bit bitmap_set_def bit_simps dest: word_div_mod_8_eq)

lemma bitmap_get_clear: "bitmap_get (bitmap_clear m bm i) bm j \<longleftrightarrow> j \<noteq> i \<and> bitmap_get m bm j"
  using unat_mod_8 [of i] unat_mod_8 [of j]
  by (auto simp: bitmap_get_bit bitmap_clear_def bit_simps dest: word_div_mod_8_eq)

interpretation page_bits: bit_array bitmap_get bitmap_set bitmap_clear
  by unfold_locales (rule bitmap_get_set bitmap_get_clear)+

text \<open>The bytes that hold the first \<open>n\<close> bits, and what an update leaves alone.\<close>

definition bitmap_bytes :: "u64 \<Rightarrow> nat \<Rightarrow> u64 set" where
  "bitmap_bytes bm n = bytes_of bm ((n + 7) div 8)"

lemma bitmap_byte_in: "unat i < n \<Longrightarrow> bm + i div 8 \<in> bitmap_bytes bm n"
proof -
  assume "unat i < n"
  moreover have "bm + i div 8 = bm + of_nat (unat (i div 8))" by simp
  moreover have "unat (i div 8) = unat i div 8" by (simp add: unat_div)
  moreover from \<open>unat i < n\<close> have "unat i div 8 < (n + 7) div 8" by linarith
  ultimately show ?thesis
    unfolding bitmap_bytes_def bytes_of_iff by auto
qed

lemma bitmap_set_other: "x \<noteq> bm + i div 8 \<Longrightarrow> bitmap_set m bm i x = m x"
  by (simp add: bitmap_set_def)

lemma bitmap_clear_other: "x \<noteq> bm + i div 8 \<Longrightarrow> bitmap_clear m bm i x = m x"
  by (simp add: bitmap_clear_def)

lemma bitmap_get_cong:
  "(\<And>x. x \<in> bitmap_bytes bm n \<Longrightarrow> m x = m' x) \<Longrightarrow> unat i < n \<Longrightarrow> bitmap_get m bm i = bitmap_get m' bm i"
  by (simp add: bitmap_get_bit bitmap_byte_in)

end
