(* ===== verification/Spinlock.thy ===== *)
theory Spinlock
  imports Prelude
begin

text \<open>
  The kernel's lock, \<open>src/kernel/lib/spinlock.h\<close> and \<open>spinlock.c\<close>. A lock is the \<open>int\<close> of
  \<open>spinlock_t\<close>. The atomic compare-and-swap and the atomic store are functions on it;
  \<open>spinlock_acquire\<close> repeats the compare-and-swap until it succeeds. Seen from one thread of
  control a held lock never becomes free, so the loop returns exactly when the lock is free.
  Seen from several, the threads that take the lock are a transition system, whose invariant is
  that the lock word is 1 exactly when one thread is inside.
\<close>

subsection \<open>Definitions\<close>

type_synonym spinlock_t = u32

definition SPINLOCK_INIT :: spinlock_t where
  "SPINLOCK_INIT = 0"

definition spinlock_test_and_acq :: "spinlock_t \<Rightarrow> bool \<times> spinlock_t" where
  "spinlock_test_and_acq lock = (if lock = 0 then (True, 1) else (False, lock))"

partial_function (option) spinlock_acquire_loop :: "spinlock_t \<Rightarrow> spinlock_t option" where
  "spinlock_acquire_loop lock =
     (if fst (spinlock_test_and_acq lock) then Some (snd (spinlock_test_and_acq lock))
      else spinlock_acquire_loop (snd (spinlock_test_and_acq lock)))"

definition spinlock_acquire :: "spinlock_t \<Rightarrow> spinlock_t result" where
  "spinlock_acquire lock =
     (case spinlock_acquire_loop lock of None \<Rightarrow> Inl Hang | Some lock' \<Rightarrow> Inr lock')"

definition spinlock_release :: "spinlock_t \<Rightarrow> spinlock_t" where
  "spinlock_release lock = 0"

text \<open>Threads that use one lock: any number of them, each outside, spinning or inside.\<close>

datatype lock_pc = Outside | Spinning | Inside

record lock_system =
  lock_word :: spinlock_t
  lock_pcs :: "nat \<Rightarrow> lock_pc"

definition lock_system_init :: "lock_system \<Rightarrow> bool" where
  "lock_system_init s \<longleftrightarrow> lock_word s = SPINLOCK_INIT \<and> (\<forall>t. lock_pcs s t = Outside)"

inductive lock_system_step :: "lock_system \<Rightarrow> lock_system \<Rightarrow> bool" where
  lock_call: "lock_pcs s t = Outside \<Longrightarrow>
    lock_system_step s (s\<lparr>lock_pcs := (lock_pcs s)(t := Spinning)\<rparr>)"
| lock_taken: "lock_pcs s t = Spinning \<Longrightarrow> spinlock_test_and_acq (lock_word s) = (True, l) \<Longrightarrow>
    lock_system_step s (s\<lparr>lock_word := l, lock_pcs := (lock_pcs s)(t := Inside)\<rparr>)"
| lock_busy: "lock_pcs s t = Spinning \<Longrightarrow> spinlock_test_and_acq (lock_word s) = (False, l) \<Longrightarrow>
    lock_system_step s (s\<lparr>lock_word := l\<rparr>)"
| lock_left: "lock_pcs s t = Inside \<Longrightarrow>
    lock_system_step s (s\<lparr>lock_word := spinlock_release (lock_word s),
      lock_pcs := (lock_pcs s)(t := Outside)\<rparr>)"

definition lock_system_inv :: "lock_system \<Rightarrow> bool" where
  "lock_system_inv s \<longleftrightarrow>
     (if lock_word s = 0 then \<forall>t. lock_pcs s t \<noteq> Inside
      else lock_word s = 1 \<and> (\<exists>t. \<forall>u. lock_pcs s u = Inside \<longleftrightarrow> u = t))"

subsection \<open>The contract of a lock\<close>

text \<open>
  What the code that brackets a critical section relies on: taking a free lock succeeds and
  leaves it held, a held lock is never taken, and releasing makes it free.
\<close>

locale mutex_lock =
  fixes acquire :: "'l \<Rightarrow> 'l result" and release :: "'l \<Rightarrow> 'l" and free :: "'l \<Rightarrow> bool"
  assumes acquire_free: "free l \<Longrightarrow> \<exists>l'. acquire l = Inr l' \<and> \<not> free l'"
    and acquire_held: "\<not> free l \<Longrightarrow> acquire l = Inl Hang"
    and release_free: "free (release l)"
begin

lemma acquire_returns_iff: "(\<exists>l'. acquire l = Inr l') \<longleftrightarrow> free l"
  using acquire_free acquire_held by fastforce

lemma reacquire_hangs: "acquire l = Inr l' \<Longrightarrow> acquire l' = Inl Hang"
  by (metis acquire_free acquire_held Inr_Inl_False sum.inject(2))

lemma bracket_free: "acquire l = Inr l' \<Longrightarrow> free (release l')"
  by (rule release_free)

end

subsection \<open>One thread of control\<close>

lemma spinlock_acquire_loop_free:
  assumes "spinlock_acquire_loop l = Some l'"
  shows "l = 0"
proof (rule spinlock_acquire_loop.raw_induct [where P = "\<lambda>l l'. l = 0", OF _ assms])
  fix f and l l' :: spinlock_t
  assume IH: "\<And>l l'. f l = Some l' \<Longrightarrow> l = 0"
    and eq: "(if fst (spinlock_test_and_acq l) then Some (snd (spinlock_test_and_acq l))
              else f (snd (spinlock_test_and_acq l))) = Some l'"
  show "l = 0"
    using eq IH by (auto simp: spinlock_test_and_acq_def split: if_splits)
qed

lemma spinlock_acquire_eq [simp]:
  "spinlock_acquire l = (if l = 0 then Inr 1 else Inl Hang)"
proof (cases "l = 0")
  case True
  then show ?thesis
    by (simp add: spinlock_acquire_def spinlock_acquire_loop.simps [of 0]
        spinlock_test_and_acq_def)
next
  case False
  then have "spinlock_acquire_loop l = None"
    using spinlock_acquire_loop_free by (cases "spinlock_acquire_loop l") auto
  with False show ?thesis by (simp add: spinlock_acquire_def)
qed

lemma spinlock_release_eq [simp]: "spinlock_release l = 0"
  by (simp add: spinlock_release_def)

interpretation spin: mutex_lock spinlock_acquire spinlock_release "\<lambda>l. l = 0"
  by unfold_locales simp_all

subsection \<open>Several threads\<close>

lemma lock_system_init_inv: "lock_system_init s \<Longrightarrow> lock_system_inv s"
  by (simp add: lock_system_init_def lock_system_inv_def SPINLOCK_INIT_def)

lemma lock_system_step_inv: "lock_system_inv s \<Longrightarrow> lock_system_step s s' \<Longrightarrow> lock_system_inv s'"
proof (erule lock_system_step.cases)
  fix r t
  assume "lock_system_inv s" "s = r" "lock_pcs r t = Outside"
    "s' = r\<lparr>lock_pcs := (lock_pcs r)(t := Spinning)\<rparr>"
  then show "lock_system_inv s'"
    by (auto simp: lock_system_inv_def split: if_splits) (metis lock_pc.distinct(3))
next
  fix r t l
  assume "lock_system_inv s" "s = r" "lock_pcs r t = Spinning"
    "spinlock_test_and_acq (lock_word r) = (True, l)"
    "s' = r\<lparr>lock_word := l, lock_pcs := (lock_pcs r)(t := Inside)\<rparr>"
  then show "lock_system_inv s'"
    by (auto simp: lock_system_inv_def spinlock_test_and_acq_def split: if_splits)
next
  fix r t l
  assume "lock_system_inv s" "s = r" "lock_pcs r t = Spinning"
    "spinlock_test_and_acq (lock_word r) = (False, l)" "s' = r\<lparr>lock_word := l\<rparr>"
  then show "lock_system_inv s'"
    by (auto simp: lock_system_inv_def spinlock_test_and_acq_def split: if_splits)
next
  fix r t
  assume "lock_system_inv s" "s = r" "lock_pcs r t = Inside"
    "s' = r\<lparr>lock_word := spinlock_release (lock_word r),
      lock_pcs := (lock_pcs r)(t := Outside)\<rparr>"
  then show "lock_system_inv s'"
    by (auto simp: lock_system_inv_def split: if_splits)
qed

interpretation lock_sys: inductive_invariant lock_system_init lock_system_step lock_system_inv
  by unfold_locales (auto intro: lock_system_init_inv lock_system_step_inv)

text \<open>
  C19. Mutual exclusion: in every state the threads can reach, two threads that are both inside
  the section guarded by one spinlock are the same thread.
\<close>

theorem spinlock_mutual_exclusion:
  assumes "reach lock_system_init lock_system_step s"
    and "lock_pcs s t = Inside" and "lock_pcs s u = Inside"
  shows "t = u"
proof -
  have "lock_system_inv s" using assms(1) by (rule lock_sys.reach_inv)
  with assms(2,3) show ?thesis
    by (auto simp: lock_system_inv_def split: if_splits)
qed

definition lock_demo :: lock_system where
  "lock_demo = \<lparr>lock_word = 1, lock_pcs = (\<lambda>_. Outside)(7 := Inside)\<rparr>"

lemma lock_demo_reach: "reach lock_system_init lock_system_step lock_demo"
proof -
  let ?s0 = "\<lparr>lock_word = 0, lock_pcs = (\<lambda>_. Outside)\<rparr>"
  let ?s1 = "?s0\<lparr>lock_pcs := (lock_pcs ?s0)(7 := Spinning)\<rparr>"
  let ?s2 = "?s1\<lparr>lock_word := 1, lock_pcs := (lock_pcs ?s1)(7 := Inside)\<rparr>"
  have "reach lock_system_init lock_system_step ?s0"
    by (rule reach_init) (simp add: lock_system_init_def SPINLOCK_INIT_def)
  then have "reach lock_system_init lock_system_step ?s1"
    by (rule reach_step) (rule lock_call, simp)
  then have "reach lock_system_init lock_system_step ?s2"
    by (rule reach_step) (rule lock_taken, simp_all add: spinlock_test_and_acq_def)
  then show ?thesis by (simp add: lock_demo_def)
qed

theorem spinlock_mutual_exclusion_witness:
  "reach lock_system_init lock_system_step lock_demo \<and> lock_pcs lock_demo 7 = Inside \<and>
   (\<exists>!t. lock_pcs lock_demo t = Inside)"
proof -
  have inside: "lock_pcs lock_demo 7 = Inside" by (simp add: lock_demo_def)
  show ?thesis
    using lock_demo_reach inside spinlock_mutual_exclusion [OF lock_demo_reach inside] by blast
qed

end
