(* ===== verification/Pmm.thy ===== *)
theory Pmm
  imports Bitmap Spinlock
begin

text \<open>
  The physical page allocator, \<open>src/kernel/mm/pmm.c\<close>. Its state is the file's static variables
  (the bitmap pointer, the number of pages it covers, the search position), the lock, the offset
  of the higher-half direct map and the memory the bitmap and the pages live in.

  \<open>physical_alloc\<close> is shown to be a first-fit search (\<open>first_fit\<close> is its specification);
  \<open>pmm_inv\<close> says that the pages the bitmap itself occupies are never free, which every operation
  keeps, so that handing out and clearing a page cannot damage the bitmap. The locale
  \<open>frame_allocator\<close> is the contract the page tables and the heap rely on.
\<close>

subsection \<open>Definitions\<close>

record pmm_state =
  mem :: memory
  hhdm_offset :: u64
  spin_lock :: spinlock_t
  bitmap :: u64
  bitmap_top_index :: u64
  bitmap_prev_index :: u64

definition get_hhdm :: "'a pmm_state_scheme \<Rightarrow> u64" where
  "get_hhdm s = hhdm_offset s"

definition pmm_lock :: "'a pmm_state_scheme \<Rightarrow> 'a pmm_state_scheme result" where
  "pmm_lock s = bindE (spinlock_acquire (spin_lock s)) (\<lambda>l. Inr (s\<lparr>spin_lock := l\<rparr>))"

definition pmm_unlock :: "'a pmm_state_scheme \<Rightarrow> 'a pmm_state_scheme" where
  "pmm_unlock s = s\<lparr>spin_lock := spinlock_release (spin_lock s)\<rparr>"

text \<open>The loop that marks the pages found.\<close>

function mark_pages :: "memory \<Rightarrow> u64 \<Rightarrow> u64 \<Rightarrow> u64 \<Rightarrow> memory" where
  "mark_pages m bm i stop =
     (if i < stop then mark_pages (bitmap_set m bm i) bm (i + 1) stop else m)"
  by pat_completeness auto
termination
  by (relation "measure (\<lambda>(m, bm, i, stop). unat stop - unat i)") (auto simp: word_less_nat_alt)

function physical_alloc_loop ::
  "u64 \<Rightarrow> u64 \<Rightarrow> u64 \<Rightarrow> 'a pmm_state_scheme \<Rightarrow> u64 \<times> 'a pmm_state_scheme" where
  "physical_alloc_loop n_pages limit consecutive_pages s =
     (if bitmap_prev_index s < limit then
        if bitmap_get (mem s) (bitmap s) (bitmap_prev_index s) then
          physical_alloc_loop n_pages limit 0 (s\<lparr>bitmap_prev_index := bitmap_prev_index s + 1\<rparr>)
        else if consecutive_pages + 1 = n_pages then
          (let s' = s\<lparr>bitmap_prev_index := bitmap_prev_index s + 1\<rparr>;
               page_index = bitmap_prev_index s' - n_pages
           in (page_index * PAGE_SIZE,
               s'\<lparr>mem := mark_pages (mem s') (bitmap s') page_index (page_index + n_pages)\<rparr>))
        else
          physical_alloc_loop n_pages limit (consecutive_pages + 1)
            (s\<lparr>bitmap_prev_index := bitmap_prev_index s + 1\<rparr>)
      else (0, s))"
  by pat_completeness auto
termination
  by (relation "measure (\<lambda>(n_pages, limit, consecutive_pages, s).
        unat limit - unat (bitmap_prev_index s))")
    (auto simp: word_less_nat_alt)

definition physical_alloc ::
  "u64 \<Rightarrow> u64 \<Rightarrow> 'a pmm_state_scheme \<Rightarrow> u64 \<times> 'a pmm_state_scheme" where
  "physical_alloc n_pages limit s = physical_alloc_loop n_pages limit 0 s"

definition pmm_alloc_nozero ::
  "u64 \<Rightarrow> 'a pmm_state_scheme \<Rightarrow> (u64 \<times> 'a pmm_state_scheme) result" where
  "pmm_alloc_nozero n_pages s =
     bindE (pmm_lock s) (\<lambda>s.
       let prev_index = bitmap_prev_index s;
           (allocated, s) = physical_alloc n_pages (bitmap_top_index s) s
       in if allocated = 0 then
            (let (allocated, s) = physical_alloc n_pages prev_index (s\<lparr>bitmap_prev_index := 0\<rparr>)
             in if allocated = 0 then Inl (Panic ''PMM_ALLOC: failed to allocate memory'')
                else Inr (allocated, pmm_unlock s))
          else Inr (allocated, pmm_unlock s))"

definition pmm_alloc :: "u64 \<Rightarrow> 'a pmm_state_scheme \<Rightarrow> (u64 \<times> 'a pmm_state_scheme) result" where
  "pmm_alloc n_pages s =
     bindE (pmm_alloc_nozero n_pages s) (\<lambda>(allocated, s).
       if allocated \<noteq> 0 then
         Inr (allocated, s\<lparr>mem := memset (mem s) (allocated + get_hhdm s) 0 (n_pages * PAGE_SIZE)\<rparr>)
       else Inr (allocated, s))"

function pmm_free_loop :: "memory \<Rightarrow> u64 \<Rightarrow> u64 \<Rightarrow> u64 \<Rightarrow> memory result" where
  "pmm_free_loop m bm i stop =
     (if i < stop then
        if \<not> bitmap_get m bm i then Inl (Panic ''pmm_free: page already free'')
        else pmm_free_loop (bitmap_clear m bm i) bm (i + 1) stop
      else Inr m)"
  by pat_completeness auto
termination
  by (relation "measure (\<lambda>(m, bm, i, stop). unat stop - unat i)") (auto simp: word_less_nat_alt)

definition pmm_free ::
  "u64 \<Rightarrow> u64 \<Rightarrow> 'a pmm_state_scheme \<Rightarrow> 'a pmm_state_scheme result" where
  "pmm_free addr n_pages s =
     (if n_pages = 0 then Inr s
      else bindE (pmm_lock s) (\<lambda>s.
        let bitmap_index = addr div PAGE_SIZE
        in bindE (pmm_free_loop (mem s) (bitmap s) bitmap_index (bitmap_index + n_pages)) (\<lambda>m.
             Inr (pmm_unlock (s\<lparr>mem := m\<rparr>)))))"

definition pmm_check_alloc :: "u64 \<Rightarrow> 'a pmm_state_scheme \<Rightarrow> bool" where
  "pmm_check_alloc addr s = bitmap_get (mem s) (bitmap s) (addr div PAGE_SIZE)"

declare mark_pages.simps [simp del] physical_alloc_loop.simps [simp del]
  pmm_free_loop.simps [simp del]

subsection \<open>The first-fit search\<close>

definition page_used :: "'a pmm_state_scheme \<Rightarrow> nat \<Rightarrow> bool" where
  "page_used s f = bitmap_get (mem s) (bitmap s) (of_nat f)"

definition free_run :: "(nat \<Rightarrow> bool) \<Rightarrow> nat \<Rightarrow> nat \<Rightarrow> bool" where
  "free_run used i n \<longleftrightarrow> (\<forall>k<n. \<not> used (i + k))"

text \<open>The lowest run of \<open>n\<close> free pages that lies within \<open>[lo, hi)\<close>.\<close>

definition first_fit :: "(nat \<Rightarrow> bool) \<Rightarrow> nat \<Rightarrow> nat \<Rightarrow> nat \<Rightarrow> nat option" where
  "first_fit used lo hi n =
     (if \<exists>i. lo \<le> i \<and> i + n \<le> hi \<and> free_run used i n
      then Some (LEAST i. lo \<le> i \<and> i + n \<le> hi \<and> free_run used i n) else None)"

lemma first_fit_NoneI:
  "(\<And>i. lo \<le> i \<Longrightarrow> i + n \<le> hi \<Longrightarrow> \<not> free_run used i n) \<Longrightarrow> first_fit used lo hi n = None"
  by (auto simp: first_fit_def)

lemma first_fit_here: "free_run used lo n \<Longrightarrow> lo + n \<le> hi \<Longrightarrow> first_fit used lo hi n = Some lo"
  by (auto simp: first_fit_def intro!: Least_equality)

lemma first_fit_skip:
  assumes "\<And>i. lo \<le> i \<Longrightarrow> i < lo' \<Longrightarrow> i + n \<le> hi \<Longrightarrow> \<not> free_run used i n" and "lo \<le> lo'"
  shows "first_fit used lo hi n = first_fit used lo' hi n"
proof -
  have "(lo \<le> i \<and> i + n \<le> hi \<and> free_run used i n) = (lo' \<le> i \<and> i + n \<le> hi \<and> free_run used i n)"
    for i using assms by (meson le_trans not_le)
  then show ?thesis by (simp only: first_fit_def)
qed

lemma first_fit_SomeD:
  assumes "first_fit used lo hi n = Some i"
  shows "lo \<le> i \<and> i + n \<le> hi \<and> free_run used i n"
proof -
  from assms have ex: "\<exists>i. lo \<le> i \<and> i + n \<le> hi \<and> free_run used i n"
    and i: "i = (LEAST i. lo \<le> i \<and> i + n \<le> hi \<and> free_run used i n)"
    by (auto simp: first_fit_def split: if_splits)
  show ?thesis unfolding i by (rule LeastI_ex [OF ex])
qed

lemma mark_pages_fold:
  "unat i \<le> unat stop \<Longrightarrow>
   mark_pages m bm i stop = fold (\<lambda>i m. bitmap_set m bm i) (map of_nat [unat i..<unat stop]) m"
proof (induction m bm i stop rule: mark_pages.induct)
  case (1 m bm i stop)
  show ?case
  proof (cases "i < stop")
    case True
    then have lt: "unat i < unat stop" by (simp add: word_less_nat_alt)
    then have "[unat i..<unat stop] = unat i # [unat (i + 1)..<unat stop]"
      using True by (simp add: upt_conv_Cons)
    moreover have "unat (i + 1) \<le> unat stop" using True lt by simp
    ultimately show ?thesis
      using "1.IH" [OF True] True by (simp add: mark_pages.simps [of m bm i stop])
  next
    case False
    then have "unat i = unat stop" using "1.prems" by (simp add: word_less_nat_alt)
    then show ?thesis using False by (simp add: mark_pages.simps [of m bm i stop])
  qed
qed

lemma page_used_update [simp]:
  "page_used (s\<lparr>bitmap_prev_index := p\<rparr>) = page_used s"
  "page_used (s\<lparr>spin_lock := l\<rparr>) = page_used s"
  by (simp_all add: page_used_def fun_eq_iff)

text \<open>What the search does to the state when its specification gives \<open>r\<close>.\<close>

definition search_effect ::
  "u64 \<Rightarrow> u64 \<Rightarrow> nat option \<Rightarrow> 'a pmm_state_scheme \<Rightarrow> u64 \<times> 'a pmm_state_scheme" where
  "search_effect n limit r s =
     (case r of
        Some i \<Rightarrow> (of_nat i * PAGE_SIZE,
          s\<lparr>bitmap_prev_index := of_nat i + n,
            mem := mark_pages (mem s) (bitmap s) (of_nat i) (of_nat i + n)\<rparr>)
      | None \<Rightarrow> (0, s\<lparr>bitmap_prev_index := max (bitmap_prev_index s) limit\<rparr>))"

lemma search_effect_advance:
  "bitmap_prev_index s < limit \<Longrightarrow>
   search_effect n limit r (s\<lparr>bitmap_prev_index := bitmap_prev_index s + 1\<rparr>) =
   search_effect n limit r s"
proof -
  assume "bitmap_prev_index s < limit"
  then have "max (bitmap_prev_index s + 1) limit = max (bitmap_prev_index s) limit"
    using unat_inc [of "bitmap_prev_index s" limit]
    by (simp add: max_def word_le_nat_alt word_less_nat_alt)
  then show ?thesis by (cases r) (simp_all add: search_effect_def)
qed

text \<open>
  The loop invariant: \<open>consecutive_pages\<close> counts the free pages just before the search position.
\<close>

lemma physical_alloc_loop_first_fit:
  fixes s :: "'a pmm_state_scheme"
  assumes "unat c < unat n" and "unat c \<le> unat (bitmap_prev_index s)"
    and "\<And>k. unat (bitmap_prev_index s) - unat c \<le> k \<Longrightarrow> k < unat (bitmap_prev_index s) \<Longrightarrow> \<not> page_used s k"
  shows "physical_alloc_loop n limit c s = search_effect n limit
    (first_fit (page_used s) (unat (bitmap_prev_index s) - unat c) (unat limit) (unat n)) s"
  using assms
proof (induction n limit c s rule: physical_alloc_loop.induct)
  case (1 n limit c s)
  let ?p = "bitmap_prev_index s" and ?s' = "s\<lparr>bitmap_prev_index := bitmap_prev_index s + 1\<rparr>"
  show ?case
  proof (cases "?p < limit")
    case False
    have "first_fit (page_used s) (unat ?p - unat c) (unat limit) (unat n) = None"
    proof (rule first_fit_NoneI)
      fix i assume "unat ?p - unat c \<le> i" "i + unat n \<le> unat limit"
      then have False using False "1.prems"(1,2) by (simp add: word_less_nat_alt)
      then show "\<not> free_run (page_used s) i (unat n)" ..
    qed
    then show ?thesis
      using False
      by (simp add: physical_alloc_loop.simps [of n limit c s] search_effect_def max_def)
  next
    case True
    then have inc: "unat (?p + 1) = Suc (unat ?p)" and lt: "unat ?p < unat limit"
      by (simp_all add: word_less_nat_alt)
    have used_p: "page_used s (unat ?p) = bitmap_get (mem s) (bitmap s) ?p"
      by (simp add: page_used_def)
    show ?thesis
    proof (cases "bitmap_get (mem s) (bitmap s) ?p")
      case used: True
      have "first_fit (page_used s) (unat ?p - unat c) (unat limit) (unat n) =
          first_fit (page_used s) (Suc (unat ?p)) (unat limit) (unat n)"
      proof (rule first_fit_skip)
        fix i assume "unat ?p - unat c \<le> i" "i < Suc (unat ?p)"
        then have "unat ?p - i < unat n" and "i + (unat ?p - i) = unat ?p"
          using "1.prems"(1,2) by linarith+
        then show "\<not> free_run (page_used s) i (unat n)"
          using used used_p unfolding free_run_def by metis
      qed linarith
      moreover have "physical_alloc_loop n limit 0 ?s' = search_effect n limit
          (first_fit (page_used s) (Suc (unat ?p)) (unat limit) (unat n)) s"
        using "1.IH"(1) [OF True used] "1.prems"(1)
        by (simp add: inc search_effect_advance [OF True])
      ultimately show ?thesis
        using True used by (simp add: physical_alloc_loop.simps [of n limit c s])
    next
      case free: False
      have c1: "unat (c + 1) = Suc (unat c)"
        using "1.prems"(1) unat_inc [of c n] by (simp add: word_less_nat_alt)
      show ?thesis
      proof (cases "c + 1 = n")
        case found: True
        then have n: "unat n = Suc (unat c)" using c1 by simp
        have run: "free_run (page_used s) (unat ?p - unat c) (unat n)"
          unfolding free_run_def
        proof (intro allI impI)
          fix k assume "k < unat n"
          then consider "unat ?p - unat c + k < unat ?p" | "unat ?p - unat c + k = unat ?p"
            using n "1.prems"(2) by linarith
          then show "\<not> page_used s (unat ?p - unat c + k)"
            using "1.prems"(3) used_p free by cases simp_all
        qed
        have "first_fit (page_used s) (unat ?p - unat c) (unat limit) (unat n) =
            Some (unat ?p - unat c)"
          using run lt n "1.prems"(2) by (intro first_fit_here) auto
        moreover have "of_nat (unat ?p - unat c) = ?p + 1 - n"
          using "1.prems"(2) by (simp add: of_nat_diff found [symmetric])
        ultimately show ?thesis
          using True free found
          by (simp add: physical_alloc_loop.simps [of n limit c s] search_effect_def Let_def)
      next
        case more: False
        have "unat (c + 1) < unat n"
          using more c1 "1.prems"(1) by (metis Suc_lessI word_unat_eq_iff)
        moreover have "\<not> page_used s k" if "unat ?p - unat c \<le> k" "k < Suc (unat ?p)" for k
          using that "1.prems"(3) used_p free by (cases "k = unat ?p") auto
        ultimately have "physical_alloc_loop n limit (c + 1) ?s' = search_effect n limit
            (first_fit (page_used s) (unat ?p - unat c) (unat limit) (unat n)) s"
          using "1.IH"(2) [OF True free more] "1.prems"(2)
          by (simp add: inc c1 search_effect_advance [OF True])
        then show ?thesis
          using True free more by (simp add: physical_alloc_loop.simps [of n limit c s])
      qed
    qed
  qed
qed

lemma physical_alloc_eq:
  "n \<noteq> 0 \<Longrightarrow> physical_alloc n limit s = search_effect n limit
     (first_fit (page_used s) (unat (bitmap_prev_index s)) (unat limit) (unat n)) s"
  unfolding physical_alloc_def
  by (subst physical_alloc_loop_first_fit) (simp_all add: unat_gt_0)

subsection \<open>The invariant\<close>

text \<open>The addresses through which the kernel reaches page \<open>f\<close>, and those of \<open>n\<close> pages from \<open>f\<close> on.\<close>

definition page_bytes :: "'a pmm_state_scheme \<Rightarrow> nat \<Rightarrow> u64 set" where
  "page_bytes s f = bytes_of (of_nat f * PAGE_SIZE + hhdm_offset s) 4096"

definition bitmap_area :: "'a pmm_state_scheme \<Rightarrow> u64 set" where
  "bitmap_area s = bitmap_bytes (bitmap s) (unat (bitmap_top_index s))"

definition pmm_inv :: "'a pmm_state_scheme \<Rightarrow> bool" where
  "pmm_inv s \<longleftrightarrow>
     spin_lock s = 0 \<and>
     bitmap_prev_index s \<le> bitmap_top_index s \<and>
     unat (bitmap_top_index s) \<le> 2 ^ 40 \<and>
     page_used s 0 \<and>
     unat (hhdm_offset s) + 4096 * unat (bitmap_top_index s) \<le> 2 ^ 64 \<and>
     (\<forall>f < unat (bitmap_top_index s). page_bytes s f \<inter> bitmap_area s \<noteq> {} \<longrightarrow> page_used s f)"

lemma pmm_invD:
  assumes "pmm_inv s"
  shows "spin_lock s = 0" and "bitmap_prev_index s \<le> bitmap_top_index s"
    and "unat (bitmap_top_index s) \<le> 2 ^ 40"
    and "unat (hhdm_offset s) + 4096 * unat (bitmap_top_index s) \<le> 2 ^ 64"
    and "f < unat (bitmap_top_index s) \<Longrightarrow> \<not> page_used s f \<Longrightarrow> page_bytes s f \<inter> bitmap_area s = {}"
    and "page_used s 0"
  using assms by (auto simp: pmm_inv_def)

text \<open>Facts that depend only on the geometry, which no operation after start-up changes.\<close>

definition same_geometry :: "'a pmm_state_scheme \<Rightarrow> 'a pmm_state_scheme \<Rightarrow> bool" where
  "same_geometry s t \<longleftrightarrow> hhdm_offset t = hhdm_offset s \<and> bitmap t = bitmap s \<and>
     bitmap_top_index t = bitmap_top_index s"

lemma same_geometry_areas:
  "same_geometry s t \<Longrightarrow> page_bytes t = page_bytes s"
  "same_geometry s t \<Longrightarrow> bitmap_area t = bitmap_area s"
  by (simp_all add: same_geometry_def page_bytes_def bitmap_area_def fun_eq_iff)

lemma unat_page_addr:
  assumes "pmm_inv s" and "f < unat (bitmap_top_index s)"
  shows "unat (of_nat f * PAGE_SIZE :: u64) = 4096 * f"
    and "unat (of_nat f * PAGE_SIZE + hhdm_offset s) = 4096 * f + unat (hhdm_offset s)"
proof -
  have small: "f < 2 ^ 40" and fit: "unat (hhdm_offset s) + 4096 * Suc f \<le> 2 ^ 64"
    using assms pmm_invD(3,4) [OF assms(1)] by auto
  then show *: "unat (of_nat f * PAGE_SIZE :: u64) = 4096 * f"
    by (subst unat_mult_small) simp_all
  show "unat (of_nat f * PAGE_SIZE + hhdm_offset s) = 4096 * f + unat (hhdm_offset s)"
    using fit * by (subst unat_add_small) simp_all
qed

lemma page_bytes_disjoint:
  assumes "pmm_inv s" and "f < unat (bitmap_top_index s)" and "g < unat (bitmap_top_index s)"
    and "f \<noteq> g"
  shows "page_bytes s f \<inter> page_bytes s g = {}"
  unfolding page_bytes_def
proof (rule bytes_of_disjoint)
  note u = unat_page_addr(2) [OF assms(1)]
  show "unat (of_nat f * PAGE_SIZE + hhdm_offset s) + 4096 \<le> unat (of_nat g * PAGE_SIZE + hhdm_offset s) \<or>
        unat (of_nat g * PAGE_SIZE + hhdm_offset s) + 4096 \<le> unat (of_nat f * PAGE_SIZE + hhdm_offset s)"
    using assms(2-4) by (simp add: u) linarith
  show "unat (of_nat f * PAGE_SIZE + hhdm_offset s) + 4096 \<le> 2 ^ 64"
    and "unat (of_nat g * PAGE_SIZE + hhdm_offset s) + 4096 \<le> 2 ^ 64"
    using assms(2,3) pmm_invD(4) [OF assms(1)] by (simp_all add: u)
qed

text \<open>The block cleared by \<open>memset\<close> is exactly the pages handed out.\<close>

lemma page_block_bytes:
  assumes "pmm_inv s" and "i + n \<le> unat (bitmap_top_index s)" and "0 < n"
  shows "unat (x - (of_nat i * PAGE_SIZE + hhdm_offset s)) < 4096 * n \<longleftrightarrow>
    (\<exists>f. i \<le> f \<and> f < i + n \<and> x \<in> page_bytes s f)"
proof
  let ?a = "of_nat i * PAGE_SIZE + hhdm_offset s"
  define d where "d = unat (x - ?a)"
  assume "unat (x - ?a) < 4096 * n"
  then have d: "d < 4096 * n" by (simp add: d_def)
  have x: "x = ?a + of_nat d" by (simp add: d_def)
  have "x = of_nat (i + d div 4096) * PAGE_SIZE + hhdm_offset s + of_nat (d mod 4096)"
  proof -
    have "of_nat d = of_nat (d div 4096) * PAGE_SIZE + (of_nat (d mod 4096) :: u64)"
      using arg_cong [OF div_mult_mod_eq [of d 4096, symmetric], of "of_nat :: nat \<Rightarrow> u64"]
      by (simp only: of_nat_add of_nat_mult of_nat_numeral PAGE_SIZE_def)
    then show ?thesis by (simp add: x algebra_simps)
  qed
  moreover have "d mod 4096 < 4096" by simp
  ultimately have "x \<in> page_bytes s (i + d div 4096)"
    unfolding page_bytes_def bytes_of_iff by blast
  moreover have "d div 4096 < n" using d by (simp add: div_less_iff_less_mult)
  ultimately show "\<exists>f. i \<le> f \<and> f < i + n \<and> x \<in> page_bytes s f"
    by (metis add_less_cancel_left le_add1)
next
  let ?a = "of_nat i * PAGE_SIZE + hhdm_offset s"
  assume "\<exists>f. i \<le> f \<and> f < i + n \<and> x \<in> page_bytes s f"
  then obtain f r where f: "i \<le> f" "f < i + n" and r: "r < 4096"
    and x: "x = of_nat f * PAGE_SIZE + hhdm_offset s + of_nat r"
    by (auto simp: page_bytes_def bytes_of_iff)
  then obtain g where g: "f = i + g" by (auto simp: nat_le_iff_add)
  then have e: "x - ?a = of_nat (4096 * g + r)"
    by (simp add: x PAGE_SIZE_def algebra_simps)
  have lt: "4096 * g + r < 4096 * n" using f r g by simp
  moreover have "4096 * n < 2 ^ 64"
    using assms(2) pmm_invD(3) [OF assms(1)] by simp
  ultimately have "4096 * g + r < 2 ^ LENGTH(64)" by simp
  then show "unat (x - ?a) < 4096 * n"
    using lt by (simp only: e unat_of_nat_small)
qed

subsection \<open>Allocation\<close>

text \<open>Which run of pages an allocation takes: the rest of the bitmap first, then its start.\<close>

definition alloc_choice :: "'a pmm_state_scheme \<Rightarrow> nat \<Rightarrow> nat option" where
  "alloc_choice s n =
     (case first_fit (page_used s) (unat (bitmap_prev_index s)) (unat (bitmap_top_index s)) n of
        Some i \<Rightarrow> Some i
      | None \<Rightarrow> first_fit (page_used s) 0 (unat (bitmap_prev_index s)) n)"

definition take_pages :: "'a pmm_state_scheme \<Rightarrow> nat \<Rightarrow> u64 \<Rightarrow> 'a pmm_state_scheme" where
  "take_pages s i n = s\<lparr>bitmap_prev_index := of_nat i + n,
     mem := mark_pages (mem s) (bitmap s) (of_nat i) (of_nat i + n)\<rparr>"

lemma alloc_choiceD:
  assumes "pmm_inv s" and "alloc_choice s n = Some i" and "0 < n"
  shows "0 < i" and "i + n \<le> unat (bitmap_top_index s)" and "free_run (page_used s) i n"
proof -
  have "unat (bitmap_prev_index s) \<le> unat (bitmap_top_index s)"
    using pmm_invD(2) [OF assms(1)] by (simp add: word_le_nat_alt)
  then show "i + n \<le> unat (bitmap_top_index s)" and run: "free_run (page_used s) i n"
    using assms(2) by (auto simp: alloc_choice_def split: option.splits dest!: first_fit_SomeD)
  show "0 < i"
  proof (rule ccontr)
    assume "\<not> 0 < i"
    then have "\<not> page_used s 0" using run assms(3) by (auto simp: free_run_def)
    with pmm_invD(6) [OF assms(1)] show False by contradiction
  qed
qed

lemma page_addr_nonzero:
  "pmm_inv s \<Longrightarrow> 0 < f \<Longrightarrow> f < unat (bitmap_top_index s) \<Longrightarrow> of_nat f * PAGE_SIZE \<noteq> (0 :: u64)"
  using unat_page_addr(1) by fastforce

lemma page_used_restart [simp]: "page_used (s\<lparr>bitmap_prev_index := p, bitmap_prev_index := q\<rparr>) = page_used s"
  by simp

lemma pmm_alloc_nozero_eq:
  assumes "pmm_inv s" and "n \<noteq> 0"
  shows "pmm_alloc_nozero n s =
    (case alloc_choice s (unat n) of
       Some i \<Rightarrow> Inr (of_nat i * PAGE_SIZE, take_pages s i n)
     | None \<Rightarrow> Inl (Panic ''PMM_ALLOC: failed to allocate memory''))"
proof -
  let ?t = "s\<lparr>spin_lock := 1\<rparr>"
  let ?ff1 = "first_fit (page_used s) (unat (bitmap_prev_index s)) (unat (bitmap_top_index s)) (unat n)"
  let ?ff2 = "first_fit (page_used s) 0 (unat (bitmap_prev_index s)) (unat n)"
  have lock: "pmm_lock s = Inr ?t" and n: "0 < unat n"
    using assms pmm_invD(1) by (simp_all add: pmm_lock_def unat_gt_0)
  have nz: "of_nat i * PAGE_SIZE \<noteq> (0 :: u64)" if "alloc_choice s (unat n) = Some i" for i
    using alloc_choiceD [OF assms(1) that n] n page_addr_nonzero [OF assms(1)] by simp
  have unlock: "pmm_unlock (?t\<lparr>bitmap_prev_index := p, mem := m\<rparr>) =
      s\<lparr>bitmap_prev_index := p, mem := m\<rparr>" for p m
    using pmm_invD(1) [OF assms(1)] by (cases s) (simp add: pmm_unlock_def)
  show ?thesis
  proof (cases ?ff1)
    case (Some i)
    then have "alloc_choice s (unat n) = Some i" by (simp add: alloc_choice_def)
    then show ?thesis
      using Some nz lock unlock assms(2)
      by (simp add: pmm_alloc_nozero_def physical_alloc_eq search_effect_def take_pages_def)
  next
    case None
    then have ch: "alloc_choice s (unat n) = ?ff2" by (simp add: alloc_choice_def)
    then show ?thesis
      using None nz lock unlock assms(2)
      by (cases ?ff2)
        (simp_all add: pmm_alloc_nozero_def physical_alloc_eq search_effect_def take_pages_def)
  qed
qed

lemma mark_pages_get:
  fixes top :: u64
  assumes "i + unat n \<le> unat top" and "f < unat top"
  shows "bitmap_get (mark_pages m bm (of_nat i) (of_nat i + n)) bm (of_nat f) \<longleftrightarrow>
    (i \<le> f \<and> f < i + unat n) \<or> bitmap_get m bm (of_nat f)"
proof -
  have bound: "unat top < 2 ^ 64" using unat_bound [of top] by simp
  then have i: "unat (of_nat i :: u64) = i" using assms(1) by simp
  then have stop: "unat (of_nat i + n) = i + unat n"
    using assms(1) bound by (subst unat_add_small) simp_all
  have "(of_nat f :: u64) \<in> set (map of_nat [i..<i + unat n]) \<longleftrightarrow> i \<le> f \<and> f < i + unat n"
  proof -
    have "f = g" if "of_nat f = (of_nat g :: u64)" "g < i + unat n" for g
      using that assms bound by (simp add: of_nat_eq_small)
    then show ?thesis by (auto intro!: image_eqI)
  qed
  then show ?thesis
    by (simp add: mark_pages_fold i stop page_bits.get_set_bits)
qed

lemma fold_bitmap_set_other:
  "(\<And>i. i \<in> set xs \<Longrightarrow> x \<noteq> bm + i div 8) \<Longrightarrow> fold (\<lambda>i m. bitmap_set m bm i) xs m x = m x"
  by (induction xs arbitrary: m) (simp_all add: bitmap_set_other)

lemma mark_pages_other:
  fixes top :: u64
  assumes "i + unat n \<le> unat top" and "x \<notin> bitmap_bytes bm (unat top)"
  shows "mark_pages m bm (of_nat i) (of_nat i + n) x = m x"
proof -
  have bound: "unat top < 2 ^ 64" using unat_bound [of top] by simp
  then have i: "unat (of_nat i :: u64) = i" using assms(1) by simp
  then have stop: "unat (of_nat i + n) = i + unat n"
    using assms(1) bound by (subst unat_add_small) simp_all
  have "x \<noteq> bm + of_nat f div 8" if "f < i + unat n" for f
    using bitmap_byte_in [of "of_nat f" "unat top" bm] that assms bound by auto
  then show ?thesis
    by (subst mark_pages_fold) (auto simp: i stop intro!: fold_bitmap_set_other, blast)
qed

text \<open>The pages taken become used, the others keep their state, and the invariant stays.\<close>

lemma take_pages_used:
  "i + unat n \<le> unat (bitmap_top_index s) \<Longrightarrow> f < unat (bitmap_top_index s) \<Longrightarrow>
   page_used (take_pages s i n) f \<longleftrightarrow> (i \<le> f \<and> f < i + unat n) \<or> page_used s f"
  by (simp add: page_used_def take_pages_def mark_pages_get)

lemma take_pages_geometry: "same_geometry s (take_pages s i n)"
  by (simp add: same_geometry_def take_pages_def)

lemma pmm_inv_mono:
  assumes "pmm_inv s" and "same_geometry s t" and "spin_lock t = 0"
    and "bitmap_prev_index t \<le> bitmap_top_index t"
    and "\<And>f. f < unat (bitmap_top_index s) \<Longrightarrow> page_used s f \<Longrightarrow>
      f = 0 \<or> page_bytes s f \<inter> bitmap_area s \<noteq> {} \<Longrightarrow> page_used t f"
    and "0 < unat (bitmap_top_index s)"
  shows "pmm_inv t"
  using assms same_geometry_areas [OF assms(2)]
  by (auto simp: pmm_inv_def same_geometry_def)

lemma take_pages_inv:
  assumes "pmm_inv s" and "i + unat n \<le> unat (bitmap_top_index s)" and "n \<noteq> 0"
  shows "pmm_inv (take_pages s i n)"
proof (rule pmm_inv_mono [OF assms(1) take_pages_geometry])
  have "unat (of_nat i + n) = i + unat n"
    using assms(2) unat_bound [of "bitmap_top_index s"] by (subst unat_add_small) simp_all
  then show "bitmap_prev_index (take_pages s i n) \<le> bitmap_top_index (take_pages s i n)"
    using assms(2) by (simp add: take_pages_def word_le_nat_alt)
  show "0 < unat (bitmap_top_index s)"
    using assms(2,3) unat_gt_0 [of n] by linarith
  show "spin_lock (take_pages s i n) = 0"
    using pmm_invD(1) [OF assms(1)] by (simp add: take_pages_def)
qed (simp add: take_pages_used assms(2))

definition alloc_post :: "'a pmm_state_scheme \<Rightarrow> nat \<Rightarrow> nat \<Rightarrow> 'a pmm_state_scheme \<Rightarrow> bool" where
  "alloc_post s i n t \<longleftrightarrow>
     0 < i \<and> i + n \<le> unat (bitmap_top_index s) \<and> free_run (page_used s) i n \<and>
     same_geometry s t \<and> pmm_inv t \<and>
     (\<exists>m p. t = s\<lparr>bitmap_prev_index := p, mem := m\<rparr>) \<and>
     (\<forall>f < unat (bitmap_top_index s). page_used t f \<longleftrightarrow> (i \<le> f \<and> f < i + n) \<or> page_used s f) \<and>
     (\<forall>f. i \<le> f \<and> f < i + n \<longrightarrow> (\<forall>x \<in> page_bytes s f. mem t x = 0)) \<and>
     (\<forall>x. x \<notin> bitmap_area s \<longrightarrow> (\<forall>f. i \<le> f \<and> f < i + n \<longrightarrow> x \<notin> page_bytes s f) \<longrightarrow> mem t x = mem s x)"

lemma page_used_clear:
  assumes "\<And>x. x \<in> bitmap_area s \<Longrightarrow> m x = mem s x" and "f < unat (bitmap_top_index s)"
  shows "page_used (s\<lparr>mem := m\<rparr>) f = page_used s f"
proof -
  have "unat (of_nat f :: u64) < unat (bitmap_top_index s)"
    using assms(2) unat_bound [of "bitmap_top_index s"] by simp
  then have "bitmap_get m (bitmap s) (of_nat f) = bitmap_get (mem s) (bitmap s) (of_nat f)"
    by (rule bitmap_get_cong [rotated]) (simp add: assms(1) bitmap_area_def)
  then show ?thesis by (simp add: page_used_def)
qed

lemma pmm_alloc_eq:
  assumes "pmm_inv s" and "n \<noteq> 0"
  shows "pmm_alloc n s =
    (case alloc_choice s (unat n) of
       Some i \<Rightarrow> Inr (of_nat i * PAGE_SIZE,
         (take_pages s i n)\<lparr>mem := memset (mem (take_pages s i n))
            (of_nat i * PAGE_SIZE + hhdm_offset s) 0 (n * PAGE_SIZE)\<rparr>)
     | None \<Rightarrow> Inl (Panic ''PMM_ALLOC: failed to allocate memory''))"
proof (cases "alloc_choice s (unat n)")
  case None
  then show ?thesis by (simp add: pmm_alloc_def pmm_alloc_nozero_eq assms)
next
  case (Some i)
  have n: "0 < unat n" using assms(2) by (simp add: unat_gt_0)
  have "of_nat i * PAGE_SIZE \<noteq> (0 :: u64)"
    using alloc_choiceD [OF assms(1) Some n] n by (intro page_addr_nonzero [OF assms(1)]) linarith+
  then show ?thesis
    using Some by (simp add: pmm_alloc_def pmm_alloc_nozero_eq assms get_hhdm_def take_pages_def)
qed

lemma alloc_post_intro:
  assumes "pmm_inv s" and "n \<noteq> 0" and "alloc_choice s (unat n) = Some i"
  shows "alloc_post s i (unat n) ((take_pages s i n)\<lparr>mem := memset (mem (take_pages s i n))
    (of_nat i * PAGE_SIZE + hhdm_offset s) 0 (n * PAGE_SIZE)\<rparr>)" (is "alloc_post s i _ ?t")
proof -
  let ?s1 = "take_pages s i n"
  have n: "0 < unat n" using assms(2) by (simp add: unat_gt_0)
  note ch = alloc_choiceD [OF assms(1,3) n]
  have inv1: "pmm_inv ?s1" by (rule take_pages_inv [OF assms(1) ch(2) assms(2)])
  have geo: "same_geometry s ?s1" "same_geometry s ?t" by (simp_all add: same_geometry_def take_pages_def)
  have "unat (n * PAGE_SIZE) = 4096 * unat n"
    using ch(2) pmm_invD(3) [OF assms(1)] by (subst unat_mult_small) simp_all
  then have mem_t: "mem ?t x =
      (if \<exists>f. i \<le> f \<and> f < i + unat n \<and> x \<in> page_bytes s f then 0 else mem ?s1 x)" for x
    by (simp add: memset_apply page_block_bytes [OF assms(1) ch(2) n])
  have apart: "page_bytes s f \<inter> bitmap_area s = {}" if "i \<le> f" "f < i + unat n" for f
  proof (rule pmm_invD(5) [OF assms(1)])
    show "f < unat (bitmap_top_index s)" using that ch(2) by simp
    show "\<not> page_used s f" using that ch(3) by (auto simp: free_run_def nat_le_iff_add)
  qed
  then have "memset (mem ?s1) (of_nat i * PAGE_SIZE + hhdm_offset s) 0 (n * PAGE_SIZE) x = mem ?s1 x"
    if "x \<in> bitmap_area ?s1" for x
    using that mem_t same_geometry_areas(2) [OF geo(1)] by auto
  then have used: "page_used ?t f = page_used ?s1 f" if "f < unat (bitmap_top_index s)" for f
    using that page_used_clear [of ?s1] geo(1) by (simp add: same_geometry_def)
  have "pmm_inv ?t"
    by (rule pmm_inv_mono [OF inv1])
      (use inv1 pmm_invD(1,2) [OF inv1] used n ch(2) geo in \<open>auto simp: same_geometry_def\<close>)
  moreover have "mem ?t x = mem s x"
    if "x \<notin> bitmap_area s" "\<And>f. i \<le> f \<Longrightarrow> f < i + unat n \<Longrightarrow> x \<notin> page_bytes s f" for x
    using that mark_pages_other [OF ch(2)] mem_t by (auto simp: bitmap_area_def take_pages_def)
  moreover have "mem ?t x = 0" if "i \<le> f" "f < i + unat n" "x \<in> page_bytes s f" for f x
    using that mem_t by auto
  moreover have "\<exists>m p. ?t = s\<lparr>bitmap_prev_index := p, mem := m\<rparr>"
    unfolding take_pages_def by (intro exI) simp
  ultimately show ?thesis
    unfolding alloc_post_def
    using ch geo(2) used take_pages_used [OF ch(2)] by auto
qed

lemma pmm_alloc_Inr:
  assumes "pmm_inv s" and "n \<noteq> 0" and "pmm_alloc n s = Inr (p, t)"
  shows "\<exists>i. p = of_nat i * PAGE_SIZE \<and> alloc_post s i (unat n) t"
  using assms(3) alloc_post_intro [OF assms(1,2)]
  by (auto simp: pmm_alloc_eq [OF assms(1,2)] split: option.splits)

subsection \<open>Release\<close>

lemma pmm_free_loop_eq:
  "unat i \<le> unat stop \<Longrightarrow>
   pmm_free_loop m bm i stop =
     (if \<forall>j. unat i \<le> j \<and> j < unat stop \<longrightarrow> bitmap_get m bm (of_nat j)
      then Inr (fold (\<lambda>i m. bitmap_clear m bm i) (map of_nat [unat i..<unat stop]) m)
      else Inl (Panic ''pmm_free: page already free''))"
proof (induction m bm i stop rule: pmm_free_loop.induct)
  case (1 m bm i stop)
  show ?case
  proof (cases "i < stop")
    case False
    then have "unat i = unat stop" using "1.prems" by (simp add: word_less_nat_alt)
    then show ?thesis using False by (simp add: pmm_free_loop.simps [of m bm i stop])
  next
    case True
    then have lt: "unat i < unat stop" and inc: "unat (i + 1) = Suc (unat i)"
      by (simp_all add: word_less_nat_alt)
    show ?thesis
    proof (cases "bitmap_get m bm i")
      case False
      then have "\<not> bitmap_get m bm (of_nat (unat i))" by simp
      then show ?thesis
        using True False lt by (auto simp: pmm_free_loop.simps [of m bm i stop])
    next
      case used: True
      have other: "bitmap_get (bitmap_clear m bm i) bm (of_nat j) = bitmap_get m bm (of_nat j)"
        if "Suc (unat i) \<le> j" "j < unat stop" for j
      proof -
        have "unat (of_nat j :: u64) = j"
          using that(2) unat_bound [of stop] by simp
        then have "(of_nat j :: u64) \<noteq> i" using that(1) by auto
        then show ?thesis by (simp add: bitmap_get_clear)
      qed
      have all: "(\<forall>j. unat i \<le> j \<and> j < unat stop \<longrightarrow> bitmap_get m bm (of_nat j)) =
          (\<forall>j. Suc (unat i) \<le> j \<and> j < unat stop \<longrightarrow> bitmap_get (bitmap_clear m bm i) bm (of_nat j))"
        unfolding all_range_Suc [OF lt, of "\<lambda>j. bitmap_get m bm (of_nat j)"]
        using other used by auto
      have "[unat i..<unat stop] = unat i # [Suc (unat i)..<unat stop]"
        using lt by (simp add: upt_conv_Cons)
      then show ?thesis
        using "1.IH" [OF True] used True lt by (simp add: pmm_free_loop.simps [of m bm i stop] inc all)
    qed
  qed
qed

definition free_post :: "'a pmm_state_scheme \<Rightarrow> nat \<Rightarrow> nat \<Rightarrow> 'a pmm_state_scheme \<Rightarrow> bool" where
  "free_post s i n t \<longleftrightarrow>
     same_geometry s t \<and> (\<exists>m. t = s\<lparr>mem := m\<rparr>) \<and>
     (\<forall>f < unat (bitmap_top_index s). page_used t f \<longleftrightarrow> \<not> (i \<le> f \<and> f < i + n) \<and> page_used s f) \<and>
     (\<forall>x. x \<notin> bitmap_area s \<longrightarrow> mem t x = mem s x)"

lemma fold_bitmap_clear_other:
  "(\<And>i. i \<in> set xs \<Longrightarrow> x \<noteq> bm + i div 8) \<Longrightarrow> fold (\<lambda>i m. bitmap_clear m bm i) xs m x = m x"
  by (induction xs arbitrary: m) (simp_all add: bitmap_clear_other)

lemma in_page_range:
  fixes top :: u64
  assumes "i + n \<le> unat top" and "f < unat top"
  shows "(of_nat f :: u64) \<in> set (map of_nat [i..<i + n]) \<longleftrightarrow> i \<le> f \<and> f < i + n"
proof -
  have "f = g" if "of_nat f = (of_nat g :: u64)" "g < i + n" for g
    using that assms unat_bound [of top] by (simp add: of_nat_eq_small)
  then show ?thesis by (auto intro!: image_eqI)
qed

lemma pmm_free_page_index:
  fixes n :: u64
  assumes "pmm_inv s" and "i + unat n \<le> unat (bitmap_top_index s)" and "n \<noteq> 0"
  shows "(of_nat i * PAGE_SIZE) div PAGE_SIZE = (of_nat i :: u64)"
    and "unat (of_nat i :: u64) = i" and "unat (of_nat i + n) = i + unat n"
proof -
  have n: "0 < unat n" using assms(3) by (simp add: unat_gt_0)
  then have i: "i < unat (bitmap_top_index s)" using assms(2) by simp
  then show ui: "unat (of_nat i :: u64) = i"
    using unat_bound [of "bitmap_top_index s"] by simp
  show "(of_nat i * PAGE_SIZE) div PAGE_SIZE = (of_nat i :: u64)"
    by (simp add: word_unat_eq_iff unat_div unat_page_addr(1) [OF assms(1) i] ui)
  show "unat (of_nat i + n) = i + unat n"
    using assms(2) unat_bound [of "bitmap_top_index s"] ui by (subst unat_add_small) simp_all
qed

lemma pmm_free_ok:
  assumes "pmm_inv s" and "i + unat n \<le> unat (bitmap_top_index s)" and "n \<noteq> 0"
    and "\<And>f. i \<le> f \<Longrightarrow> f < i + unat n \<Longrightarrow> page_used s f"
  shows "\<exists>t. pmm_free (of_nat i * PAGE_SIZE) n s = Inr t \<and> free_post s i (unat n) t"
proof -
  note idx = pmm_free_page_index [OF assms(1-3)]
  define m where "m = fold (\<lambda>i m. bitmap_clear m (bitmap s) i) (map of_nat [i..<i + unat n]) (mem s)"
  have "pmm_free_loop (mem s) (bitmap s) (of_nat i) (of_nat i + n) = Inr m"
    using assms(4) by (simp add: pmm_free_loop_eq idx m_def page_used_def)
  then have "pmm_free (of_nat i * PAGE_SIZE) n s = Inr (pmm_unlock (s\<lparr>spin_lock := 1, mem := m\<rparr>))"
    using assms(3) pmm_invD(1) [OF assms(1)] by (simp add: pmm_free_def pmm_lock_def idx)
  also have "pmm_unlock (s\<lparr>spin_lock := 1, mem := m\<rparr>) = s\<lparr>mem := m\<rparr>"
    using pmm_invD(1) [OF assms(1)] by (cases s) (simp add: pmm_unlock_def)
  finally have run: "pmm_free (of_nat i * PAGE_SIZE) n s = Inr (s\<lparr>mem := m\<rparr>)" .
  have "page_used (s\<lparr>mem := m\<rparr>) f \<longleftrightarrow> \<not> (i \<le> f \<and> f < i + unat n) \<and> page_used s f"
    if "f < unat (bitmap_top_index s)" for f
    using in_page_range [OF assms(2) that] by (simp add: page_used_def m_def page_bits.get_clear_bits)
  moreover have "m x = mem s x" if "x \<notin> bitmap_area s" for x
    unfolding m_def
  proof (rule fold_bitmap_clear_other)
    fix j assume "j \<in> set (map of_nat [i..<i + unat n] :: u64 list)"
    then have "unat j < unat (bitmap_top_index s)"
      using assms(2) unat_bound [of "bitmap_top_index s"] by auto
    then show "x \<noteq> bitmap s + j div 8"
      using that bitmap_byte_in by (auto simp: bitmap_area_def)
  qed
  ultimately have "free_post s i (unat n) (s\<lparr>mem := m\<rparr>)"
    by (auto simp: free_post_def same_geometry_def)
  then show ?thesis using run by blast
qed

lemma pmm_free_panics:
  assumes "pmm_inv s" and "i + unat n \<le> unat (bitmap_top_index s)" and "n \<noteq> 0"
    and "i \<le> f" and "f < i + unat n" and "\<not> page_used s f"
  shows "pmm_free (of_nat i * PAGE_SIZE) n s = Inl (Panic ''pmm_free: page already free'')"
proof -
  note idx = pmm_free_page_index [OF assms(1-3)]
  have "pmm_free_loop (mem s) (bitmap s) (of_nat i) (of_nat i + n) =
      Inl (Panic ''pmm_free: page already free'')"
    using assms(4-6) by (auto simp: pmm_free_loop_eq idx page_used_def)
  then show ?thesis
    using assms(3) pmm_invD(1) [OF assms(1)] by (simp add: pmm_free_def pmm_lock_def idx)
qed

text \<open>Pages that must not be released: page 0 and the pages of the bitmap.\<close>

definition pinned_pages :: "'a pmm_state_scheme \<Rightarrow> nat set" where
  "pinned_pages s = {f. f < unat (bitmap_top_index s) \<and>
     (f = 0 \<or> page_bytes s f \<inter> bitmap_area s \<noteq> {})}"

definition used_pages :: "'a pmm_state_scheme \<Rightarrow> nat set" where
  "used_pages s = {f. f < unat (bitmap_top_index s) \<and> page_used s f}"

lemma free_post_inv:
  assumes "pmm_inv s" and "free_post s i n t" and "{i..<i + n} \<inter> pinned_pages s = {}"
    and "i + n \<le> unat (bitmap_top_index s)" and "0 < n"
  shows "pmm_inv t"
proof (rule pmm_inv_mono [OF assms(1)])
  show geo: "same_geometry s t" using assms(2) by (simp add: free_post_def)
  obtain m where t: "t = s\<lparr>mem := m\<rparr>" using assms(2) by (auto simp: free_post_def)
  show "spin_lock t = 0" and "bitmap_prev_index t \<le> bitmap_top_index t"
    using pmm_invD(1,2) [OF assms(1)] by (simp_all add: t)
  show "0 < unat (bitmap_top_index s)" using assms(4,5) by simp
  fix f assume "f < unat (bitmap_top_index s)" "page_used s f"
    "f = 0 \<or> page_bytes s f \<inter> bitmap_area s \<noteq> {}"
  then show "page_used t f"
    using assms(2,3) by (auto simp: free_post_def pinned_pages_def)
qed

subsection \<open>The contract of the page allocator\<close>

locale frame_allocator =
  fixes alloc :: "u64 \<Rightarrow> 's \<Rightarrow> (u64 \<times> 's) result" and free :: "u64 \<Rightarrow> u64 \<Rightarrow> 's \<Rightarrow> 's result"
    and inv :: "'s \<Rightarrow> bool" and used :: "'s \<Rightarrow> nat set" and pinned :: "'s \<Rightarrow> nat set"
  assumes pinned_used: "inv s \<Longrightarrow> pinned s \<subseteq> used s"
    and alloc_contract: "inv s \<Longrightarrow> n \<noteq> 0 \<Longrightarrow> alloc n s = Inr (p, t) \<Longrightarrow>
      inv t \<and> pinned t = pinned s \<and>
      (\<exists>i. 0 < i \<and> p = of_nat i * PAGE_SIZE \<and> {i..<i + unat n} \<inter> used s = {} \<and>
           used t = used s \<union> {i..<i + unat n})"
    and free_contract: "inv s \<Longrightarrow> n \<noteq> 0 \<Longrightarrow> {i..<i + unat n} \<subseteq> used s - pinned s \<Longrightarrow>
      \<exists>t. free (of_nat i * PAGE_SIZE) n s = Inr t \<and> inv t \<and> pinned t = pinned s \<and>
          used t = used s - {i..<i + unat n}"
begin

lemma alloc_free_restores:
  assumes "inv s" and "n \<noteq> 0" and "alloc n s = Inr (p, t)"
  shows "\<exists>u. free p n t = Inr u \<and> inv u \<and> used u = used s"
proof -
  obtain i where p: "p = of_nat i * PAGE_SIZE" and new: "{i..<i + unat n} \<inter> used s = {}"
    and used: "used t = used s \<union> {i..<i + unat n}" and t: "inv t" "pinned t = pinned s"
    using alloc_contract [OF assms] by blast
  have "{i..<i + unat n} \<subseteq> used t - pinned t"
    using new used t pinned_used [OF assms(1)] by auto
  from free_contract [OF t(1) assms(2) this] show ?thesis
    using new used p by (auto simp: Int_commute Diff_triv Un_Diff)
qed

lemma alloc_twice_disjoint:
  assumes "inv s" and "n \<noteq> 0" and "k \<noteq> 0"
    and "alloc n s = Inr (p, t)" and "alloc k t = Inr (q, u)"
  shows "\<exists>i j. p = of_nat i * PAGE_SIZE \<and> q = of_nat j * PAGE_SIZE \<and>
    {i..<i + unat n} \<inter> {j..<j + unat k} = {} \<and> {i..<i + unat n} \<union> {j..<j + unat k} \<subseteq> used u"
proof -
  obtain i where i: "p = of_nat i * PAGE_SIZE" "inv t" "used t = used s \<union> {i..<i + unat n}"
    using alloc_contract [OF assms(1,2,4)] by blast
  obtain j where "q = of_nat j * PAGE_SIZE" "{j..<j + unat k} \<inter> used t = {}"
    "used u = used t \<union> {j..<j + unat k}"
    using alloc_contract [OF i(2) assms(3,5)] by blast
  then show ?thesis using i by blast
qed

end

lemma pinned_pages_geometry: "same_geometry s t \<Longrightarrow> pinned_pages t = pinned_pages s"
  by (simp add: pinned_pages_def same_geometry_areas) (simp add: same_geometry_def)

lemma pinned_pages_used: "pmm_inv s \<Longrightarrow> pinned_pages s \<subseteq> used_pages s"
  by (auto simp: pinned_pages_def used_pages_def pmm_inv_def)

lemma alloc_post_used:
  "alloc_post s i n t \<Longrightarrow> used_pages t = used_pages s \<union> {i..<i + n} \<and> {i..<i + n} \<inter> used_pages s = {}"
  by (auto simp: alloc_post_def used_pages_def same_geometry_def free_run_def nat_le_iff_add)

interpretation pmm: frame_allocator pmm_alloc pmm_free pmm_inv used_pages pinned_pages
proof
  fix s :: "'a pmm_state_scheme"
  assume "pmm_inv s"
  then show "pinned_pages s \<subseteq> used_pages s" by (rule pinned_pages_used)
next
  fix s t :: "'a pmm_state_scheme" and n p
  assume "pmm_inv s" "n \<noteq> 0" "pmm_alloc n s = Inr (p, t)"
  then obtain i where "p = of_nat i * PAGE_SIZE" and post: "alloc_post s i (unat n) t"
    using pmm_alloc_Inr by blast
  then show "pmm_inv t \<and> pinned_pages t = pinned_pages s \<and>
      (\<exists>i. 0 < i \<and> p = of_nat i * PAGE_SIZE \<and> {i..<i + unat n} \<inter> used_pages s = {} \<and>
           used_pages t = used_pages s \<union> {i..<i + unat n})"
    using alloc_post_used [OF post] pinned_pages_geometry [of s t] by (auto simp: alloc_post_def)
next
  fix s :: "'a pmm_state_scheme" and n :: u64 and i :: nat
  assume inv: "pmm_inv s" and n: "n \<noteq> 0" and sub: "{i..<i + unat n} \<subseteq> used_pages s - pinned_pages s"
  have pos: "0 < unat n" using n by (simp add: unat_gt_0)
  then have "i + unat n - 1 \<in> {i..<i + unat n}" by simp
  then have "i + unat n - 1 < unat (bitmap_top_index s)" using sub by (auto simp: used_pages_def)
  then have le: "i + unat n \<le> unat (bitmap_top_index s)" using pos by linarith
  obtain t where t: "pmm_free (of_nat i * PAGE_SIZE) n s = Inr t" "free_post s i (unat n) t"
    using pmm_free_ok [OF inv le n] sub by (auto simp: used_pages_def subset_iff)
  moreover have "pmm_inv t"
    by (rule free_post_inv [OF inv t(2) _ le pos]) (use sub in auto)
  moreover have "used_pages t = used_pages s - {i..<i + unat n}" "pinned_pages t = pinned_pages s"
    using t(2) pinned_pages_geometry [of s t]
    by (auto simp: free_post_def used_pages_def same_geometry_def)
  ultimately show "\<exists>t. pmm_free (of_nat i * PAGE_SIZE) n s = Inr t \<and> pmm_inv t \<and>
      pinned_pages t = pinned_pages s \<and> used_pages t = used_pages s - {i..<i + unat n}"
    by blast
qed

subsection \<open>Properties\<close>

text \<open>
  A small machine: eight pages reached at the usual higher-half offset, the bitmap in page 1,
  pages 0 and 1 in use, the search position at \<open>p\<close>.
\<close>

definition pmm_demo :: "u64 \<Rightarrow> u8 \<Rightarrow> pmm_state" where
  "pmm_demo p bits = \<lparr>mem = (\<lambda>_. 0x55)(0xffff800000001000 := bits),
     hhdm_offset = 0xffff800000000000, spin_lock = 0, bitmap = 0xffff800000001000,
     bitmap_top_index = 8, bitmap_prev_index = p\<rparr>"

lemma less_8_cases: "f < 8 \<Longrightarrow> f \<in> {0, 1, 2, 3, 4, 5, 6, 7}" for f :: nat
  by auto

lemma pmm_demo_used: "f < 8 \<Longrightarrow> page_used (pmm_demo p bits) f = bit bits f"
  by (drule less_8_cases) (auto simp: page_used_def pmm_demo_def bitmap_get_bit)

lemma pmm_demo_bitmap_page:
  "f < 8 \<Longrightarrow> page_bytes (pmm_demo p bits) f \<inter> bitmap_area (pmm_demo p bits) \<noteq> {} \<longleftrightarrow> f = 1"
proof -
  have "bitmap_area (pmm_demo p bits) = {0xffff800000001000}"
    by (simp add: bitmap_area_def bitmap_bytes_def bytes_of_def pmm_demo_def lessThan_Suc)
  moreover assume "f < 8"
  ultimately show ?thesis
    by (drule_tac less_8_cases)
      (auto simp: page_bytes_def bytes_of_offset pmm_demo_def PAGE_SIZE_def)
qed

lemma pmm_demo_inv: "p \<le> 8 \<Longrightarrow> bit bits 0 \<Longrightarrow> bit bits 1 \<Longrightarrow> pmm_inv (pmm_demo p bits)"
proof -
  assume a: "p \<le> 8" "bit bits 0" "bit bits 1"
  have top: "unat (bitmap_top_index (pmm_demo p bits)) = 8" by (simp add: pmm_demo_def)
  show ?thesis
    unfolding pmm_inv_def top
    using a pmm_demo_bitmap_page [of _ p bits] pmm_demo_used [of _ p bits]
    by (auto simp: pmm_demo_def)
qed



text \<open>
  C13. \<open>pmm_alloc\<close> meets its contract on every branch. When the search finds the run starting at
  page \<open>i\<close>, it returns that page's physical address; exactly the pages of the run change from
  free to used; their contents, reached through the direct map, are zero; no other byte outside
  the bitmap changes; and the invariant still holds. When the search finds nothing, it panics.
\<close>

theorem pmm_alloc_correct:
  assumes "pmm_inv s" and "n_pages \<noteq> 0"
  shows "case alloc_choice s (unat n_pages) of
      Some i \<Rightarrow> (\<exists>t. pmm_alloc n_pages s = Inr (of_nat i * PAGE_SIZE, t) \<and>
        0 < i \<and> i + unat n_pages \<le> unat (bitmap_top_index s) \<and> pmm_inv t \<and>
        {i..<i + unat n_pages} \<inter> used_pages s = {} \<and>
        used_pages t = used_pages s \<union> {i..<i + unat n_pages} \<and>
        (\<forall>f \<in> {i..<i + unat n_pages}. \<forall>x \<in> page_bytes s f. mem t x = 0) \<and>
        (\<forall>x. x \<notin> bitmap_area s \<and> x \<notin> (\<Union>f \<in> {i..<i + unat n_pages}. page_bytes s f) \<longrightarrow>
             mem t x = mem s x))
    | None \<Rightarrow> pmm_alloc n_pages s = Inl (Panic ''PMM_ALLOC: failed to allocate memory'')"
proof (cases "alloc_choice s (unat n_pages)")
  case None
  then show ?thesis by (simp add: pmm_alloc_eq [OF assms])
next
  case (Some i)
  obtain t where t: "pmm_alloc n_pages s = Inr (of_nat i * PAGE_SIZE, t)"
    and post: "alloc_post s i (unat n_pages) t"
    using Some alloc_post_intro [OF assms Some] by (simp add: pmm_alloc_eq [OF assms])
  then show ?thesis
    using Some alloc_post_used [OF post] by (auto simp: alloc_post_def)
qed

lemma alloc_choice_demo: "alloc_choice (pmm_demo 2 0b11) 1 = Some 2"
proof -
  have "free_run (page_used (pmm_demo 2 0b11)) 2 1"
    by (simp add: free_run_def pmm_demo_used bit_simps)
  then have "first_fit (page_used (pmm_demo 2 0b11)) 2 8 1 = Some 2"
    by (rule first_fit_here) simp
  then show ?thesis by (simp add: alloc_choice_def pmm_demo_def)
qed

theorem pmm_alloc_correct_witness:
  "pmm_inv (pmm_demo 2 0b11) \<and> (1 :: u64) \<noteq> 0 \<and>
   (\<exists>t. pmm_alloc 1 (pmm_demo 2 0b11) = Inr (2 * PAGE_SIZE, t) \<and> pmm_inv t \<and>
        used_pages t = used_pages (pmm_demo 2 0b11) \<union> {2})"
proof -
  have inv: "pmm_inv (pmm_demo 2 0b11)" by (rule pmm_demo_inv) (simp_all add: bit_simps)
  have "{2..<2 + unat (1 :: u64)} = {2}" by auto
  then show ?thesis
    using inv pmm_alloc_correct [OF inv, of 1] alloc_choice_demo by auto
qed

text \<open>
  Releasing what was just allocated gives the allocator back: \<open>pmm_free\<close> on the address and
  the size \<open>pmm_alloc\<close> was called with returns, the invariant holds and the set of used pages is
  the one before the allocation.
\<close>

theorem pmm_alloc_free_roundtrip:
  assumes "pmm_inv s" and "n_pages \<noteq> 0" and "pmm_alloc n_pages s = Inr (p, t)"
  shows "\<exists>u. pmm_free p n_pages t = Inr u \<and> pmm_inv u \<and> used_pages u = used_pages s"
  using assms by (rule pmm.alloc_free_restores)

theorem pmm_alloc_free_roundtrip_witness:
  "\<exists>p t u. pmm_inv (pmm_demo 2 0b11) \<and> pmm_alloc 1 (pmm_demo 2 0b11) = Inr (p, t) \<and>
     pmm_free p 1 t = Inr u \<and> used_pages u = used_pages (pmm_demo 2 0b11)"
proof -
  have inv: "pmm_inv (pmm_demo 2 0b11)" by (rule pmm_demo_inv) (simp_all add: bit_simps)
  obtain p t where a: "pmm_alloc 1 (pmm_demo 2 0b11) = Inr (p, t)"
    using alloc_choice_demo by (simp add: pmm_alloc_eq [OF inv])
  show ?thesis
    using inv a pmm_alloc_free_roundtrip [OF inv _ a] by auto
qed

text \<open>
  C25. \<open>pmm_free\<close> releases exactly the pages it is given when all of them are in use, touching no
  byte outside the bitmap, and panics as soon as one of them is already free.
\<close>

theorem pmm_free_correct:
  assumes "pmm_inv s" and "n_pages \<noteq> 0" and "i + unat n_pages \<le> unat (bitmap_top_index s)"
  shows "if {i..<i + unat n_pages} \<subseteq> used_pages s
    then \<exists>t. pmm_free (of_nat i * PAGE_SIZE) n_pages s = Inr t \<and>
           used_pages t = used_pages s - {i..<i + unat n_pages} \<and>
           (\<forall>x. x \<notin> bitmap_area s \<longrightarrow> mem t x = mem s x)
    else pmm_free (of_nat i * PAGE_SIZE) n_pages s = Inl (Panic ''pmm_free: page already free'')"
proof (cases "{i..<i + unat n_pages} \<subseteq> used_pages s")
  case True
  then obtain t where "pmm_free (of_nat i * PAGE_SIZE) n_pages s = Inr t" "free_post s i (unat n_pages) t"
    using pmm_free_ok [OF assms(1,3,2)] by (auto simp: used_pages_def subset_iff)
  moreover from this(2) have "used_pages t = used_pages s - {i..<i + unat n_pages}"
    by (auto simp: free_post_def used_pages_def same_geometry_def)
  ultimately show ?thesis using True by (auto simp: free_post_def)
next
  case False
  then obtain f where "f \<in> {i..<i + unat n_pages}" and "f \<notin> used_pages s"
    by blast
  then have "i \<le> f" "f < i + unat n_pages" "\<not> page_used s f"
    using assms(3) by (auto simp: used_pages_def)
  then show ?thesis
    using False pmm_free_panics [OF assms(1,3,2)] by simp
qed

theorem pmm_free_correct_witness:
  "pmm_inv (pmm_demo 2 0b11) \<and>
   pmm_free (of_nat 5 * PAGE_SIZE) 1 (pmm_demo 2 0b11) = Inl (Panic ''pmm_free: page already free'')"
proof -
  have inv: "pmm_inv (pmm_demo 2 0b11)" by (rule pmm_demo_inv) (simp_all add: bit_simps)
  have "\<not> {5..<5 + unat (1 :: u64)} \<subseteq> used_pages (pmm_demo 2 0b11)"
    by (simp add: used_pages_def subset_iff pmm_demo_used) (rule exI [of _ 5], simp add: bit_simps)
  then show ?thesis
    using inv pmm_free_correct [OF inv, of 1 5] by (simp add: pmm_demo_def)
qed

text \<open>
  The search never looks at a run that begins before the position where the last one ended and
  reaches past it: when every run of the wanted length does, allocation panics although the
  pages are there.
\<close>

theorem pmm_alloc_misses_straddling_run:
  assumes "pmm_inv s" and "n_pages \<noteq> 0"
    and "\<And>i. i + unat n_pages \<le> unat (bitmap_top_index s) \<Longrightarrow> free_run (page_used s) i (unat n_pages) \<Longrightarrow>
      i < unat (bitmap_prev_index s) \<and> unat (bitmap_prev_index s) < i + unat n_pages"
  shows "pmm_alloc n_pages s = Inl (Panic ''PMM_ALLOC: failed to allocate memory'')"
proof -
  have "unat (bitmap_prev_index s) \<le> unat (bitmap_top_index s)"
    using pmm_invD(2) [OF assms(1)] by (simp add: word_le_nat_alt)
  then have "first_fit (page_used s) 0 (unat (bitmap_prev_index s)) (unat n_pages) = None"
    using assms(3) by (intro first_fit_NoneI) (metis le_trans linorder_not_less)
  moreover have "first_fit (page_used s) (unat (bitmap_prev_index s)) (unat (bitmap_top_index s))
      (unat n_pages) = None"
    using assms(3) by (intro first_fit_NoneI) (metis linorder_not_less)
  ultimately show ?thesis
    by (simp add: pmm_alloc_eq [OF assms(1,2)] alloc_choice_def)
qed

theorem pmm_alloc_misses_straddling_run_witness:
  "pmm_inv (pmm_demo 4 0b11100111) \<and> free_run (page_used (pmm_demo 4 0b11100111)) 3 2 \<and>
   pmm_alloc 2 (pmm_demo 4 0b11100111) = Inl (Panic ''PMM_ALLOC: failed to allocate memory'')"
proof -
  let ?s = "pmm_demo 4 0b11100111"
  have inv: "pmm_inv ?s" by (rule pmm_demo_inv) (simp_all add: bit_simps)
  have used: "page_used ?s 0" "page_used ?s 1" "page_used ?s 2" "\<not> page_used ?s 3" "\<not> page_used ?s 4"
    "page_used ?s 5" "page_used ?s 6" "page_used ?s 7"
    by (simp_all add: pmm_demo_used bit_simps)
  have run: "free_run (page_used ?s) i 2 \<longleftrightarrow> i = 3" if "i + 2 \<le> 8" for i
  proof -
    have "i \<in> {0, 1, 2, 3, 4, 5, 6}" using that by auto
    then show ?thesis
      using used by (elim insertE emptyE) (simp_all add: free_run_def numeral_2_eq_2 All_less_Suc2)
  qed
  have "pmm_alloc 2 ?s = Inl (Panic ''PMM_ALLOC: failed to allocate memory'')"
    by (rule pmm_alloc_misses_straddling_run [OF inv]) (use run in \<open>auto simp: pmm_demo_def\<close>)
  then show ?thesis using inv run [of 3] by simp
qed

end
