(* ===== verification/Pmm_Init.thy ===== *)
theory Pmm_Init
  imports Pmm
begin

text \<open>
  Start-up of the physical page allocator, \<open>pmm_init\<close> in \<open>src/kernel/mm/pmm.c\<close>: the boot
  loader's memory map gives the number of pages, a usable entry large enough takes the bitmap,
  and the remaining usable frames become free. The loops over the map count with a
  \<open>uint8_t\<close>, so a map of 256 or more entries is walked forever; \<open>for_u8\<close> is that loop.

  What is assumed of the boot loader (\<open>memmap_ok\<close>) is the Limine protocol's promise on usable
  entries: page-aligned, disjoint, never containing page 0, and reachable through the direct
  map. \<open>pmm_init_correct\<close> shows that start-up then establishes the allocator's invariant with
  exactly the usable frames free, the bitmap's own frames apart.
\<close>

subsection \<open>Definitions\<close>

definition LIMINE_MEMMAP_USABLE :: u64 where
  [kernel_defs]: "LIMINE_MEMMAP_USABLE = 0"

record limine_memmap_entry =
  entry_base :: u64
  entry_length :: u64
  entry_type :: u64

text \<open>
  The loop \<open>for (uint8_t i = 0; i < count; i++)\<close> on a state; its body says whether it leaves
  the loop. The counter wraps at 256.
\<close>

partial_function (option) for_u8 ::
  "u64 \<Rightarrow> (u8 \<Rightarrow> 's \<Rightarrow> (bool \<times> 's) option) \<Rightarrow> u8 \<Rightarrow> 's \<Rightarrow> 's option" where
  "for_u8 count body i s =
     (if ucast i < count then
        Option.bind (body i s) (\<lambda>(leave, t). if leave then Some t else for_u8 count body (i + 1) t)
      else Some s)"

definition highest_addr_body ::
  "limine_memmap_entry list \<Rightarrow> u8 \<Rightarrow> u64 \<Rightarrow> (bool \<times> u64) option" where
  "highest_addr_body entries i highest_addr =
     (let entry = entries ! unat i
      in if entry_type entry = LIMINE_MEMMAP_USABLE
         then Some (False, MAX_u64 highest_addr (entry_base entry + entry_length entry))
         else Some (False, highest_addr))"

definition find_hole_body ::
  "u64 \<Rightarrow> u8 \<Rightarrow> limine_memmap_entry list \<times> 'a pmm_state_scheme \<Rightarrow>
     (bool \<times> limine_memmap_entry list \<times> 'a pmm_state_scheme) option" where
  "find_hole_body bitmap_size i = (\<lambda>(entries, s).
     let entry = entries ! unat i
     in if entry_type entry \<noteq> LIMINE_MEMMAP_USABLE then Some (False, entries, s)
        else if entry_length entry \<ge> bitmap_size then
          (let s = s\<lparr>bitmap := entry_base entry + get_hhdm s\<rparr>;
               s = s\<lparr>mem := memset (mem s) (bitmap s) 0xff bitmap_size\<rparr>;
               entry = entry\<lparr>entry_length := entry_length entry - bitmap_size,
                             entry_base := entry_base entry + bitmap_size\<rparr>
           in Some (True, entries[unat i := entry], s))
        else Some (False, entries, s))"

partial_function (option) clear_entry_loop ::
  "u64 \<Rightarrow> limine_memmap_entry \<Rightarrow> u64 \<Rightarrow> memory \<Rightarrow> memory option" where
  "clear_entry_loop bm entry j m =
     (if j < entry_length entry then
        clear_entry_loop bm entry (j + PAGE_SIZE)
          (bitmap_clear m bm ((entry_base entry + j) div PAGE_SIZE))
      else Some m)"

definition populate_body ::
  "limine_memmap_entry list \<Rightarrow> u64 \<Rightarrow> u8 \<Rightarrow> memory \<Rightarrow> (bool \<times> memory) option" where
  "populate_body entries bm i m =
     (let entry = entries ! unat i
      in if entry_type entry \<noteq> LIMINE_MEMMAP_USABLE then Some (False, m)
         else map_option (Pair False) (clear_entry_loop bm entry 0 m))"

definition pmm_init ::
  "u64 \<Rightarrow> limine_memmap_entry list \<Rightarrow> 'a pmm_state_scheme \<Rightarrow>
     (limine_memmap_entry list \<times> 'a pmm_state_scheme) result" where
  "pmm_init offset entries s =
     (let entry_count = of_nat (length entries);
          s = s\<lparr>hhdm_offset := offset\<rparr>
      in bindE (of_loop (for_u8 entry_count (highest_addr_body entries) 0 0)) (\<lambda>highest_addr.
         let s = s\<lparr>bitmap_top_index := highest_addr div PAGE_SIZE\<rparr>;
             bitmap_size = ALIGN_UP (bitmap_top_index s div 8) PAGE_SIZE
         in bindE (of_loop (for_u8 entry_count (find_hole_body bitmap_size) 0 (entries, s)))
              (\<lambda>(entries, s).
                if bitmap s = 0 then Inl (Panic ''pmm_init: no space for bitmap'')
                else bindE (of_loop (for_u8 entry_count (populate_body entries (bitmap s)) 0 (mem s)))
                       (\<lambda>m. Inr (entries, s\<lparr>mem := m\<rparr>)))))"

subsection \<open>The loop over the memory map\<close>

primrec for_list :: "('i \<Rightarrow> 's \<Rightarrow> (bool \<times> 's) option) \<Rightarrow> 'i list \<Rightarrow> 's \<Rightarrow> 's option" where
  "for_list body [] s = Some s"
| "for_list body (i # is) s =
     Option.bind (body i s) (\<lambda>(leave, t). if leave then Some t else for_list body is t)"

lemma for_u8_list:
  assumes "unat count \<le> 255" and "unat i \<le> unat count"
  shows "for_u8 count body i s = for_list body (map of_nat [unat i..<unat count]) s"
  using assms
proof (induction "unat count - unat i" arbitrary: i s)
  case 0
  then have "\<not> (ucast i :: u64) < count"
    by (simp add: word_less_nat_alt unat_ucast_up)
  then show ?case using 0 by (simp add: for_u8.simps [of count body i])
next
  case (Suc n)
  then have lt: "unat i < unat count" by linarith
  then have c: "(ucast i :: u64) < count"
    by (simp add: word_less_nat_alt unat_ucast_up)
  have inc: "unat (i + 1) = Suc (unat i)"
    using lt Suc.prems(1) by (subst unat_add_small) simp_all
  have ups: "[unat i..<unat count] = unat i # [unat (i + 1)..<unat count]"
    using lt by (simp add: inc upt_conv_Cons)
  have "for_u8 count body (i + 1) t = for_list body (map of_nat [unat (i + 1)..<unat count]) t" for t
    by (rule Suc.hyps(1)) (use Suc.hyps(2) Suc.prems lt inc in auto)
  then show ?case
    by (cases "body i s") (auto simp: for_u8.simps [of count body i] c ups simp del: upt_Suc)
qed

lemma for_list_fold:
  assumes "\<And>i s. i \<in> set xs \<Longrightarrow> body i s = Some (False, f i s)"
  shows "for_list body xs s = Some (fold f xs s)"
  using assms by (induction xs arbitrary: s) auto

lemma for_list_nth:
  assumes "n = length xs" and "length xs \<le> 255"
    and "\<And>j s. j < n \<Longrightarrow> body (of_nat j) s = Some (False, f (xs ! j) s)"
  shows "for_list body (map of_nat [0..<n]) s = Some (fold f xs s)"
proof -
  have "for_list body (map of_nat is) s = Some (fold (\<lambda>j. f (xs ! j)) is s)" if "set is \<subseteq> {..<n}" for "is"
    using that assms(3) by (induction "is" arbitrary: s) auto
  from this [of "[0..<n]"] have "for_list body (map of_nat [0..<n]) s = Some (fold f (map ((!) xs) [0..<n]) s)"
    by (simp add: fold_map comp_def atLeast0LessThan)
  then show ?thesis using assms(1) map_nth [of xs] by simp
qed

subsection \<open>The memory map\<close>

definition usable :: "limine_memmap_entry \<Rightarrow> bool" where
  "usable e \<longleftrightarrow> entry_type e = LIMINE_MEMMAP_USABLE"

definition frames_of :: "limine_memmap_entry \<Rightarrow> nat list" where
  "frames_of e = (if usable e
     then [unat (entry_base e) div 4096..<(unat (entry_base e) + unat (entry_length e)) div 4096]
     else [])"

definition usable_frames :: "limine_memmap_entry list \<Rightarrow> nat set" where
  "usable_frames es = (\<Union>e \<in> set es. set (frames_of e))"

text \<open>The number of pages the bitmap covers: up to the end of the last usable entry.\<close>

definition top_frame :: "limine_memmap_entry list \<Rightarrow> nat" where
  "top_frame es = Max (insert 0 ((\<lambda>e. (unat (entry_base e) + unat (entry_length e)) div 4096) ` {e \<in> set es. usable e}))"

definition entry_ok :: "u64 \<Rightarrow> limine_memmap_entry \<Rightarrow> bool" where
  "entry_ok offset e \<longleftrightarrow> unat (entry_base e) mod 4096 = 0 \<and> unat (entry_length e) mod 4096 = 0 \<and>
     0 < unat (entry_base e) \<and> unat (entry_base e) + unat (entry_length e) \<le> 2 ^ 52 \<and>
     unat offset + unat (entry_base e) + unat (entry_length e) < 2 ^ 64"

definition memmap_ok :: "u64 \<Rightarrow> limine_memmap_entry list \<Rightarrow> bool" where
  "memmap_ok offset es \<longleftrightarrow> length es \<le> 255 \<and> (\<forall>e \<in> set es. usable e \<longrightarrow> entry_ok offset e) \<and>
     (\<forall>i < length es. \<forall>j < length es. i \<noteq> j \<longrightarrow> set (frames_of (es ! i)) \<inter> set (frames_of (es ! j)) = {})"

subsection \<open>The highest usable address\<close>

definition raise_top :: "limine_memmap_entry \<Rightarrow> u64 \<Rightarrow> u64" where
  "raise_top e h = (if usable e then MAX_u64 h (entry_base e + entry_length e) else h)"

lemma highest_addr_loop:
  assumes "length es \<le> 255"
  shows "for_u8 (of_nat (length es)) (highest_addr_body es) 0 0 = Some (fold raise_top es 0)"
proof -
  have n: "unat (of_nat (length es) :: u64) = length es" using assms by simp
  have "for_list (highest_addr_body es) (map of_nat [0..<length es]) 0 = Some (fold raise_top es 0)"
  proof (rule for_list_nth [OF refl assms])
    fix j s assume "j < length es"
    then have "unat (of_nat j :: u8) = j" using assms by simp
    then show "highest_addr_body es (of_nat j) s = Some (False, raise_top (es ! j) s)"
      by (simp add: highest_addr_body_def raise_top_def usable_def Let_def)
  qed
  then show ?thesis using assms by (subst for_u8_list) (simp_all add: n)
qed

lemma fold_raise_top:
  assumes "\<And>e. e \<in> set es \<Longrightarrow> usable e \<Longrightarrow> entry_ok offset e"
  shows "unat (fold raise_top es h) div 4096 = max (unat h div 4096) (top_frame es)"
  using assms
proof (induction es arbitrary: h)
  case Nil
  then show ?case by (simp add: top_frame_def)
next
  case (Cons e es)
  let ?f = "\<lambda>e. (unat (entry_base e) + unat (entry_length e)) div 4096"
  show ?case
  proof (cases "usable e")
    case True
    then have "entry_ok offset e" using Cons.prems by simp
    then have "unat (entry_base e + entry_length e) = unat (entry_base e) + unat (entry_length e)"
      by (subst unat_add_small) (simp_all add: entry_ok_def)
    then have r: "unat (raise_top e h) div 4096 = max (unat h div 4096) (?f e)"
      using True by (auto simp: raise_top_def MAX_u64_def word_less_nat_alt max_def div_le_mono
          dest: div_le_mono [of _ _ 4096])
    have "{x. (x = e \<or> x \<in> set es) \<and> usable x} = insert e {x \<in> set es. usable x}"
      using True by auto
    then have "top_frame (e # es) = max (?f e) (top_frame es)"
      by (simp add: top_frame_def insert_commute [of 0 "?f e"])
    then show ?thesis
      using Cons.IH [of "raise_top e h"] Cons.prems r by (simp add: max.assoc)
  next
    case False
    then have "{x. (x = e \<or> x \<in> set es) \<and> usable x} = {x \<in> set es. usable x}" by auto
    then have "top_frame (e # es) = top_frame es" by (simp add: top_frame_def)
    then show ?thesis
      using Cons.IH [of h] Cons.prems False by (simp add: raise_top_def)
  qed
qed

subsection \<open>The place of the bitmap\<close>

definition carve :: "u64 \<Rightarrow> limine_memmap_entry \<Rightarrow> limine_memmap_entry" where
  "carve sz e = e\<lparr>entry_length := entry_length e - sz, entry_base := entry_base e + sz\<rparr>"

definition place_bitmap :: "u64 \<Rightarrow> limine_memmap_entry \<Rightarrow> 'a pmm_state_scheme \<Rightarrow> 'a pmm_state_scheme" where
  "place_bitmap sz e s = s\<lparr>bitmap := entry_base e + hhdm_offset s,
     mem := memset (mem s) (entry_base e + hhdm_offset s) 0xff sz\<rparr>"

definition fits :: "u64 \<Rightarrow> limine_memmap_entry \<Rightarrow> bool" where
  "fits sz e \<longleftrightarrow> usable e \<and> sz \<le> entry_length e"

lemma find_hole_body_eq:
  "unat i < length es \<Longrightarrow> find_hole_body sz i (es, s) =
     Some (if fits sz (es ! unat i)
           then (True, es[unat i := carve sz (es ! unat i)], place_bitmap sz (es ! unat i) s)
           else (False, es, s))"
  by (cases s) (simp add: find_hole_body_def fits_def usable_def carve_def place_bitmap_def
      get_hhdm_def Let_def)

lemma for_list_find_hole:
  assumes "set is \<subseteq> {..<length es}" and "length es \<le> 255"
  shows "for_list (find_hole_body sz) (map of_nat is) (es, s) =
    Some (case find (\<lambda>j. fits sz (es ! j)) is of
            None \<Rightarrow> (es, s)
          | Some j \<Rightarrow> (es[j := carve sz (es ! j)], place_bitmap sz (es ! j) s))"
  using assms(1)
proof (induction "is")
  case (Cons i "is")
  then have "unat (of_nat i :: u8) = i" "i < length es" using assms(2) by auto
  then show ?case using Cons by (simp add: find_hole_body_eq)
qed simp

lemma find_hole_loop:
  assumes "length es \<le> 255"
  shows "for_u8 (of_nat (length es)) (find_hole_body sz) 0 (es, s) =
    Some (case find (\<lambda>j. fits sz (es ! j)) [0..<length es] of
            None \<Rightarrow> (es, s)
          | Some j \<Rightarrow> (es[j := carve sz (es ! j)], place_bitmap sz (es ! j) s))"
proof -
  have "unat (of_nat (length es) :: u64) = length es" using assms by simp
  then show ?thesis
    using assms for_list_find_hole [of "[0..<length es]" es sz s]
    by (subst for_u8_list) (simp_all add: atLeast0LessThan)
qed

subsection \<open>Freeing the usable frames\<close>

definition clear_frames :: "u64 \<Rightarrow> limine_memmap_entry \<Rightarrow> memory \<Rightarrow> memory" where
  "clear_frames bm e m = fold (\<lambda>i m. bitmap_clear m bm i) (map of_nat (frames_of e)) m"

lemma entry_ok_frames:
  assumes "entry_ok offset e"
  shows "\<exists>b l. unat (entry_base e) = 4096 * b \<and> unat (entry_length e) = 4096 * l \<and>
    4096 * b + 4096 * l \<le> 2 ^ 52 \<and> 0 < b \<and> unat offset + (4096 * b + 4096 * l) < 2 ^ 64"
proof -
  have "4096 dvd unat (entry_base e)" "4096 dvd unat (entry_length e)"
    using assms by (simp_all add: entry_ok_def dvd_eq_mod_eq_0)
  then obtain b l where "unat (entry_base e) = 4096 * b" "unat (entry_length e) = 4096 * l"
    by (elim dvdE)
  then show ?thesis using assms by (auto simp: entry_ok_def)
qed

lemma clear_entry_loop_eq:
  assumes "entry_ok offset e" and "unat j = 4096 * k" and "4096 * k \<le> unat (entry_length e)"
  shows "clear_entry_loop bm e j m =
    Some (fold (\<lambda>i m. bitmap_clear m bm i)
      (map of_nat [unat (entry_base e) div 4096 + k..<(unat (entry_base e) + unat (entry_length e)) div 4096]) m)"
proof -
  obtain b l where b: "unat (entry_base e) = 4096 * b" and l: "unat (entry_length e) = 4096 * l"
    and bound: "4096 * b + 4096 * l \<le> 2 ^ 52"
    using entry_ok_frames [OF assms(1)] by blast
  show ?thesis
    using assms(2,3)
  proof (induction "unat (entry_length e) div 4096 - k" arbitrary: j k m)
    case 0
    then have "k = l" using l by simp
    moreover from this have "\<not> j < entry_length e" using 0 l by (simp add: word_less_nat_alt)
    ultimately show ?case using b l by (simp add: clear_entry_loop.simps [of bm e j])
  next
    case (Suc n)
    have kl: "k < l" using Suc.hyps(2) l by simp
    have j': "unat (j + PAGE_SIZE) = 4096 * Suc k"
      using Suc.prems(1) kl bound by (subst unat_add_small) simp_all
    have "unat (entry_base e + j) = 4096 * (b + k)"
      using Suc.prems(1) kl b bound by (subst unat_add_small) simp_all
    then have idx: "(entry_base e + j) div PAGE_SIZE = of_nat (b + k)"
      using bound kl by (simp add: word_unat_eq_iff unat_div del: of_nat_add)
    have "[b + k..<b + l] = (b + k) # [b + Suc k..<b + l]"
      using kl by (simp add: upt_conv_Cons)
    moreover have "clear_entry_loop bm e (j + PAGE_SIZE) m' = Some (fold (\<lambda>i m. bitmap_clear m bm i)
        (map of_nat [unat (entry_base e) div 4096 + Suc k..<(unat (entry_base e) + unat (entry_length e)) div 4096]) m')"
      for m'
      by (rule Suc.hyps(1)) (use Suc.hyps(2) j' kl l in auto)
    moreover have "j < entry_length e" using Suc.prems(1) kl l by (simp add: word_less_nat_alt)
    moreover have "(unat (entry_base e) + unat (entry_length e)) div 4096 = b + l" "unat (entry_base e) div 4096 = b"
      using b l by simp_all
    ultimately show ?case
      by (simp add: clear_entry_loop.simps [of bm e j] idx del: of_nat_add upt_Suc)
  qed
qed

lemma populate_loop:
  assumes "length es \<le> 255" and "\<And>e. e \<in> set es \<Longrightarrow> usable e \<Longrightarrow> entry_ok offset e"
  shows "for_u8 (of_nat (length es)) (populate_body es bm) 0 m = Some (fold (clear_frames bm) es m)"
proof -
  have n: "unat (of_nat (length es) :: u64) = length es" using assms(1) by simp
  have "for_list (populate_body es bm) (map of_nat [0..<length es]) m = Some (fold (clear_frames bm) es m)"
  proof (rule for_list_nth [OF refl assms(1)])
    fix j m assume j: "j < length es"
    then have u: "unat (of_nat j :: u8) = j" using assms(1) by simp
    show "populate_body es bm (of_nat j) m = Some (False, clear_frames bm (es ! j) m)"
    proof (cases "usable (es ! j)")
      case True
      then have "entry_ok offset (es ! j)" using assms(2) j by simp
      from clear_entry_loop_eq [OF this, of 0 0] show ?thesis
        using True by (simp add: populate_body_def u clear_frames_def frames_of_def usable_def Let_def)
    next
      case False
      then show ?thesis by (simp add: populate_body_def u clear_frames_def frames_of_def usable_def Let_def)
    qed
  qed
  then show ?thesis using assms(1) by (subst for_u8_list) (simp_all add: n)
qed

lemma fold_clear_frames:
  "fold (clear_frames bm) es m =
   fold (\<lambda>i m. bitmap_clear m bm i) (map of_nat (concat (map frames_of es))) m"
  by (induction es arbitrary: m) (simp_all add: clear_frames_def)

lemma set_concat_frames: "set (concat (map frames_of es)) = usable_frames es"
  by (simp add: usable_frames_def)

lemma usable_frames_less_top: "f \<in> usable_frames es \<Longrightarrow> f < top_frame es"
proof -
  assume "f \<in> usable_frames es"
  then obtain e where "e \<in> set es" "usable e" "f < (unat (entry_base e) + unat (entry_length e)) div 4096"
    by (auto simp: usable_frames_def frames_of_def split: if_splits)
  then show ?thesis
    unfolding top_frame_def
    by (subst Max_gr_iff) auto
qed

lemma top_frame_bounds:
  assumes "memmap_ok offset es"
  shows "top_frame es \<le> 2 ^ 40" and "unat offset + 4096 * top_frame es < 2 ^ 64"
proof -
  let ?S = "insert 0 ((\<lambda>e. (unat (entry_base e) + unat (entry_length e)) div 4096) ` {e \<in> set es. usable e})"
  have "top_frame es \<in> ?S" unfolding top_frame_def by (rule Max_in) auto
  then consider "top_frame es = 0"
    | e where "e \<in> set es" "usable e" "top_frame es = (unat (entry_base e) + unat (entry_length e)) div 4096"
    by auto
  then have "top_frame es \<le> 2 ^ 40 \<and> unat offset + 4096 * top_frame es < 2 ^ 64"
  proof cases
    case 1
    then show ?thesis using unat_bound [of offset] by simp
  next
    case 2
    then have "entry_ok offset e" using assms by (simp add: memmap_ok_def)
    then show ?thesis using 2(3) by (auto simp: entry_ok_def)
  qed
  then show "top_frame es \<le> 2 ^ 40" and "unat offset + 4096 * top_frame es < 2 ^ 64" by simp_all
qed

lemma page_meets_bitmap:
  assumes "unat bm = 4096 * b + unat H" and "k \<le> 4096 * c" and "unat H + 4096 * n < 2 ^ 64"
    and "4096 * b + 4096 * c + unat H < 2 ^ 64" and "f < n"
    and "bytes_of (of_nat f * PAGE_SIZE + H) 4096 \<inter> bytes_of bm k \<noteq> {}"
  shows "b \<le> f \<and> f < b + c"
proof (rule ccontr)
  have f: "unat (of_nat f * PAGE_SIZE :: u64) = 4096 * f"
    using assms(3,5) by (subst unat_mult_small) simp_all
  then have u: "unat (of_nat f * PAGE_SIZE + H) = 4096 * f + unat H"
    using assms(3,5) by (subst unat_add_small) simp_all
  assume "\<not> (b \<le> f \<and> f < b + c)"
  then have "bytes_of (of_nat f * PAGE_SIZE + H) 4096 \<inter> bytes_of bm k = {}"
    using assms(1-5) by (intro bytes_of_disjoint) (simp_all add: u, linarith)
  with assms(6) show False by contradiction
qed

lemma bitmap_get_ones:
  assumes "unat (i div 8) < unat sz"
  shows "bitmap_get (memset m bm 0xff sz) bm i"
proof -
  have "memset m bm 0xff sz (bm + i div 8) = 0xff"
    using assms by (simp add: memset_apply)
  moreover have "bit (0xff :: u8) k" if "k < 8" for k
    using less_8_cases [OF that] by (auto simp: bit_simps)
  ultimately show ?thesis by (simp add: bitmap_get_bit unat_mod_8)
qed

lemma carve_frames:
  assumes "entry_ok offset e" and "usable e" and "sz \<le> entry_length e" and "unat sz = 4096 * c"
  shows "entry_ok offset (carve sz e)"
    and "set (frames_of (carve sz e)) =
      set (frames_of e) - {unat (entry_base e) div 4096..<unat (entry_base e) div 4096 + c}"
proof -
  obtain b l where b: "unat (entry_base e) = 4096 * b" and l: "unat (entry_length e) = 4096 * l"
    and bound: "4096 * b + 4096 * l \<le> 2 ^ 52" "0 < b" "unat offset + (4096 * b + 4096 * l) < 2 ^ 64"
    using entry_ok_frames [OF assms(1)] by blast
  have c: "c \<le> l" using assms(3,4) l by (simp add: word_le_nat_alt)
  then have len: "unat (entry_length e - sz) = 4096 * (l - c)"
    using assms(3,4) l by (simp add: unat_sub diff_mult_distrib2)
  have base: "unat (entry_base e + sz) = 4096 * (b + c)"
    using assms(4) b c bound by (subst unat_add_small) simp_all
  have u: "usable (carve sz e)" using assms(2) by (simp add: usable_def carve_def)
  show "entry_ok offset (carve sz e)"
    using bound c len base by (simp add: entry_ok_def carve_def) arith
  show "set (frames_of (carve sz e)) =
      set (frames_of e) - {unat (entry_base e) div 4096..<unat (entry_base e) div 4096 + c}"
    using u assms(2) c by (auto simp: frames_of_def b l) (auto simp: carve_def len base)
qed

text \<open>The frames a map has left after the bitmap took the first \<open>c\<close> frames of entry \<open>j\<close>.\<close>

lemma usable_frames_carve:
  assumes "memmap_ok offset es" and "j < length es" and "fits sz (es ! j)" and "unat sz = 4096 * c"
  shows "usable_frames (es[j := carve sz (es ! j)]) = usable_frames es -
    {unat (entry_base (es ! j)) div 4096..<unat (entry_base (es ! j)) div 4096 + c}"
    (is "_ = _ - ?B")
proof -
  have ok: "entry_ok offset (es ! j)" "usable (es ! j)" "sz \<le> entry_length (es ! j)"
    using assms(1-3) by (simp_all add: memmap_ok_def fits_def)
  note cf = carve_frames(2) [OF ok assms(4)]
  have nth_union: "usable_frames xs = (\<Union>i<length xs. set (frames_of (xs ! i)))" for xs
    by (fastforce simp: usable_frames_def set_conv_nth)
  obtain b l where b: "unat (entry_base (es ! j)) = 4096 * b" and l: "unat (entry_length (es ! j)) = 4096 * l"
    using entry_ok_frames [OF ok(1)] by blast
  have "c \<le> l" using ok(3) assms(4) l by (simp add: word_le_nat_alt)
  then have B: "?B \<subseteq> set (frames_of (es ! j))" using ok(2) b l by (auto simp: frames_of_def)
  have "set (frames_of (es[j := carve sz (es ! j)] ! i)) = set (frames_of (es ! i)) - ?B"
    if "i < length es" for i
  proof (cases "i = j")
    case True
    then show ?thesis using cf assms(2) by simp
  next
    case False
    then have "set (frames_of (es ! i)) \<inter> set (frames_of (es ! j)) = {}"
      using assms(1,2) that by (simp add: memmap_ok_def)
    then show ?thesis using False B by auto
  qed
  then show ?thesis by (auto simp: nth_union)
qed

subsection \<open>The state after start-up\<close>

definition bitmap_size :: "limine_memmap_entry list \<Rightarrow> u64" where
  "bitmap_size es = ALIGN_UP (of_nat (top_frame es) div 8) PAGE_SIZE"

lemma unat_bitmap_size:
  "memmap_ok offset es \<Longrightarrow> unat (bitmap_size es) = 4096 * ((top_frame es div 8 + 4095) div 4096)"
proof -
  assume "memmap_ok offset es"
  from top_frame_bounds(1) [OF this]
  have "unat (of_nat (top_frame es) div 8 :: u64) = top_frame es div 8" and "top_frame es \<le> 2 ^ 40"
    by (simp_all add: unat_div)
  then show ?thesis
    unfolding bitmap_size_def by (subst unat_ALIGN_UP) simp_all
qed

text \<open>The state with the bitmap at the start of entry \<open>e\<close> and the frames of \<open>es\<close> free.\<close>

definition pmm_started ::
  "u64 \<Rightarrow> limine_memmap_entry list \<Rightarrow> limine_memmap_entry \<Rightarrow> nat \<Rightarrow> u64 \<Rightarrow> 'a pmm_state_scheme \<Rightarrow>
     'a pmm_state_scheme" where
  "pmm_started offset es e n sz s = (let bm = entry_base e + offset in
     s\<lparr>hhdm_offset := offset, bitmap_top_index := of_nat n, bitmap := bm,
       mem := fold (clear_frames bm) es (memset (mem s) bm 0xff sz)\<rparr>)"

lemma pmm_init_eq:
  assumes "memmap_ok offset es" and "bitmap s = 0"
  shows "pmm_init offset es s =
    (case find (\<lambda>j. fits (bitmap_size es) (es ! j)) [0..<length es] of
       None \<Rightarrow> Inl (Panic ''pmm_init: no space for bitmap'')
     | Some j \<Rightarrow> (let es' = es[j := carve (bitmap_size es) (es ! j)]
         in Inr (es', pmm_started offset es' (es ! j) (top_frame es) (bitmap_size es) s)))"
proof -
  let ?sz = "bitmap_size es"
  have len: "length es \<le> 255" and ok: "\<And>e. e \<in> set es \<Longrightarrow> usable e \<Longrightarrow> entry_ok offset e"
    using assms(1) by (simp_all add: memmap_ok_def)
  have "unat (fold raise_top es 0 div PAGE_SIZE) = top_frame es"
    using fold_raise_top [of es offset 0] ok by (simp add: unat_div)
  moreover have "fold raise_top es 0 div PAGE_SIZE = of_nat (unat (fold raise_top es 0 div PAGE_SIZE))"
    by simp
  ultimately have top: "fold raise_top es 0 div PAGE_SIZE = of_nat (top_frame es)" by metis
  show ?thesis
  proof (cases "find (\<lambda>j. fits ?sz (es ! j)) [0..<length es]")
    case None
    then show ?thesis
      using assms(2)
      by (simp add: pmm_init_def highest_addr_loop [OF len] find_hole_loop [OF len] top
          bitmap_size_def [symmetric] Let_def)
  next
    case (Some j)
    then have j: "j < length es" "fits ?sz (es ! j)" by (auto simp: find_Some_iff)
    then have eok: "entry_ok offset (es ! j)" using ok by (simp add: fits_def)
    have "unat (entry_base (es ! j) + offset) = unat (entry_base (es ! j)) + unat offset"
      using eok by (subst unat_add_small) (simp_all add: entry_ok_def)
    then have nz: "entry_base (es ! j) + offset \<noteq> 0"
      using eok by (auto simp: entry_ok_def)
    let ?es = "es[j := carve ?sz (es ! j)]"
    have "for_u8 (of_nat (length es)) (populate_body ?es bm) 0 m = Some (fold (clear_frames bm) ?es m)"
      for bm m
    proof -
      have "entry_ok offset e" if "e \<in> set ?es" "usable e" for e
      proof -
        have "e = carve ?sz (es ! j) \<or> e \<in> set es"
          using that(1) set_update_subset_insert [of es j "carve ?sz (es ! j)"] by blast
        then show ?thesis
          using that(2) ok j carve_frames(1) [OF eok _ _ unat_bitmap_size [OF assms(1)]]
          by (auto simp: fits_def)
      qed
      then show ?thesis using populate_loop [of ?es offset bm m] len by simp
    qed
    then show ?thesis
      using Some assms(2) nz
      by (simp add: pmm_init_def highest_addr_loop [OF len] find_hole_loop [OF len] top
          bitmap_size_def [symmetric] Let_def place_bitmap_def pmm_started_def)
  qed
qed

lemma pmm_started_used:
  assumes "\<And>f. f \<in> usable_frames es \<Longrightarrow> f < n" and "n \<le> 2 ^ 40" and "(n + 7) div 8 \<le> unat sz" and "f < n"
  shows "page_used (pmm_started offset es e n sz s) f \<longleftrightarrow> f \<notin> usable_frames es"
proof -
  have u: "unat (of_nat f :: u64) = f" using assms(2,4) by simp
  have get: "page_used (pmm_started offset es e n sz s) f =
      bitmap_get (fold (\<lambda>i m. bitmap_clear m (entry_base e + offset) i)
        (map of_nat (concat (map frames_of es))) (memset (mem s) (entry_base e + offset) 0xff sz))
        (entry_base e + offset) (of_nat f)"
    by (simp add: page_used_def pmm_started_def Let_def fold_clear_frames)
  have "unat (of_nat f div 8 :: u64) < unat sz"
    using assms(3,4) by (simp add: unat_div u)
  moreover have "(of_nat f :: u64) \<in> set (map of_nat (concat (map frames_of es))) \<longleftrightarrow> f \<in> usable_frames es"
  proof -
    have "f = g" if "of_nat f = (of_nat g :: u64)" "g \<in> usable_frames es" for g
      using that(1) assms(1) [OF that(2)] assms(2,4) by (simp add: of_nat_eq_small)
    then show ?thesis
      unfolding set_map set_concat_frames by blast
  qed
  ultimately show ?thesis
    by (simp only: get page_bits.get_clear_bits bitmap_get_ones simp_thms)
qed

lemma pmm_started_other:
  assumes "\<And>f. f \<in> usable_frames es \<Longrightarrow> f < n" and "n \<le> 2 ^ 40" and "(n + 7) div 8 \<le> unat sz"
    and "x \<notin> bytes_of (entry_base e + offset) (unat sz)"
  shows "mem (pmm_started offset es e n sz s) x = mem s x"
proof -
  let ?bm = "entry_base e + offset"
  have "fold (\<lambda>i m. bitmap_clear m ?bm i) (map of_nat (concat (map frames_of es))) m x = m x" for m
  proof (rule fold_bitmap_clear_other)
    fix i assume "i \<in> set (map of_nat (concat (map frames_of es)) :: u64 list)"
    then obtain f where f: "i = of_nat f" "f < n"
      unfolding set_map set_concat_frames using assms(1) by blast
    then have "unat i < n" using assms(2) by simp
    from bitmap_byte_in [OF this, of ?bm] show "x \<noteq> ?bm + i div 8"
      using assms(4) bytes_of_mono [OF assms(3), of ?bm] by (auto simp: bitmap_bytes_def)
  qed
  moreover have "\<not> unat (x - ?bm) < unat sz"
    using assms(4) bytes_of_offset [of "unat sz" x ?bm] unat_bound [of sz] by simp
  ultimately show ?thesis
    by (simp add: pmm_started_def Let_def fold_clear_frames memset_apply)
qed

lemma pmm_started_inv:
  assumes map: "memmap_ok offset es" and j: "j < length es" "fits (bitmap_size es) (es ! j)"
    and sz: "(top_frame es + 7) div 8 \<le> unat (bitmap_size es)"
    and s: "spin_lock s = 0" "bitmap_prev_index s = 0"
  defines "t \<equiv> pmm_started offset (es[j := carve (bitmap_size es) (es ! j)]) (es ! j) (top_frame es)
    (bitmap_size es) s"
    and "B \<equiv> {unat (entry_base (es ! j)) div 4096..<
      unat (entry_base (es ! j)) div 4096 + unat (bitmap_size es) div 4096}"
  shows "pmm_inv t" and "used_pages t = ({..<top_frame es} - usable_frames es) \<union> B"
    and "unat (bitmap_top_index t) = top_frame es"
proof -
  let ?e = "es ! j" and ?n = "top_frame es"
  have ok: "entry_ok offset ?e" "usable ?e" "bitmap_size es \<le> entry_length ?e"
    using map j by (simp_all add: memmap_ok_def fits_def)
  obtain b l where b: "unat (entry_base ?e) = 4096 * b" and l: "unat (entry_length ?e) = 4096 * l"
    and bl: "0 < b" "unat offset + (4096 * b + 4096 * l) < 2 ^ 64"
    using entry_ok_frames [OF ok(1)] by blast
  define c where "c = (?n div 8 + 4095) div 4096"
  have c: "unat (bitmap_size es) = 4096 * c" using unat_bitmap_size [OF map] by (simp add: c_def)
  then have B: "B = {b..<b + c}" by (simp add: B_def b)
  have cl: "c \<le> l" using ok(3) c l by (simp add: word_le_nat_alt)
  note top = top_frame_bounds [OF map]
  have frames: "usable_frames (es[j := carve (bitmap_size es) ?e]) = usable_frames es - B"
    using usable_frames_carve [OF map j c] by (simp add: B_def c)
  have used: "page_used t f \<longleftrightarrow> f \<notin> usable_frames es - B" if "f < ?n" for f
    unfolding t_def frames [symmetric]
    by (rule pmm_started_used) (use frames usable_frames_less_top top sz that in auto)
  show tn: "unat (bitmap_top_index t) = ?n" using top by (simp add: t_def pmm_started_def Let_def)
  have "B \<subseteq> set (frames_of ?e)" using ok(2) b l cl by (auto simp: frames_of_def B)
  then have "B \<subseteq> usable_frames es"
    unfolding usable_frames_def using nth_mem [OF j(1)] by blast
  then have "B \<subseteq> {..<?n}" using usable_frames_less_top by auto
  then show "used_pages t = ({..<?n} - usable_frames es) \<union> B"
    using used by (auto simp: used_pages_def tn)
  have zero: "0 \<notin> usable_frames es"
    using map by (auto simp: usable_frames_def frames_of_def memmap_ok_def entry_ok_def
        dest!: bspec split: if_splits)
  have "unat (entry_base ?e + offset) = 4096 * b + unat offset"
    using bl b by (subst unat_add_small) simp_all
  then have meets: "f \<in> B" if "f < ?n" "page_bytes t f \<inter> bitmap_area t \<noteq> {}" for f
    using page_meets_bitmap [of "entry_base ?e + offset" b offset "(?n + 7) div 8" c ?n f] that sz c top bl cl B
    by (simp add: page_bytes_def bitmap_area_def bitmap_bytes_def tn)
      (simp add: t_def pmm_started_def Let_def)
  have "0 < ?n"
  proof -
    have "b + l \<le> ?n" unfolding top_frame_def using j ok(2) b l by (intro Max_ge) (auto intro!: image_eqI [of _ _ ?e])
    then show ?thesis using bl by simp
  qed
  then show "pmm_inv t"
    unfolding pmm_inv_def tn
    using used meets zero top s by (auto simp: t_def pmm_started_def Let_def)
qed

lemma for_u8_wraps:
  assumes "for_u8 count body i s = Some r" and "\<And>i s. body i s = Some (False, f i s)" and "256 \<le> unat count"
  shows False
  using assms(1)
proof (rule for_u8.raw_induct [where P = "\<lambda>c b i s r. c = count \<longrightarrow> b = body \<longrightarrow> False",
      THEN mp, THEN mp, rotated])
  fix rec c b i and s r :: 'a
  assume IH: "\<And>c b i s r. rec c b i s = Some r \<Longrightarrow> c = count \<longrightarrow> b = body \<longrightarrow> False"
    and run: "(if (ucast (i :: u8) :: u64) < c
      then Option.bind (b i s) (\<lambda>(leave, t). if leave then Some t else rec c b (i + 1) t) else Some s) = Some r"
  show "c = count \<longrightarrow> b = body \<longrightarrow> False"
  proof (intro impI)
    assume "c = count" "b = body"
    moreover have "(ucast i :: u64) < count"
      using assms(3) unat_bound [of i] by (simp add: word_less_nat_alt unat_ucast_up)
    ultimately have "rec count body (i + 1) (f i s) = Some r" using run assms(2) by simp
    then show False using IH by blast
  qed
qed simp_all

subsection \<open>Properties\<close>

text \<open>
  C14. \<open>pmm_init\<close> on a memory map as the boot loader promises it, whose bitmap holds a bit for
  every page: when a usable entry has room for the bitmap, start-up establishes the
  allocator's invariant; the pages in use are exactly those that are not usable memory and the
  ones the bitmap was placed in; and no byte outside the bitmap is written. When no entry has
  room, it panics.
\<close>

theorem pmm_init_correct:
  assumes "memmap_ok offset entries"
    and "bitmap s = 0" and "spin_lock s = 0" and "bitmap_prev_index s = 0"
    and "(top_frame entries + 7) div 8 \<le> unat (bitmap_size entries)"
  shows "case find (\<lambda>j. fits (bitmap_size entries) (entries ! j)) [0..<length entries] of
      None \<Rightarrow> pmm_init offset entries s = Inl (Panic ''pmm_init: no space for bitmap'')
    | Some j \<Rightarrow> (\<exists>entries' t. pmm_init offset entries s = Inr (entries', t) \<and> pmm_inv t \<and>
        unat (bitmap_top_index t) = top_frame entries \<and>
        used_pages t = ({..<top_frame entries} - usable_frames entries) \<union>
          {unat (entry_base (entries ! j)) div 4096..<
           unat (entry_base (entries ! j)) div 4096 + unat (bitmap_size entries) div 4096} \<and>
        (\<forall>x. x \<notin> bytes_of (bitmap t) (unat (bitmap_size entries)) \<longrightarrow> mem t x = mem s x))"
proof (cases "find (\<lambda>j. fits (bitmap_size entries) (entries ! j)) [0..<length entries]")
  case None
  then show ?thesis by (simp add: pmm_init_eq [OF assms(1,2)])
next
  case (Some j)
  then have j: "j < length entries" "fits (bitmap_size entries) (entries ! j)"
    by (auto simp: find_Some_iff)
  let ?es = "entries[j := carve (bitmap_size entries) (entries ! j)]"
  let ?t = "pmm_started offset ?es (entries ! j) (top_frame entries) (bitmap_size entries) s"
  have "f < top_frame entries" if "f \<in> usable_frames ?es" for f
    using that usable_frames_carve [OF assms(1) j unat_bitmap_size [OF assms(1)]] usable_frames_less_top
    by auto
  then have "mem ?t x = mem s x" if "x \<notin> bytes_of (bitmap ?t) (unat (bitmap_size entries))" for x
    by (rule pmm_started_other)
      (use that assms(5) top_frame_bounds(1) [OF assms(1)] in \<open>simp_all add: pmm_started_def Let_def\<close>)
  then show ?thesis
    using Some pmm_started_inv [OF assms(1) j assms(5,3,4)]
    by (simp add: pmm_init_eq [OF assms(1,2)] Let_def)
qed

text \<open>A machine with 7 usable pages after a reserved one, before the kernel set anything up.\<close>

definition memmap_demo :: "limine_memmap_entry list" where
  "memmap_demo = [\<lparr>entry_base = 0, entry_length = 0x1000, entry_type = 1\<rparr>,
     \<lparr>entry_base = 0x1000, entry_length = 0x7000, entry_type = 0\<rparr>]"

definition pmm_off :: pmm_state where
  "pmm_off = \<lparr>mem = (\<lambda>_. 0x55), hhdm_offset = 0, spin_lock = 0, bitmap = 0, bitmap_top_index = 0,
     bitmap_prev_index = 0\<rparr>"

lemma memmap_demo_facts:
  "memmap_ok 0xffff800000000000 memmap_demo" "top_frame memmap_demo = 8"
  "bitmap_size memmap_demo = 4096" "usable_frames memmap_demo = {1..<8}"
  "find (\<lambda>j. fits 4096 (memmap_demo ! j)) [0..<length memmap_demo] = Some 1"
proof -
  have u: "usable (memmap_demo ! Suc 0)" "\<not> usable (memmap_demo ! 0)"
    by (simp_all add: usable_def memmap_demo_def LIMINE_MEMMAP_USABLE_def)
  have fr: "map frames_of memmap_demo = [[], [1..<8]]"
    by (simp add: frames_of_def usable_def memmap_demo_def LIMINE_MEMMAP_USABLE_def)
  have "set memmap_demo = {memmap_demo ! 0, memmap_demo ! Suc 0}" "length memmap_demo = 2"
    by (simp_all add: memmap_demo_def)
  note st = this
  have "{e \<in> set memmap_demo. usable e} = {memmap_demo ! Suc 0}"
    using u st by auto
  then show t: "top_frame memmap_demo = 8"
    by (simp only: top_frame_def) (simp add: memmap_demo_def)
  show "bitmap_size memmap_demo = 4096"
    by (simp add: bitmap_size_def t ALIGN_UP_def DIV_ROUNDUP_def PAGE_SIZE_def)
  show "usable_frames memmap_demo = {1..<8}"
    using arg_cong [OF fr, of "\<lambda>xs. set (concat xs)"] by (simp add: usable_frames_def)
  have fr2: "frames_of (memmap_demo ! i) = (if i = 0 then [] else [1..<8])" if "i < 2" for i
    using that fr st(2) nth_map [of i memmap_demo frames_of] by (auto simp: less_2_cases_iff)
  show "memmap_ok 0xffff800000000000 memmap_demo"
    using u st by (auto simp: memmap_ok_def fr2) (simp add: memmap_demo_def entry_ok_def)
  show "find (\<lambda>j. fits 4096 (memmap_demo ! j)) [0..<length memmap_demo] = Some 1"
    using u by (simp add: st(2) numeral_2_eq_2 fits_def) (simp add: memmap_demo_def)
qed

theorem pmm_init_correct_witness:
  "memmap_ok 0xffff800000000000 memmap_demo \<and>
   (\<exists>entries' t. pmm_init 0xffff800000000000 memmap_demo pmm_off = Inr (entries', t) \<and> pmm_inv t \<and>
     used_pages t = {0, 1})"
proof -
  have "({..<8} - {1..<8}) \<union> {1..<Suc 1} = {0, 1 :: nat}" by auto
  moreover have "bitmap pmm_off = 0" "spin_lock pmm_off = 0" "bitmap_prev_index pmm_off = 0"
    by (simp_all add: pmm_off_def)
  moreover have "entry_base (memmap_demo ! 1) = 0x1000" by (simp add: memmap_demo_def)
  ultimately show ?thesis
    using pmm_init_correct [OF memmap_demo_facts(1), of pmm_off] memmap_demo_facts by auto
qed

text \<open>
  The memory map is walked with an 8-bit counter: start-up never ends when the boot loader
  reports 256 entries or more.
\<close>

theorem pmm_init_hangs:
  assumes "256 \<le> length entries" and "length entries < 2 ^ 64"
  shows "pmm_init offset entries s = Inl Hang"
proof -
  have "for_u8 (of_nat (length entries)) (highest_addr_body entries) 0 0 = None"
  proof (rule ccontr)
    assume "for_u8 (of_nat (length entries)) (highest_addr_body entries) 0 0 \<noteq> None"
    then obtain r where "for_u8 (of_nat (length entries)) (highest_addr_body entries) 0 0 = Some r" by blast
    then show False
      by (rule for_u8_wraps [where f = "\<lambda>i. raise_top (entries ! unat i)"])
        (use assms in \<open>simp_all add: highest_addr_body_def raise_top_def usable_def Let_def\<close>)
  qed
  then show ?thesis by (simp add: pmm_init_def)
qed

theorem pmm_init_hangs_witness:
  "pmm_init 0 (replicate 256 \<lparr>entry_base = 0x1000, entry_length = 0x1000, entry_type = 0\<rparr>) pmm_off = Inl Hang"
  by (rule pmm_init_hangs) simp_all

end
