(* ===== verification/Vmm.thy ===== *)
theory Vmm
  imports Pmm_Init
begin

text \<open>
  The page tables, \<open>src/kernel/mm/vmm.c\<close> and \<open>vmm.h\<close>. A \<open>vmm_t\<close> is a page of memory holding a
  lock (at offset 0), the address of the top-level table (8) and the first heap arena (16); the
  four levels of tables are pages of memory, entries 64-bit words, reached through the direct
  map. Page tables are allocated by the page allocator, whose state this one extends with the
  kernel's \<open>vmm_t\<close> pointer and the register \<open>cr3\<close>.

  \<open>translate\<close> is the specification: the walk the processor does. \<open>vmm_ok\<close> is the invariant: the
  tables reachable from the root are distinct allocated pages that neither the bitmap nor the
  \<open>vmm_t\<close> shares. Under it, mapping a page changes the translation of that page only.
\<close>

subsection \<open>Definitions\<close>

definition NINE_BITS :: u64 where
  [kernel_defs]: "NINE_BITS = 0x1ff"

definition PTE_PRESENT :: u64 where
  [kernel_defs]: "PTE_PRESENT = push_bit 0 1"

definition PTE_WRITABLE :: u64 where
  [kernel_defs]: "PTE_WRITABLE = push_bit 1 1"

definition PTE_USER :: u64 where
  [kernel_defs]: "PTE_USER = push_bit 2 1"

definition PTE_NO_EXECUTE :: u64 where
  [kernel_defs]: "PTE_NO_EXECUTE = push_bit 63 1"

definition PTE_ADDR :: u64 where
  [kernel_defs]: "PTE_ADDR = 0x000ffffffffff000"

definition PTE_GET_ADDR :: "u64 \<Rightarrow> u64" where
  "PTE_GET_ADDR pte = pte AND PTE_ADDR"

definition PTE_GET_FLAGS :: "u64 \<Rightarrow> u64" where
  "PTE_GET_FLAGS pte = pte AND NOT PTE_ADDR"

record vmm_state = pmm_state +
  vmm_kernel :: u64
  cr3 :: u64

text \<open>The fields of a \<open>vmm_t\<close> in memory.\<close>

definition vmm_lock :: "memory \<Rightarrow> u64 \<Rightarrow> spinlock_t" where
  "vmm_lock m vmm = load32 m vmm"

definition vmm_pml :: "memory \<Rightarrow> u64 \<Rightarrow> u64" where
  "vmm_pml m vmm = load64 m (vmm + 8)"

definition vmm_arena :: "memory \<Rightarrow> u64 \<Rightarrow> u64" where
  "vmm_arena m vmm = load64 m (vmm + 16)"

definition vmm_acquire :: "u64 \<Rightarrow> 'a pmm_state_scheme \<Rightarrow> 'a pmm_state_scheme result" where
  "vmm_acquire vmm s = bindE (spinlock_acquire (vmm_lock (mem s) vmm)) (\<lambda>l.
     Inr (s\<lparr>mem := store32 (mem s) vmm l\<rparr>))"

definition vmm_release :: "u64 \<Rightarrow> 'a pmm_state_scheme \<Rightarrow> 'a pmm_state_scheme" where
  "vmm_release vmm s =
     s\<lparr>mem := store32 (mem s) vmm (spinlock_release (vmm_lock (mem s) vmm))\<rparr>"

text \<open>The element \<open>pte[offset]\<close> of a table.\<close>

definition pte_addr :: "u64 \<Rightarrow> u64 \<Rightarrow> u64" where
  "pte_addr pte offset = pte + 8 * offset"

definition walk_pte ::
  "u64 \<Rightarrow> u64 \<Rightarrow> bool \<Rightarrow> 'a pmm_state_scheme \<Rightarrow> (u64 \<times> 'a pmm_state_scheme) result" where
  "walk_pte pte offset alloc s =
     (let entry = load64 (mem s) (pte_addr pte offset)
      in if entry AND PTE_PRESENT \<noteq> 0 then Inr (PTE_GET_ADDR entry + get_hhdm s, s)
         else if \<not> alloc then Inr (0, s)
         else bindE (pmm_alloc 1 s) (\<lambda>(next_lvl, s).
                let s = s\<lparr>mem := store64 (mem s) (pte_addr pte offset)
                                 (next_lvl OR PTE_PRESENT OR PTE_WRITABLE)\<rparr>
                in Inr (next_lvl + get_hhdm s, s)))"

definition lvl_offset :: "nat \<Rightarrow> u64 \<Rightarrow> u64" where
  "lvl_offset sh virt = drop_bit sh (virt AND push_bit sh NINE_BITS)"

text \<open>
  The descent that \<open>vmm_map_page\<close>, \<open>vmm_unmap_page\<close>, \<open>vmm_change_flag\<close> and \<open>vmm_virt2pte\<close> all
  begin with: three levels, stopping with the null pointer at the first missing one.
\<close>

definition vmm_walk ::
  "u64 \<Rightarrow> u64 \<Rightarrow> bool \<Rightarrow> 'a pmm_state_scheme \<Rightarrow> (u64 \<times> 'a pmm_state_scheme) result" where
  "vmm_walk lvl4 virt alloc s =
     bindE (walk_pte lvl4 (lvl_offset 39 virt) alloc s) (\<lambda>(lvl3, s).
       if lvl3 = 0 then Inr (0, s)
       else bindE (walk_pte lvl3 (lvl_offset 30 virt) alloc s) (\<lambda>(lvl2, s).
         if lvl2 = 0 then Inr (0, s)
         else walk_pte lvl2 (lvl_offset 21 virt) alloc s))"

definition vmm_map_page ::
  "u64 \<Rightarrow> u64 \<Rightarrow> u64 \<Rightarrow> u64 \<Rightarrow> 'a pmm_state_scheme \<Rightarrow> (bool \<times> 'a pmm_state_scheme) result" where
  "vmm_map_page vmm virt physical flags s =
     bindE (vmm_acquire vmm s) (\<lambda>s.
       bindE (vmm_walk (vmm_pml (mem s) vmm) virt True s) (\<lambda>(lvl1, s).
         if lvl1 = 0 then Inr (False, vmm_release vmm s)
         else
           let entry = pte_addr lvl1 (lvl_offset 12 virt)
           in if load64 (mem s) entry AND PTE_PRESENT \<noteq> 0 then Inr (True, vmm_release vmm s)
              else Inr (True, vmm_release vmm (s\<lparr>mem := store64 (mem s) entry (physical OR flags)\<rparr>))))"

definition vmm_acquire_if :: "bool \<Rightarrow> u64 \<Rightarrow> 'a pmm_state_scheme \<Rightarrow> 'a pmm_state_scheme result" where
  "vmm_acquire_if lock vmm s = (if lock then vmm_acquire vmm s else Inr s)"

definition vmm_release_if :: "bool \<Rightarrow> u64 \<Rightarrow> 'a pmm_state_scheme \<Rightarrow> 'a pmm_state_scheme" where
  "vmm_release_if lock vmm s = (if lock then vmm_release vmm s else s)"

definition vmm_unmap_page ::
  "u64 \<Rightarrow> u64 \<Rightarrow> bool \<Rightarrow> 'a pmm_state_scheme \<Rightarrow> (bool \<times> 'a pmm_state_scheme) result" where
  "vmm_unmap_page vmm virt lock s =
     bindE (vmm_acquire_if lock vmm s) (\<lambda>s.
       bindE (vmm_walk (vmm_pml (mem s) vmm) virt False s) (\<lambda>(lvl1, s).
         if lvl1 = 0 then Inr (False, vmm_release_if lock vmm s)
         else
           let entry = pte_addr lvl1 (lvl_offset 12 virt)
           in if load64 (mem s) entry AND PTE_PRESENT = 0 then Inr (False, vmm_release_if lock vmm s)
              else Inr (True, vmm_release_if lock vmm (s\<lparr>mem := store64 (mem s) entry 0\<rparr>))))"

definition vmm_change_flag ::
  "u64 \<Rightarrow> u64 \<Rightarrow> u64 \<Rightarrow> bool \<Rightarrow> 'a pmm_state_scheme \<Rightarrow> (bool \<times> 'a pmm_state_scheme) result" where
  "vmm_change_flag vmm virt flags lock s =
     bindE (vmm_acquire_if lock vmm s) (\<lambda>s.
       bindE (vmm_walk (vmm_pml (mem s) vmm) virt True s) (\<lambda>(lvl1, s).
         if lvl1 = 0 then Inr (False, vmm_release_if lock vmm s)
         else
           let entry = pte_addr lvl1 (lvl_offset 12 virt)
           in if load64 (mem s) entry AND PTE_PRESENT = 0 then Inr (False, vmm_release_if lock vmm s)
              else Inr (True, vmm_release_if lock vmm
                     (s\<lparr>mem := store64 (mem s) entry (PTE_GET_ADDR (load64 (mem s) entry) OR flags)\<rparr>))))"

text \<open>The walk allocates missing levels whatever \<open>alloc\<close> says.\<close>

definition vmm_virt2pte ::
  "u64 \<Rightarrow> u64 \<Rightarrow> bool \<Rightarrow> 'a pmm_state_scheme \<Rightarrow> (u64 \<times> 'a pmm_state_scheme) result" where
  "vmm_virt2pte vmm virt alloc s =
     bindE (vmm_walk (vmm_pml (mem s) vmm) virt True s) (\<lambda>(lvl1, s).
       if lvl1 = 0 then Inr (0, s) else Inr (pte_addr lvl1 (lvl_offset 12 virt), s))"

definition vmm_virt2phys ::
  "u64 \<Rightarrow> u64 \<Rightarrow> bool \<Rightarrow> 'a pmm_state_scheme \<Rightarrow> (u64 \<times> 'a pmm_state_scheme) result" where
  "vmm_virt2phys vmm virt alloc s =
     bindE (vmm_virt2pte vmm virt alloc s) (\<lambda>(pte, s).
       if pte = 0 then Inr (0, s) else Inr (PTE_GET_ADDR (load64 (mem s) pte), s))"

definition vmm_switch_pml :: "u64 \<Rightarrow> 'a vmm_state_scheme \<Rightarrow> 'a vmm_state_scheme" where
  "vmm_switch_pml vmm s = s\<lparr>cr3 := vmm_pml (mem s) vmm - get_hhdm s\<rparr>"

text \<open>
  A fresh \<open>vmm_t\<close> with an empty top-level table: the first statements of \<open>vmm_new\<close> and of
  \<open>vmm_init\<close>.
\<close>

definition vmm_fresh :: "'a pmm_state_scheme \<Rightarrow> (u64 \<times> 'a pmm_state_scheme) result" where
  "vmm_fresh s =
     bindE (pmm_alloc 1 s) (\<lambda>(p, s).
       let vmm = p + get_hhdm s;
           s = s\<lparr>mem := store64 (mem s) (vmm + 16) 0\<rparr>;
           s = s\<lparr>mem := store32 (mem s) vmm SPINLOCK_INIT\<rparr>
       in bindE (pmm_alloc 1 s) (\<lambda>(p, s).
            let s = s\<lparr>mem := store64 (mem s) (vmm + 8) p\<rparr>;
                s = s\<lparr>mem := store64 (mem s) (vmm + 8) (vmm_pml (mem s) vmm + get_hhdm s)\<rparr>
            in Inr (vmm, s)))"

lemma count_up_512: "i < 512 \<Longrightarrow> 512 - unat (i + 1) < 512 - unat i" for i :: u64
  using word_less_nat_alt [of i 512] unat_inc [of i 512] by simp

text \<open>The loop copying entries \<open>i\<close> to 511 of one top-level table to another.\<close>

function copy_pml_loop :: "u64 \<Rightarrow> u64 \<Rightarrow> u64 \<Rightarrow> memory \<Rightarrow> memory" where
  "copy_pml_loop i new_vmm vmm m =
     (if i < 512 then
        copy_pml_loop (i + 1) new_vmm vmm
          (store64 m (pte_addr (vmm_pml m new_vmm) i) (load64 m (pte_addr (vmm_pml m vmm) i)))
      else m)"
  by pat_completeness auto
termination
  by (relation "measure (\<lambda>(i, new_vmm, vmm, m). 512 - unat i)") (auto dest: count_up_512)

definition vmm_new :: "'a vmm_state_scheme \<Rightarrow> (u64 \<times> 'a vmm_state_scheme) result" where
  "vmm_new s =
     bindE (vmm_fresh s) (\<lambda>(new_vmm, s).
       bindE (vmm_map_page (vmm_kernel s) (new_vmm + get_hhdm s) new_vmm (PTE_PRESENT OR PTE_WRITABLE) s)
         (\<lambda>(_, s).
       bindE (vmm_map_page (vmm_kernel s) (vmm_pml (mem s) new_vmm + get_hhdm s) (vmm_pml (mem s) new_vmm)
                (PTE_PRESENT OR PTE_WRITABLE) s)
         (\<lambda>(_, s).
       Inr (new_vmm, s\<lparr>mem := copy_pml_loop 0 new_vmm (vmm_kernel s) (mem s)\<rparr>))))"

text \<open>
  Start-up: the higher half of the kernel's top-level table, then the kernel's sections, then
  4 GiB both at their own address and at the direct map's. The section bounds come from the
  linker script, the bases from the boot loader.
\<close>

record kernel_layout =
  text_start_addr :: u64
  text_end_addr :: u64
  rodata_start_addr :: u64
  rodata_end_addr :: u64
  data_start_addr :: u64
  data_end_addr :: u64
  virtual_base :: u64
  physical_base :: u64

function alloc_higher_half :: "u64 \<Rightarrow> u64 \<Rightarrow> 'a pmm_state_scheme \<Rightarrow> 'a pmm_state_scheme result" where
  "alloc_higher_half i vmm s =
     (if i < 512 then
        bindE (walk_pte (vmm_pml (mem s) vmm) i True s) (\<lambda>(lvl3, s).
          if lvl3 = 0 then Inl (Panic ''Failed to allocate kernel page table'')
          else alloc_higher_half (i + 1) vmm s)
      else Inr s)"
  by pat_completeness auto
termination
  by (relation "measure (\<lambda>(i, vmm, s). 512 - unat i)") (auto dest: count_up_512)

text \<open>The loop \<open>for (uintptr_t i = start; i < stop; i += PAGE_SIZE)\<close> on the state.\<close>

partial_function (option) for_pages ::
  "u64 \<Rightarrow> (u64 \<Rightarrow> 's \<Rightarrow> 's result) \<Rightarrow> u64 \<Rightarrow> 's \<Rightarrow> 's result option" where
  "for_pages stop body i s =
     (if i < stop then
        case body i s of
          Inl e \<Rightarrow> Some (Inl e)
        | Inr t \<Rightarrow> for_pages stop body (i + PAGE_SIZE) t
      else Some (Inr s))"

definition run_pages :: "u64 \<Rightarrow> u64 \<Rightarrow> (u64 \<Rightarrow> 's \<Rightarrow> 's result) \<Rightarrow> 's \<Rightarrow> 's result" where
  "run_pages start stop body s = bindE (of_loop (for_pages stop body start s)) (\<lambda>r. r)"

definition map_or_panic ::
  "string \<Rightarrow> u64 \<Rightarrow> u64 \<Rightarrow> u64 \<Rightarrow> u64 \<Rightarrow> 'a pmm_state_scheme \<Rightarrow> 'a pmm_state_scheme result" where
  "map_or_panic msg vmm virt physical flags s =
     bindE (vmm_map_page vmm virt physical flags s) (\<lambda>(res, s).
       if \<not> res then Inl (Panic msg) else Inr s)"

definition map_section ::
  "string \<Rightarrow> u64 \<Rightarrow> kernel_layout \<Rightarrow> u64 \<Rightarrow> u64 \<Rightarrow> 'a pmm_state_scheme \<Rightarrow> 'a pmm_state_scheme result" where
  "map_section msg vmm kaddr flags i s =
     map_or_panic msg vmm i (i - virtual_base kaddr + physical_base kaddr) flags s"

definition map_low_page :: "u64 \<Rightarrow> u64 \<Rightarrow> 'a pmm_state_scheme \<Rightarrow> 'a pmm_state_scheme result" where
  "map_low_page vmm i s =
     bindE (map_or_panic ''Failed to identity map the start of physical memory'' vmm i i
              (PTE_PRESENT OR PTE_WRITABLE) s) (\<lambda>s.
       map_or_panic ''Failed to map 0x1000 + get_hhdm() to 0x1000'' vmm (i + get_hhdm s) i
         (PTE_PRESENT OR PTE_WRITABLE OR PTE_NO_EXECUTE) s)"

definition vmm_init :: "kernel_layout \<Rightarrow> 'a vmm_state_scheme \<Rightarrow> 'a vmm_state_scheme result" where
  "vmm_init kaddr s =
     bindE (vmm_fresh s) (\<lambda>(vmm, s).
       let s = s\<lparr>vmm_kernel := vmm\<rparr> in
       bindE (alloc_higher_half 256 vmm s) (\<lambda>s.
       bindE (run_pages (ALIGN_DOWN (text_start_addr kaddr) PAGE_SIZE)
                (ALIGN_UP (text_end_addr kaddr) PAGE_SIZE)
                (map_section ''Failed to map kernel text'' vmm kaddr PTE_PRESENT) s) (\<lambda>s.
       bindE (run_pages (ALIGN_DOWN (rodata_start_addr kaddr) PAGE_SIZE)
                (ALIGN_UP (rodata_end_addr kaddr) PAGE_SIZE)
                (map_section ''Failed to map kernel rodata'' vmm kaddr (PTE_PRESENT OR PTE_NO_EXECUTE)) s) (\<lambda>s.
       bindE (run_pages (ALIGN_DOWN (data_start_addr kaddr) PAGE_SIZE)
                (ALIGN_UP (data_end_addr kaddr) PAGE_SIZE)
                (map_section ''Failed to map kernel data'' vmm kaddr
                   (PTE_PRESENT OR PTE_WRITABLE OR PTE_NO_EXECUTE)) s) (\<lambda>s.
       bindE (run_pages 0x1000 0x100000000 (map_low_page vmm) s) (\<lambda>s.
       Inr (vmm_switch_pml vmm s)))))))"

declare copy_pml_loop.simps [simp del] alloc_higher_half.simps [simp del]

subsection \<open>Entries and pages\<close>

lemma PTE_GET_ADDR_flags:
  "a AND PTE_ADDR = a \<Longrightarrow> flags AND PTE_ADDR = 0 \<Longrightarrow> PTE_GET_ADDR (a OR flags) = a"
  by (simp add: PTE_GET_ADDR_def bit.conj_disj_distrib2)

lemma page_addr_masked: "f < 2 ^ 40 \<Longrightarrow> (of_nat f * PAGE_SIZE) AND PTE_ADDR = (of_nat f * PAGE_SIZE :: u64)"
proof -
  assume f: "f < 2 ^ 40"
  have "(of_nat f :: u64) AND mask 40 = take_bit 40 (of_nat f)" by (simp add: take_bit_eq_mask)
  also have "\<dots> = of_nat (take_bit 40 f)"
    by (simp add: take_bit_of_nat)
  also have "take_bit 40 f = f" using f by (simp add: take_bit_nat_eq_self)
  finally have m: "(of_nat f :: u64) AND mask 40 = of_nat f" .
  have e: "of_nat f * PAGE_SIZE = push_bit 12 (of_nat f :: u64)" "PTE_ADDR = push_bit 12 (mask 40)"
    by (simp_all add: push_bit_eq_mult PAGE_SIZE_def PTE_ADDR_def mask_eq_exp_minus_1)
  show ?thesis unfolding e push_bit_and [symmetric] m ..
qed

definition frame_addr :: "'a pmm_state_scheme \<Rightarrow> nat \<Rightarrow> u64" where
  "frame_addr s f = of_nat f * PAGE_SIZE + hhdm_offset s"

lemma frame_addr_inj:
  assumes "pmm_inv s" and "f < unat (bitmap_top_index s)" and "g < unat (bitmap_top_index s)"
    and "frame_addr s f = frame_addr s g"
  shows "f = g"
proof -
  have "4096 * f + unat (hhdm_offset s) = 4096 * g + unat (hhdm_offset s)"
    using assms(4) unat_page_addr(2) [OF assms(1,2)] unat_page_addr(2) [OF assms(1,3)]
    unfolding frame_addr_def by (simp only:)
  then show ?thesis by simp
qed

lemma entry_bytes: "i < 512 \<Longrightarrow> bytes_of (pte_addr t i) 8 \<subseteq> bytes_of t 4096"
proof
  fix x assume i: "i < 512" and "x \<in> bytes_of (pte_addr t i) 8"
  then obtain r where "r < 8" "x = t + 8 * i + of_nat r" by (auto simp: bytes_of_iff pte_addr_def)
  moreover from i have "unat i < 512" by (simp add: word_less_nat_alt)
  then have "8 * unat i + r < 4096" if "r < 8" for r using that by linarith
  moreover have "t + of_nat (8 * unat i + r) = t + 8 * i + of_nat r" by simp
  ultimately have "x = t + of_nat (8 * unat i + r) \<and> 8 * unat i + r < 4096" by (simp only:)
  then show "x \<in> bytes_of t 4096" unfolding bytes_of_iff by blast
qed

lemma entry_bytes_disjoint:
  assumes "i < 512" and "k < 512" and "i \<noteq> k"
  shows "bytes_of (pte_addr t i) 8 \<inter> bytes_of (pte_addr t k) 8 = {}"
proof -
  have ik: "unat i < 512" "unat k < 512" "unat i \<noteq> unat k"
    using assms by (simp_all add: word_less_nat_alt word_unat_eq_iff)
  have False if "r < 8" "q < 8" "t + 8 * i + of_nat r = t + 8 * k + of_nat q" for r q
  proof -
    have "(of_nat (8 * unat i + r) :: u64) = of_nat (8 * unat k + q)"
      using that(3) by (simp add: add.assoc)
    then have "8 * unat i + r = 8 * unat k + q"
      using ik that by (subst (asm) of_nat_eq_small) simp_all
    then show False using ik(3) that(1,2) by arith
  qed
  then show ?thesis by (auto simp: bytes_of_iff pte_addr_def)
qed

lemma lvl_offset_take_bit: "lvl_offset sh virt = take_bit 9 (drop_bit sh virt)"
proof -
  have n: "NINE_BITS = mask 9" by (simp add: NINE_BITS_def mask_eq_exp_minus_1)
  show ?thesis
    unfolding lvl_offset_def n
    by (rule bit_word_eqI) (auto simp: bit_simps dest: bit_imp_le_length)
qed

lemma lvl_offset_bound: "lvl_offset sh virt < 512"
  by (simp add: lvl_offset_take_bit take_bit_eq_mod word_less_nat_alt unat_mod)

subsection \<open>The tree of tables\<close>

text \<open>
  The table an entry leads to, and the table reached by a list of indices: the processor's walk.
  \<open>leaf_entry\<close> is the last-level entry, 0 when a level is missing.
\<close>

definition next_table :: "memory \<Rightarrow> u64 \<Rightarrow> u64 \<Rightarrow> u64 \<Rightarrow> u64 option" where
  "next_table m H t i = (let e = load64 m (pte_addr t i)
     in if e AND PTE_PRESENT \<noteq> 0 then Some (PTE_GET_ADDR e + H) else None)"

primrec table_at :: "memory \<Rightarrow> u64 \<Rightarrow> u64 \<Rightarrow> u64 list \<Rightarrow> u64 option" where
  "table_at m H t [] = Some t"
| "table_at m H t (i # is) = (case next_table m H t i of None \<Rightarrow> None | Some u \<Rightarrow> table_at m H u is)"

definition leaf_entry :: "memory \<Rightarrow> u64 \<Rightarrow> u64 \<Rightarrow> u64 list \<Rightarrow> u64 \<Rightarrow> u64" where
  "leaf_entry m H t is k = (case table_at m H t is of None \<Rightarrow> 0 | Some u \<Rightarrow> load64 m (pte_addr u k))"

definition table_paths :: "u64 list set" where
  "table_paths = {is. length is \<le> 3 \<and> (\<forall>i \<in> set is. i < 512)}"

lemma table_at_snoc:
  "table_at m H t (is @ [i]) = Option.bind (table_at m H t is) (\<lambda>u. next_table m H u i)"
  by (induction "is" arbitrary: t) (auto split: option.splits)

lemma table_paths_snoc: "is @ [i] \<in> table_paths \<Longrightarrow> is \<in> table_paths \<and> i < 512 \<and> length is < 3"
  by (auto simp: table_paths_def)

text \<open>What does not change the entries of inner tables does not change the tree.\<close>

lemma table_at_same:
  assumes "\<And>is i t. is @ [i] \<in> table_paths \<Longrightarrow> table_at m H r is = Some t \<Longrightarrow>
    next_table m' H t i = next_table m H t i"
  shows "is \<in> table_paths \<Longrightarrow> table_at m' H r is = table_at m H r is"
proof (induction "is" rule: rev_induct)
  case (snoc i "is")
  then have "table_at m' H r is = table_at m H r is" by (simp add: table_paths_snoc)
  then show ?case
    using assms [OF snoc.prems] by (cases "table_at m H r is") (simp_all add: table_at_snoc)
qed simp

text \<open>A new table, all of whose entries are absent, hung into an empty slot adds one path.\<close>

lemma table_at_insert:
  assumes path: "is @ [i] \<in> table_paths" and at: "table_at m H r is = Some T"
    and absent: "next_table m H T i = None" and link: "next_table m' H T i = Some N"
    and new: "\<And>k. k < 512 \<Longrightarrow> next_table m' H N k = None"
    and same: "\<And>js k t. js @ [k] \<in> table_paths \<Longrightarrow> table_at m H r js = Some t \<Longrightarrow>
      js @ [k] \<noteq> is @ [i] \<Longrightarrow> next_table m' H t k = next_table m H t k"
  shows "js \<in> table_paths \<Longrightarrow> table_at m' H r js = (if js = is @ [i] then Some N else table_at m H r js)"
proof (induction js rule: rev_induct)
  case Nil
  then show ?case by simp
next
  case (snoc k js)
  note js = table_paths_snoc [OF snoc.prems]
  have IH: "table_at m' H r js = (if js = is @ [i] then Some N else table_at m H r js)"
    using snoc.IH js by blast
  show ?case
  proof (cases "js = is @ [i]")
    case True
    have "table_at m' H r js = Some N" using IH True by simp
    then have "table_at m' H r (js @ [k]) = None" using new js by (simp add: table_at_snoc)
    moreover have "table_at m H r js = None" unfolding True using at absent by (simp add: table_at_snoc)
    then have "table_at m H r (js @ [k]) = None" by (simp add: table_at_snoc)
    ultimately show ?thesis using True by simp
  next
    case False
    show ?thesis
    proof (cases "js @ [k] = is @ [i]")
      case True
      then show ?thesis using IH False at link by (simp add: table_at_snoc)
    next
      case other: False
      then show ?thesis
        using IH False same [OF snoc.prems] by (cases "table_at m H r js") (auto simp: table_at_snoc)
    qed
  qed
qed

subsection \<open>The invariant\<close>

definition own_page :: "'a pmm_state_scheme \<Rightarrow> nat \<Rightarrow> bool" where
  "own_page s f \<longleftrightarrow> 0 < f \<and> f < unat (bitmap_top_index s) \<and> page_used s f \<and>
     page_bytes s f \<inter> bitmap_area s = {}"

definition is_table :: "'a pmm_state_scheme \<Rightarrow> u64 \<Rightarrow> nat \<Rightarrow> bool" where
  "is_table s pml f \<longleftrightarrow>
     (\<exists>is \<in> table_paths. table_at (mem s) (hhdm_offset s) pml is = Some (frame_addr s f))"

definition pt_inv :: "'a pmm_state_scheme \<Rightarrow> u64 \<Rightarrow> bool" where
  "pt_inv s pml \<longleftrightarrow>
     (\<forall>is \<in> table_paths. \<forall>t. table_at (mem s) (hhdm_offset s) pml is = Some t \<longrightarrow>
        (\<exists>f. own_page s f \<and> t = frame_addr s f)) \<and>
     (\<forall>is \<in> table_paths. \<forall>js \<in> table_paths. \<forall>t. table_at (mem s) (hhdm_offset s) pml is = Some t \<longrightarrow>
        table_at (mem s) (hhdm_offset s) pml js = Some t \<longrightarrow> is = js)"

lemma pt_invD:
  assumes "pt_inv s pml" and "is \<in> table_paths" and "table_at (mem s) (hhdm_offset s) pml is = Some t"
  obtains f where "own_page s f" and "t = frame_addr s f" and "is_table s pml f"
proof -
  obtain f where "own_page s f" and "t = frame_addr s f" using assms unfolding pt_inv_def by blast
  then show thesis using that assms(2,3) unfolding is_table_def by blast
qed

lemma pt_inv_inj:
  "pt_inv s pml \<Longrightarrow> is \<in> table_paths \<Longrightarrow> js \<in> table_paths \<Longrightarrow>
   table_at (mem s) (hhdm_offset s) pml is = Some t \<Longrightarrow> table_at (mem s) (hhdm_offset s) pml js = Some t \<Longrightarrow>
   is = js"
  by (auto simp: pt_inv_def)

text \<open>A change of memory that spares the bitmap and the tables.\<close>

lemma own_page_update:
  assumes "\<And>x. x \<in> bitmap_area s \<Longrightarrow> m x = mem s x"
  shows "own_page (s\<lparr>mem := m\<rparr>) f = own_page s f"
  using page_used_clear [OF assms, of f]
  by (auto simp: own_page_def page_bytes_def bitmap_area_def)

lemma pmm_inv_update:
  assumes "pmm_inv s" and "\<And>x. x \<in> bitmap_area s \<Longrightarrow> m x = mem s x" and "0 < unat (bitmap_top_index s)"
  shows "pmm_inv (s\<lparr>mem := m\<rparr>)"
  by (rule pmm_inv_mono [OF assms(1)])
    (use assms pmm_invD(1,2) [OF assms(1)] page_used_clear [OF assms(2)] in \<open>auto simp: same_geometry_def\<close>)

lemma entry_in_page: "k < 512 \<Longrightarrow> x \<in> bytes_of (pte_addr (frame_addr s f) k) 8 \<Longrightarrow> x \<in> page_bytes s f"
  using entry_bytes [of k "frame_addr s f"] by (auto simp: page_bytes_def frame_addr_def)

lemma pt_inv_same_tree:
  assumes "pt_inv s pml" and "\<And>x. x \<in> bitmap_area s \<Longrightarrow> m x = mem s x"
    and "\<And>is. is \<in> table_paths \<Longrightarrow> table_at m (hhdm_offset s) pml is = table_at (mem s) (hhdm_offset s) pml is"
  shows "pt_inv (s\<lparr>mem := m\<rparr>) pml"
proof -
  have "own_page (s\<lparr>mem := m\<rparr>) f = own_page s f" for f by (rule own_page_update) (rule assms(2))
  then show ?thesis using assms(1,3) by (simp add: pt_inv_def frame_addr_def)
qed

lemma tables_untouched:
  assumes "pt_inv s pml" and "\<And>f x. is_table s pml f \<Longrightarrow> x \<in> page_bytes s f \<Longrightarrow> m x = mem s x"
    and "is \<in> table_paths"
  shows "table_at m (hhdm_offset s) pml is = table_at (mem s) (hhdm_offset s) pml is"
    and "k < 512 \<Longrightarrow> leaf_entry m (hhdm_offset s) pml is k = leaf_entry (mem s) (hhdm_offset s) pml is k"
proof -
  have load: "load64 m (pte_addr t k) = load64 (mem s) (pte_addr t k)"
    if js: "js \<in> table_paths" "table_at (mem s) (hhdm_offset s) pml js = Some t" and k: "k < 512" for js t k
  proof -
    obtain f where "t = frame_addr s f" "is_table s pml f" using pt_invD [OF assms(1) js] by blast
    then show ?thesis
      using assms(2) [of f] entry_in_page [OF k, of _ s f] by (intro load64_cong) blast
  qed
  show at: "table_at m (hhdm_offset s) pml is = table_at (mem s) (hhdm_offset s) pml is"
    by (rule table_at_same [OF _ assms(3)]) (metis load next_table_def table_paths_snoc)
  assume "k < 512"
  then show "leaf_entry m (hhdm_offset s) pml is k = leaf_entry (mem s) (hhdm_offset s) pml is k"
    using load [OF assms(3)] by (auto simp: leaf_entry_def at split: option.split)
qed

subsection \<open>Adding a level\<close>

text \<open>
  What a walk that may add tables leaves: the allocator's and the tree's invariants, every page
  it did not allocate still owned, every table where it was, every last-level entry as it was,
  and no byte of an owned page outside the tree changed.
\<close>

definition pt_ext :: "'a pmm_state_scheme \<Rightarrow> u64 \<Rightarrow> 'a pmm_state_scheme \<Rightarrow> bool" where
  "pt_ext s pml t \<longleftrightarrow>
     pmm_inv t \<and> pt_inv t pml \<and> same_geometry s t \<and> (\<exists>m p. t = s\<lparr>bitmap_prev_index := p, mem := m\<rparr>) \<and>
     (\<forall>f. own_page s f \<longrightarrow> own_page t f) \<and>
     (\<forall>is \<in> table_paths. \<forall>T. table_at (mem s) (hhdm_offset s) pml is = Some T \<longrightarrow>
        table_at (mem t) (hhdm_offset s) pml is = Some T) \<and>
     (\<forall>is \<in> table_paths. length is = 3 \<longrightarrow> (\<forall>k < 512.
        leaf_entry (mem t) (hhdm_offset s) pml is k = leaf_entry (mem s) (hhdm_offset s) pml is k)) \<and>
     (\<forall>f. own_page s f \<and> \<not> is_table s pml f \<longrightarrow>
        \<not> is_table t pml f \<and> (\<forall>x \<in> page_bytes s f. mem t x = mem s x))"

lemma pt_ext_refl: "pmm_inv s \<Longrightarrow> pt_inv s pml \<Longrightarrow> pt_ext s pml s"
  unfolding pt_ext_def same_geometry_def
  by (auto intro!: exI [of _ "mem s"] exI [of _ "bitmap_prev_index s"])

lemma pt_extD:
  assumes "pt_ext s pml t"
  shows "pmm_inv t" and "pt_inv t pml" and "same_geometry s t"
    and "\<exists>m p. t = s\<lparr>bitmap_prev_index := p, mem := m\<rparr>"
    and "own_page s f \<Longrightarrow> own_page t f"
    and "is \<in> table_paths \<Longrightarrow> table_at (mem s) (hhdm_offset s) pml is = Some T \<Longrightarrow>
      table_at (mem t) (hhdm_offset s) pml is = Some T"
    and "is \<in> table_paths \<Longrightarrow> length is = 3 \<Longrightarrow> k < 512 \<Longrightarrow>
      leaf_entry (mem t) (hhdm_offset s) pml is k = leaf_entry (mem s) (hhdm_offset s) pml is k"
    and "own_page s f \<Longrightarrow> \<not> is_table s pml f \<Longrightarrow> \<not> is_table t pml f"
    and "own_page s f \<Longrightarrow> \<not> is_table s pml f \<Longrightarrow> x \<in> page_bytes s f \<Longrightarrow> mem t x = mem s x"
  using assms unfolding pt_ext_def by blast+

lemma pt_ext_hhdm: "pt_ext s pml t \<Longrightarrow> hhdm_offset t = hhdm_offset s"
  by (auto dest: pt_extD(3) simp: same_geometry_def)

lemma pt_ext_trans:
  assumes "pt_ext s pml t" and "pt_ext t pml u"
  shows "pt_ext s pml u"
proof -
  note st = pt_extD [OF assms(1)] and tu = pt_extD [OF assms(2), unfolded pt_ext_hhdm [OF assms(1)]]
  have pages: "page_bytes t = page_bytes s" by (rule same_geometry_areas(1) [OF st(3)])
  obtain m p where t: "t = s\<lparr>bitmap_prev_index := p, mem := m\<rparr>" using st(4) by blast
  obtain m' p' where u: "u = t\<lparr>bitmap_prev_index := p', mem := m'\<rparr>" using tu(4) by blast
  show ?thesis
    unfolding pt_ext_def
  proof (intro conjI allI impI ballI)
    show "same_geometry s u" using st(3) tu(3) by (simp add: same_geometry_def)
    show "\<exists>m p. u = s\<lparr>bitmap_prev_index := p, mem := m\<rparr>"
      by (intro exI [of _ m'] exI [of _ p']) (simp add: t u)
  next
    fix f x assume f: "own_page s f \<and> \<not> is_table s pml f"
    show "\<not> is_table u pml f" using f st(5,8) tu(8) by simp
    assume "x \<in> page_bytes s f"
    then show "mem u x = mem s x" using f st(5,8,9) tu(9) pages by metis
  qed (simp_all add: st tu)
qed

lemma own_page_alloc:
  assumes "alloc_post s i n t" and "own_page s f"
  shows "own_page t f" and "f < i \<or> i + n \<le> f" and "x \<in> page_bytes s f \<Longrightarrow> pmm_inv s \<Longrightarrow> mem t x = mem s x"
proof -
  have geo: "same_geometry s t" and run: "free_run (page_used s) i n" "i + n \<le> unat (bitmap_top_index s)"
    using assms(1) by (simp_all add: alloc_post_def)
  show "own_page t f"
    using assms same_geometry_areas [OF geo] geo
    by (simp add: alloc_post_def own_page_def same_geometry_def)
  show ne: "f < i \<or> i + n \<le> f"
  proof (rule ccontr)
    assume "\<not> (f < i \<or> i + n \<le> f)"
    then have "f - i < n" "i + (f - i) = f" by linarith+
    then have "\<not> page_used s f" using run(1) unfolding free_run_def by metis
    then show False using assms(2) by (simp add: own_page_def)
  qed
  assume x: "x \<in> page_bytes s f" and inv: "pmm_inv s"
  have "x \<notin> page_bytes s g" if "i \<le> g" "g < i + n" for g
    using page_bytes_disjoint [OF inv, of f g] that ne run(2) assms(2) x by (auto simp: own_page_def)
  then show "mem t x = mem s x"
    using assms x unfolding alloc_post_def own_page_def by blast
qed

text \<open>The state after a table was allocated in frame \<open>g\<close> and linked from entry \<open>i\<close> of \<open>T\<close>.\<close>

definition new_level :: "'a pmm_state_scheme \<Rightarrow> u64 \<Rightarrow> u64 \<Rightarrow> nat \<Rightarrow> 'a pmm_state_scheme \<Rightarrow> bool" where
  "new_level s T i g t \<longleftrightarrow> (\<exists>s1. alloc_post s g 1 s1 \<and>
     t = s1\<lparr>mem := store64 (mem s1) (pte_addr T i) (of_nat g * PAGE_SIZE OR PTE_PRESENT OR PTE_WRITABLE)\<rparr>)"

lemma new_level_facts:
  assumes inv: "pmm_inv s" and T: "own_page s fT" and i: "i < 512" and nl: "new_level s (frame_addr s fT) i g t"
  shows "pmm_inv t" and "same_geometry s t" and "\<exists>m p. t = s\<lparr>bitmap_prev_index := p, mem := m\<rparr>"
    and "own_page s f \<Longrightarrow> own_page t f" and "own_page t g" and "own_page s f \<Longrightarrow> f \<noteq> g"
    and "own_page s f \<Longrightarrow> x \<in> page_bytes s f \<Longrightarrow> x \<notin> bytes_of (pte_addr (frame_addr s fT) i) 8 \<Longrightarrow>
      mem t x = mem s x"
    and "x \<in> page_bytes s g \<Longrightarrow> mem t x = 0"
    and "load64 (mem t) (pte_addr (frame_addr s fT) i) = of_nat g * PAGE_SIZE OR PTE_PRESENT OR PTE_WRITABLE"
proof -
  let ?a = "pte_addr (frame_addr s fT) i"
  obtain s1 where post: "alloc_post s g 1 s1"
    and t: "t = s1\<lparr>mem := store64 (mem s1) ?a (of_nat g * PAGE_SIZE OR PTE_PRESENT OR PTE_WRITABLE)\<rparr>"
    using nl unfolding new_level_def by blast
  have geo: "same_geometry s s1" and inv1: "pmm_inv s1" and g: "0 < g" "g < unat (bitmap_top_index s)"
    and free: "\<not> page_used s g" and used1: "page_used s1 g"
    using post by (auto simp: alloc_post_def free_run_def)
  note areas = same_geometry_areas [OF geo]
  have in_T: "x \<in> page_bytes s fT" if "x \<in> bytes_of ?a 8" for x using entry_in_page [OF i that] .
  have spare: "store64 (mem s1) ?a v x = mem s1 x" if "x \<notin> bytes_of ?a 8" for v x
    using that by (rule store64_other)
  have bitmap: "store64 (mem s1) ?a v x = mem s1 x" if "x \<in> bitmap_area s1" for v x
    by (rule spare) (use that in_T T areas(2) in \<open>auto simp: own_page_def\<close>)
  show "same_geometry s t" using geo by (simp add: t same_geometry_def)
  obtain m p where "s1 = s\<lparr>bitmap_prev_index := p, mem := m\<rparr>" using post unfolding alloc_post_def by blast
  then show "\<exists>m p. t = s\<lparr>bitmap_prev_index := p, mem := m\<rparr>" unfolding t by (intro exI) simp
  have "0 < unat (bitmap_top_index s1)" using g geo by (simp add: same_geometry_def)
  then show "pmm_inv t" unfolding t by (intro pmm_inv_update inv1 bitmap)
  have own: "own_page t h = own_page s1 h" for h unfolding t by (intro own_page_update bitmap)
  have "page_bytes s g \<inter> bitmap_area s = {}" using pmm_invD(5) [OF inv g(2) free] .
  then show "own_page t g"
    unfolding own using g used1 areas geo by (simp add: own_page_def same_geometry_def)
  show "own_page t f" if "own_page s f" unfolding own using own_page_alloc(1) [OF post that] .
  show ne: "f \<noteq> g" if "own_page s f" for f using that free by (auto simp: own_page_def)
  show "mem t x = mem s x" if "own_page s f" "x \<in> page_bytes s f" "x \<notin> bytes_of ?a 8"
    using own_page_alloc(3) [OF post that(1,2) inv] spare [OF that(3)] by (simp add: t)
  show "mem t x = 0" if x: "x \<in> page_bytes s g"
  proof -
    have "page_bytes s fT \<inter> page_bytes s g = {}"
      by (rule page_bytes_disjoint [OF inv]) (use T g ne in \<open>auto simp: own_page_def\<close>)
    then have "x \<notin> bytes_of ?a 8" using x in_T by blast
    moreover have "mem s1 x = 0" using post x unfolding alloc_post_def by (metis le_refl less_add_one)
    ultimately show ?thesis using spare by (simp add: t)
  qed
  show "load64 (mem t) ?a = of_nat g * PAGE_SIZE OR PTE_PRESENT OR PTE_WRITABLE" by (simp add: t)
qed

lemma page_entry_disjoint:
  assumes "pmm_inv s" and "own_page s f" and "own_page s g" and "i < 512" and "k < 512" and "(f, i) \<noteq> (g, k)"
    and "x \<in> bytes_of (pte_addr (frame_addr s g) k) 8"
  shows "x \<notin> bytes_of (pte_addr (frame_addr s f) i) 8"
proof (cases "f = g")
  case True
  then show ?thesis using entry_bytes_disjoint [of i k "frame_addr s g"] assms(4-7) by auto
next
  case False
  then have "page_bytes s f \<inter> page_bytes s g = {}"
    using assms(1-3) by (intro page_bytes_disjoint) (auto simp: own_page_def)
  then show ?thesis using entry_in_page [OF assms(4)] entry_in_page [OF assms(5,7)] by blast
qed

lemma present_entry [simp]: "(a OR PTE_PRESENT OR PTE_WRITABLE) AND PTE_PRESENT \<noteq> 0"
proof -
  have "bit ((a OR PTE_PRESENT OR PTE_WRITABLE) AND PTE_PRESENT) 0"
    by (simp add: bit_simps PTE_PRESENT_def)
  then show ?thesis by (metis bit_0_eq bot_apply bot_bool_def)
qed

lemma new_level_load:
  assumes inv: "pmm_inv s" and pt: "pt_inv s pml" and path: "is \<in> table_paths" "i < 512"
    and at: "table_at (mem s) (hhdm_offset s) pml is = Some (frame_addr s fT)"
    and T: "own_page s fT" and nl: "new_level s (frame_addr s fT) i g t"
    and js: "js \<in> table_paths" "table_at (mem s) (hhdm_offset s) pml js = Some u"
    and k: "k < 512" and ne: "(js, k) \<noteq> (is, i)"
  shows "load64 (mem t) (pte_addr u k) = load64 (mem s) (pte_addr u k)"
proof -
  obtain f where f: "own_page s f" "u = frame_addr s f" using pt_invD [OF pt js] by blast
  have "(fT, i) \<noteq> (f, k)" using ne pt_inv_inj [OF pt path(1) js(1) at] js(2) f(2) by auto
  then have "mem t x = mem s x" if "x \<in> bytes_of (pte_addr u k) 8" for x
    using that page_entry_disjoint [OF inv T f(1) path(2) k] entry_in_page [OF k]
      new_level_facts(7) [OF inv T path(2) nl f(1)] unfolding f(2) by blast
  then show ?thesis by (rule load64_cong)
qed

lemma new_level_tree:
  assumes inv: "pmm_inv s" and pt: "pt_inv s pml" and path: "is @ [i] \<in> table_paths"
    and at: "table_at (mem s) (hhdm_offset s) pml is = Some (frame_addr s fT)"
    and T: "own_page s fT" and nl: "new_level s (frame_addr s fT) i g t"
    and absent: "next_table (mem s) (hhdm_offset s) (frame_addr s fT) i = None"
    and js: "js \<in> table_paths"
  shows "table_at (mem t) (hhdm_offset s) pml js =
    (if js = is @ [i] then Some (frame_addr s g) else table_at (mem s) (hhdm_offset s) pml js)"
proof (rule table_at_insert [OF path at absent _ _ _ js])
  have i: "i < 512" and p: "is \<in> table_paths" using table_paths_snoc [OF path] by simp_all
  note facts = new_level_facts [OF inv T i nl]
  have "g < 2 ^ 40" using facts(2,5) pmm_invD(3) [OF inv] by (simp add: own_page_def same_geometry_def)
  then have "PTE_GET_ADDR (of_nat g * PAGE_SIZE OR (PTE_PRESENT OR PTE_WRITABLE)) = of_nat g * PAGE_SIZE"
    by (intro PTE_GET_ADDR_flags page_addr_masked) (simp_all add: PTE_ADDR_def PTE_PRESENT_def PTE_WRITABLE_def)
  then show "next_table (mem t) (hhdm_offset s) (frame_addr s fT) i = Some (frame_addr s g)"
    unfolding next_table_def facts(9) Let_def by (simp add: frame_addr_def or.assoc)
  fix k :: u64 assume "k < 512"
  then have "load64 (mem t) (pte_addr (frame_addr s g) k) = 0"
    by (intro load64_zero) (rule facts(8), rule entry_in_page)
  then show "next_table (mem t) (hhdm_offset s) (frame_addr s g) k = None"
    by (simp add: next_table_def)
next
  fix ks k u assume k: "ks @ [k] \<in> table_paths" "ks @ [k] \<noteq> is @ [i]"
    and u: "table_at (mem s) (hhdm_offset s) pml ks = Some u"
  have "load64 (mem t) (pte_addr u k) = load64 (mem s) (pte_addr u k)"
    using new_level_load [OF inv pt _ _ at T nl _ u] table_paths_snoc [OF path] table_paths_snoc [OF k(1)] k(2)
    by auto
  then show "next_table (mem t) (hhdm_offset s) u k = next_table (mem s) (hhdm_offset s) u k"
    by (simp add: next_table_def)
qed

lemma new_level_ext:
  assumes inv: "pmm_inv s" and pt: "pt_inv s pml" and path: "is @ [i] \<in> table_paths"
    and at: "table_at (mem s) (hhdm_offset s) pml is = Some (frame_addr s fT)"
    and T: "own_page s fT" and nl: "new_level s (frame_addr s fT) i g t"
    and absent: "next_table (mem s) (hhdm_offset s) (frame_addr s fT) i = None"
  shows "pt_ext s pml t"
proof -
  have i: "i < 512" and p: "is \<in> table_paths" "length is < 3" using table_paths_snoc [OF path] by simp_all
  note facts = new_level_facts [OF inv T i nl] and tree = new_level_tree [OF inv pt path at T nl absent]
  have H: "hhdm_offset t = hhdm_offset s" and fr: "frame_addr t = frame_addr s"
    using facts(2) by (simp_all add: same_geometry_def frame_addr_def fun_eq_iff)
  have none: "table_at (mem s) (hhdm_offset s) pml (is @ [i]) = None"
    using at absent by (simp add: table_at_snoc)
  have fresh: "table_at (mem s) (hhdm_offset s) pml js \<noteq> Some (frame_addr s g)" if js: "js \<in> table_paths" for js
  proof
    assume "table_at (mem s) (hhdm_offset s) pml js = Some (frame_addr s g)"
    then obtain f where f: "own_page s f" "frame_addr s g = frame_addr s f" using pt_invD [OF pt js] by blast
    moreover have "g < unat (bitmap_top_index s)"
      using facts(5,2) by (simp add: own_page_def same_geometry_def)
    ultimately have "g = f" using frame_addr_inj [OF inv] by (simp add: own_page_def)
    then show False using facts(6) f(1) by blast
  qed
  show ?thesis
    unfolding pt_ext_def
  proof (intro conjI allI impI ballI)
    show "pt_inv t pml"
      unfolding pt_inv_def H fr
    proof (intro conjI ballI allI impI)
      fix js u assume "js \<in> table_paths" "table_at (mem t) (hhdm_offset s) pml js = Some u"
      then show "\<exists>f. own_page t f \<and> u = frame_addr s f"
        using tree facts(4,5) pt_invD [OF pt] by (metis option.inject)
    next
      fix js ks u assume "js \<in> table_paths" "ks \<in> table_paths"
        "table_at (mem t) (hhdm_offset s) pml js = Some u" "table_at (mem t) (hhdm_offset s) pml ks = Some u"
      then show "js = ks" using tree fresh pt_inv_inj [OF pt] by (metis option.inject)
    qed
  next
    fix js T' assume "js \<in> table_paths" "table_at (mem s) (hhdm_offset s) pml js = Some T'"
    then show "table_at (mem t) (hhdm_offset s) pml js = Some T'" using tree none by auto
  next
    fix js and k :: u64 assume js: "js \<in> table_paths" "length js = 3" and k: "k < 512"
    show "leaf_entry (mem t) (hhdm_offset s) pml js k = leaf_entry (mem s) (hhdm_offset s) pml js k"
    proof (cases "js = is @ [i]")
      case True
      have "load64 (mem t) (pte_addr (frame_addr s g) k) = 0"
        using k by (intro load64_zero) (rule facts(8), rule entry_in_page)
      then show ?thesis using True none tree [OF path] by (simp add: leaf_entry_def)
    next
      case False
      have "js \<noteq> is" using js(2) p(2) by auto
      then show ?thesis
        using False tree [OF js(1)] new_level_load [OF inv pt p(1) i at T nl js(1) _ k]
        by (auto simp: leaf_entry_def split: option.split)
    qed
  next
    fix f x assume f: "own_page s f \<and> \<not> is_table s pml f"
    have "frame_addr s g \<noteq> frame_addr s f"
      using f facts(5,2,6) frame_addr_inj [OF inv, of g f] by (auto simp: own_page_def same_geometry_def)
    then show "\<not> is_table t pml f" using f tree by (auto simp: is_table_def H fr)
    have "fT \<noteq> f" using f p(1) at by (auto simp: is_table_def)
    then have "page_bytes s fT \<inter> page_bytes s f = {}"
      using f T by (intro page_bytes_disjoint [OF inv]) (auto simp: own_page_def)
    moreover assume "x \<in> page_bytes s f"
    ultimately show "mem t x = mem s x" using facts(7) f entry_in_page [OF i] by blast
  qed (use facts in blast)+
qed

text \<open>One level of the walk, allocating it when it is missing.\<close>

lemma walk_pte_ext:
  assumes inv: "pmm_inv s" and pt: "pt_inv s pml" and path: "is @ [i] \<in> table_paths"
    and at: "table_at (mem s) (hhdm_offset s) pml is = Some T" and run: "walk_pte T i True s = Inr (N, t)"
  shows "pt_ext s pml t" and "table_at (mem t) (hhdm_offset s) pml (is @ [i]) = Some N"
proof -
  have p: "is \<in> table_paths" using table_paths_snoc [OF path] by simp
  obtain fT where T: "own_page s fT" "T = frame_addr s fT" using pt_invD [OF pt p at] by blast
  have "pt_ext s pml t \<and> table_at (mem t) (hhdm_offset s) pml (is @ [i]) = Some N"
  proof (cases "next_table (mem s) (hhdm_offset s) T i")
    case (Some N')
    then have "t = s \<and> N = N'"
      using run by (auto simp: walk_pte_def next_table_def get_hhdm_def Let_def split: if_splits)
    then show ?thesis using pt_ext_refl [OF inv pt] at Some by (simp add: table_at_snoc)
  next
    case None
    then obtain q s1 where al: "pmm_alloc 1 s = Inr (q, s1)" and N: "N = q + hhdm_offset s1"
      and t: "t = s1\<lparr>mem := store64 (mem s1) (pte_addr T i) (q OR PTE_PRESENT OR PTE_WRITABLE)\<rparr>"
      using run by (auto simp: walk_pte_def next_table_def get_hhdm_def Let_def bindE_eq_Inr split: if_splits)
    obtain g where g: "q = of_nat g * PAGE_SIZE" "alloc_post s g 1 s1"
      using pmm_alloc_Inr [OF inv _ al] by auto
    then have nl: "new_level s (frame_addr s fT) i g t" using t T by (auto simp: new_level_def)
    moreover have "N = frame_addr s g" using g N by (simp add: alloc_post_def same_geometry_def frame_addr_def)
    ultimately show ?thesis
      using new_level_ext [OF inv pt path _ T(1)] new_level_tree [OF inv pt path _ T(1) _ _ path] at None T(2)
      by simp
  qed
  then show "pt_ext s pml t" and "table_at (mem t) (hhdm_offset s) pml (is @ [i]) = Some N" by simp_all
qed

subsection \<open>The whole walk\<close>

definition vpath :: "u64 \<Rightarrow> u64 list" where
  "vpath virt = [lvl_offset 39 virt, lvl_offset 30 virt, lvl_offset 21 virt]"

lemma vpath_in_paths [simp]: "vpath virt \<in> table_paths" "length (vpath virt) = 3"
  by (simp_all add: vpath_def table_paths_def lvl_offset_bound)

lemma frame_addr_nonzero: "pmm_inv s \<Longrightarrow> own_page s f \<Longrightarrow> frame_addr s f \<noteq> 0"
proof
  assume "pmm_inv s" "own_page s f" "frame_addr s f = 0"
  then show False
    using unat_page_addr(2) [of s f] by (auto simp: own_page_def frame_addr_def)
qed

lemma pte_nonzero:
  assumes "pmm_inv s" and "own_page s f" and "i < 512"
  shows "pte_addr (frame_addr s f) i \<noteq> 0"
proof -
  have f: "f < unat (bitmap_top_index s)" "0 < f" using assms(2) by (simp_all add: own_page_def)
  have i: "unat i < 512" using assms(3) by (simp add: word_less_nat_alt)
  then have "unat (8 * i) = 8 * unat i" by (subst unat_mult_small) simp_all
  moreover have "unat (frame_addr s f) = 4096 * f + unat (hhdm_offset s)"
    using unat_page_addr(2) [OF assms(1) f(1)] by (simp add: frame_addr_def)
  ultimately have "unat (pte_addr (frame_addr s f) i) = 4096 * f + unat (hhdm_offset s) + 8 * unat i"
    using pmm_invD(4) [OF assms(1)] f i unfolding pte_addr_def by (subst unat_add_small) simp_all
  then show ?thesis using f(2) by auto
qed

lemma table_nonzero:
  "pmm_inv s \<Longrightarrow> pt_inv s pml \<Longrightarrow> is \<in> table_paths \<Longrightarrow>
   table_at (mem s) (hhdm_offset s) pml is = Some T \<Longrightarrow> T \<noteq> 0"
  by (metis frame_addr_nonzero pt_invD)

lemma walk_pte_step:
  assumes "pt_ext s pml u" and "is @ [i] \<in> table_paths"
    and "table_at (mem u) (hhdm_offset s) pml is = Some T" and "walk_pte T i True u = Inr (N, t)"
  shows "pt_ext s pml t" and "table_at (mem t) (hhdm_offset s) pml (is @ [i]) = Some N" and "N \<noteq> 0"
proof -
  note H = pt_ext_hhdm [OF assms(1)]
  note step = walk_pte_ext [OF pt_extD(1,2) [OF assms(1)] assms(2) _ assms(4), unfolded H, OF assms(3)]
  show ext: "pt_ext s pml t" using pt_ext_trans [OF assms(1) step(1)] .
  show at: "table_at (mem t) (hhdm_offset s) pml (is @ [i]) = Some N" by (rule step(2))
  show "N \<noteq> 0"
    by (rule table_nonzero [OF pt_extD(1,2) [OF ext] assms(2)]) (simp add: pt_ext_hhdm [OF ext] at)
qed

lemma vmm_walk_ext:
  assumes "pmm_inv s" and "pt_inv s pml" and "vmm_walk pml virt True s = Inr (l, t)"
  shows "pt_ext s pml t" and "table_at (mem t) (hhdm_offset s) pml (vpath virt) = Some l" and "l \<noteq> 0"
proof -
  have paths: "[] @ [lvl_offset 39 virt] \<in> table_paths"
    "[lvl_offset 39 virt] @ [lvl_offset 30 virt] \<in> table_paths"
    "[lvl_offset 39 virt, lvl_offset 30 virt] @ [lvl_offset 21 virt] \<in> table_paths"
    by (simp_all add: table_paths_def lvl_offset_bound)
  obtain l3 s3 where r3: "walk_pte pml (lvl_offset 39 virt) True s = Inr (l3, s3)"
    using assms(3) by (auto simp: vmm_walk_def bindE_eq_Inr)
  note w3 = walk_pte_step [OF pt_ext_refl [OF assms(1,2)] paths(1) table_at.simps(1) r3, unfolded append_Nil]
  obtain l2 s2 where r2: "walk_pte l3 (lvl_offset 30 virt) True s3 = Inr (l2, s2)"
    using assms(3) r3 w3(3) by (auto simp: vmm_walk_def bindE_eq_Inr)
  note w2 = walk_pte_step [OF w3(1) paths(2) w3(2) r2, unfolded append_Cons append_Nil]
  have r1: "walk_pte l2 (lvl_offset 21 virt) True s2 = Inr (l, t)"
    using assms(3) r3 w3(3) r2 w2(3) by (simp add: vmm_walk_def)
  note w1 = walk_pte_step [OF w2(1) paths(3) w2(2) r1, unfolded append_Cons append_Nil]
  show "pt_ext s pml t" "table_at (mem t) (hhdm_offset s) pml (vpath virt) = Some l" "l \<noteq> 0"
    using w1 unfolding vpath_def by blast+
qed

lemma vmm_walk_noalloc:
  assumes "pmm_inv s" and "pt_inv s pml"
  shows "vmm_walk pml virt False s =
    Inr (case table_at (mem s) (hhdm_offset s) pml (vpath virt) of None \<Rightarrow> 0 | Some l \<Rightarrow> l, s)"
proof -
  have w: "walk_pte T i False s = Inr (case next_table (mem s) (hhdm_offset s) T i of None \<Rightarrow> 0 | Some l \<Rightarrow> l, s)" for T i
    by (simp add: walk_pte_def next_table_def get_hhdm_def Let_def)
  have "N \<noteq> 0" if "is \<in> table_paths" "table_at (mem s) (hhdm_offset s) pml is = Some N" for "is" N
    using table_nonzero [OF assms that] .
  from this [of "[lvl_offset 39 virt]"] this [of "[lvl_offset 39 virt, lvl_offset 30 virt]"]
  show ?thesis
    by (simp add: vmm_walk_def w vpath_def table_paths_def lvl_offset_bound split: option.splits)
qed

text \<open>A walk fails only when memory runs out, and it takes at most one page per level.\<close>

definition free_count :: "'a pmm_state_scheme \<Rightarrow> nat" where
  "free_count s = card {f. f < unat (bitmap_top_index s) \<and> \<not> page_used s f}"

lemma alloc_choice_1:
  assumes "pmm_inv s"
  shows "alloc_choice s 1 = None \<longleftrightarrow> free_count s = 0"
proof -
  have fit: "first_fit u lo hi 1 = None \<longleftrightarrow> (\<forall>f. lo \<le> f \<and> f < hi \<longrightarrow> u f)" for u lo hi
    by (auto simp: first_fit_def free_run_def)
  have "unat (bitmap_prev_index s) \<le> unat (bitmap_top_index s)"
    using pmm_invD(2) [OF assms] by (simp add: word_le_nat_alt)
  moreover have "alloc_choice s 1 = None \<longleftrightarrow>
      (\<forall>f. unat (bitmap_prev_index s) \<le> f \<and> f < unat (bitmap_top_index s) \<longrightarrow> page_used s f) \<and>
      (\<forall>f < unat (bitmap_prev_index s). page_used s f)"
  proof -
    have "alloc_choice s 1 = None \<longleftrightarrow>
        first_fit (page_used s) (unat (bitmap_prev_index s)) (unat (bitmap_top_index s)) 1 = None \<and>
        first_fit (page_used s) 0 (unat (bitmap_prev_index s)) 1 = None"
      by (auto simp: alloc_choice_def split: option.split)
    then show ?thesis by (simp only: fit) simp
  qed
  ultimately have "alloc_choice s 1 = None \<longleftrightarrow> (\<forall>f < unat (bitmap_top_index s). page_used s f)"
    by (meson le_less_linear less_le_trans)
  then show ?thesis by (auto simp: free_count_def)
qed

lemma alloc_post_free_count:
  assumes "alloc_post s g 1 t"
  shows "free_count s = Suc (free_count t)"
proof -
  have "{f. f < unat (bitmap_top_index s) \<and> \<not> page_used s f} =
      insert g {f. f < unat (bitmap_top_index t) \<and> \<not> page_used t f}"
    and "g \<notin> {f. f < unat (bitmap_top_index t) \<and> \<not> page_used t f}"
    using assms by (auto simp: alloc_post_def free_run_def same_geometry_def)
  then show ?thesis by (simp add: free_count_def)
qed

lemma free_count_update:
  "(\<And>x. x \<in> bitmap_area s \<Longrightarrow> m x = mem s x) \<Longrightarrow> free_count (s\<lparr>mem := m\<rparr>) = free_count s"
  using page_used_clear [of s m] by (auto simp: free_count_def intro!: arg_cong [of _ _ card])

lemma walk_pte_error:
  "pmm_inv s \<Longrightarrow> walk_pte T i alloc s = Inl e \<Longrightarrow>
   e = Panic ''PMM_ALLOC: failed to allocate memory'' \<and> free_count s = 0"
  using alloc_choice_1 [of s]
  by (auto simp: walk_pte_def Let_def bindE_eq_Inl pmm_alloc_eq split: if_splits option.splits)

lemma walk_pte_free_count:
  assumes "pmm_inv s" and "own_page s f" and "i < 512" and "walk_pte (frame_addr s f) i True s = Inr (N, t)"
  shows "free_count s \<le> Suc (free_count t)"
proof (cases "load64 (mem s) (pte_addr (frame_addr s f) i) AND PTE_PRESENT = 0")
  case False
  then show ?thesis using assms(4) by (auto simp: walk_pte_def Let_def)
next
  case True
  then obtain q s1 v where al: "pmm_alloc 1 s = Inr (q, s1)"
    and t: "t = s1\<lparr>mem := store64 (mem s1) (pte_addr (frame_addr s f) i) v\<rparr>"
    using assms(4) by (auto simp: walk_pte_def Let_def bindE_eq_Inr)
  obtain g where post: "alloc_post s g 1 s1" using pmm_alloc_Inr [OF assms(1) _ al] by auto
  have "page_bytes s f \<inter> bitmap_area s1 = {}"
    using post assms(2) same_geometry_areas(2) by (auto simp: own_page_def alloc_post_def)
  then have "free_count t = free_count s1"
    unfolding t using entry_in_page [OF assms(3)] by (intro free_count_update store64_other) blast
  then show ?thesis using alloc_post_free_count [OF post] by simp
qed

lemma walk_pte_step_count:
  assumes "pt_ext s pml u" and "is @ [i] \<in> table_paths"
    and "table_at (mem u) (hhdm_offset s) pml is = Some T" and "walk_pte T i True u = Inr (N, t)"
  shows "free_count u \<le> Suc (free_count t)"
proof -
  note p = table_paths_snoc [OF assms(2)] and u = pt_extD(1,2) [OF assms(1)]
  obtain f where "own_page u f" "T = frame_addr u f"
    using pt_invD [OF u(2), of "is" T] p assms(3) pt_ext_hhdm [OF assms(1)] by metis
  then show ?thesis using walk_pte_free_count [OF u(1)] p assms(4) by blast
qed

lemma vmm_walk_error:
  assumes "pmm_inv s" and "pt_inv s pml" and "vmm_walk pml virt True s = Inl e"
  shows "e = Panic ''PMM_ALLOC: failed to allocate memory''" and "free_count s < 3"
proof -
  have paths: "[] @ [lvl_offset 39 virt] \<in> table_paths"
    "[lvl_offset 39 virt] @ [lvl_offset 30 virt] \<in> table_paths"
    by (simp_all add: table_paths_def lvl_offset_bound)
  have "e = Panic ''PMM_ALLOC: failed to allocate memory'' \<and> free_count s < 3"
  proof (cases "walk_pte pml (lvl_offset 39 virt) True s")
    case (Inl e')
    then show ?thesis using assms(3) walk_pte_error [OF assms(1)] by (auto simp: vmm_walk_def)
  next
    case (Inr r)
    then obtain l3 s3 where r3: "walk_pte pml (lvl_offset 39 virt) True s = Inr (l3, s3)" by (cases r) auto
    note s3 = pt_ext_refl [OF assms(1,2)] paths(1) table_at.simps(1) r3
    note w3 = walk_pte_step [OF s3, unfolded append_Nil] and c3 = walk_pte_step_count [OF s3]
    have inv3: "pmm_inv s3" using pt_extD(1) [OF w3(1)] .
    show ?thesis
    proof (cases "walk_pte l3 (lvl_offset 30 virt) True s3")
      case (Inl e')
      then show ?thesis using assms(3) r3 w3(3) c3 walk_pte_error [OF inv3] by (auto simp: vmm_walk_def)
    next
      case (Inr r)
      then obtain l2 s2 where r2: "walk_pte l3 (lvl_offset 30 virt) True s3 = Inr (l2, s2)" by (cases r) auto
      note s2 = w3(1) paths(2) w3(2) r2
      note w2 = walk_pte_step [OF s2, unfolded append_Cons append_Nil] and c2 = walk_pte_step_count [OF s2]
      show ?thesis
        using assms(3) r3 w3(3) r2 w2(3) c2 c3 walk_pte_error [OF pt_extD(1) [OF w2(1)]]
        by (auto simp: vmm_walk_def)
    qed
  qed
  then show "e = Panic ''PMM_ALLOC: failed to allocate memory''" and "free_count s < 3" by simp_all
qed

subsection \<open>An address space in memory\<close>

definition vmm_at :: "'a pmm_state_scheme \<Rightarrow> u64 \<Rightarrow> u64 \<Rightarrow> nat \<Rightarrow> bool" where
  "vmm_at s vmm pml fv \<longleftrightarrow> pmm_inv s \<and> pt_inv s pml \<and> own_page s fv \<and> \<not> is_table s pml fv \<and>
     vmm = frame_addr s fv \<and> vmm_pml (mem s) vmm = pml"

lemma vmm_at_pml: "vmm_at s vmm pml fv \<Longrightarrow> vmm_pml (mem s) vmm = pml"
  by (auto simp: vmm_at_def)

definition vmm_ok :: "'a pmm_state_scheme \<Rightarrow> u64 \<Rightarrow> bool" where
  "vmm_ok s vmm \<longleftrightarrow> vmm_lock (mem s) vmm = 0 \<and> (\<exists>pml fv. vmm_at s vmm pml fv)"

text \<open>The same tree: every table and every last-level entry as before.\<close>

definition same_tree :: "'a pmm_state_scheme \<Rightarrow> u64 \<Rightarrow> 'a pmm_state_scheme \<Rightarrow> bool" where
  "same_tree s pml t \<longleftrightarrow> (\<forall>is \<in> table_paths.
     table_at (mem t) (hhdm_offset s) pml is = table_at (mem s) (hhdm_offset s) pml is \<and>
     (\<forall>k < 512. leaf_entry (mem t) (hhdm_offset s) pml is k = leaf_entry (mem s) (hhdm_offset s) pml is k))"

lemma struct_fields:
  "bytes_of vmm 4 \<inter> bytes_of (vmm + 8) 8 = {}" "bytes_of vmm 4 \<subseteq> bytes_of vmm 4096"
  "bytes_of (vmm + 8) 8 \<subseteq> bytes_of vmm 4096" "bytes_of (vmm + 16) 8 \<subseteq> bytes_of vmm 4096"
proof -
  have fields: "bytes_of (vmm + of_nat k) n \<subseteq> bytes_of vmm 4096" if "k + n \<le> 4096" for k n
  proof
    fix x assume "x \<in> bytes_of (vmm + of_nat k) n"
    then obtain j where "j < n" "x = vmm + of_nat (k + j)" by (auto simp: bytes_of_iff add.assoc)
    then show "x \<in> bytes_of vmm 4096" using that unfolding bytes_of_iff by (intro exI [of _ "k + j"]) simp
  qed
  show "bytes_of vmm 4 \<subseteq> bytes_of vmm 4096" using bytes_of_mono [of 4 4096 vmm] by simp
  show "bytes_of (vmm + 8) 8 \<subseteq> bytes_of vmm 4096" "bytes_of (vmm + 16) 8 \<subseteq> bytes_of vmm 4096"
    using fields [of 8 8] fields [of 16 8] by simp_all
  show "bytes_of vmm 4 \<inter> bytes_of (vmm + 8) 8 = {}"
    by (simp add: bytes_of_4 bytes_of_8 add.assoc)
qed

lemma vmm_fields_bytes:
  "x \<in> bytes_of (frame_addr s f) 4 \<Longrightarrow> x \<in> page_bytes s f"
  "x \<in> bytes_of (frame_addr s f + 8) 8 \<Longrightarrow> x \<in> page_bytes s f"
  "x \<in> bytes_of (frame_addr s f + 16) 8 \<Longrightarrow> x \<in> page_bytes s f"
  using struct_fields(2-4) [of "frame_addr s f"] by (auto simp: page_bytes_def frame_addr_def)

text \<open>A write into the page of the \<open>vmm_t\<close> that keeps the root pointer keeps everything else.\<close>

lemma vmm_page_write:
  assumes at: "vmm_at s vmm pml fv" and m: "\<And>x. x \<notin> page_bytes s fv \<Longrightarrow> m x = mem s x"
    and root: "vmm_pml m vmm = pml"
  shows "vmm_at (s\<lparr>mem := m\<rparr>) vmm pml fv" and "same_tree s pml (s\<lparr>mem := m\<rparr>)"
proof -
  have inv: "pmm_inv s" and pt: "pt_inv s pml" and own: "own_page s fv" and nt: "\<not> is_table s pml fv"
    using at by (simp_all add: vmm_at_def)
  have bm: "m x = mem s x" if "x \<in> bitmap_area s" for x
    using m that own by (auto simp: own_page_def)
  have tables: "m x = mem s x" if tf: "is_table s pml f" "x \<in> page_bytes s f" for f x
  proof -
    obtain "is" where "is \<in> table_paths" "table_at (mem s) (hhdm_offset s) pml is = Some (frame_addr s f)"
      using tf(1) by (auto simp: is_table_def)
    then obtain g where g: "own_page s g" "frame_addr s f = frame_addr s g" using pt_invD [OF pt] by metis
    then have "page_bytes s f = page_bytes s g" by (simp add: page_bytes_def frame_addr_def)
    moreover have "g \<noteq> fv" using g nt tf(1) by (auto simp: is_table_def)
    then have "page_bytes s g \<inter> page_bytes s fv = {}"
      using g own by (intro page_bytes_disjoint [OF inv]) (auto simp: own_page_def)
    ultimately show ?thesis using m tf(2) by auto
  qed
  note tree = tables_untouched [OF pt tables]
  then show "same_tree s pml (s\<lparr>mem := m\<rparr>)" by (simp add: same_tree_def)
  have "0 < unat (bitmap_top_index s)" using own by (simp add: own_page_def)
  then have "pmm_inv (s\<lparr>mem := m\<rparr>)" using bm by (intro pmm_inv_update [OF inv])
  moreover have "pt_inv (s\<lparr>mem := m\<rparr>) pml" by (rule pt_inv_same_tree [OF pt bm tree(1)])
  moreover have "own_page (s\<lparr>mem := m\<rparr>) fv" using own own_page_update [OF bm] by simp
  moreover have "\<not> is_table (s\<lparr>mem := m\<rparr>) pml fv" using nt tree(1) by (auto simp: is_table_def frame_addr_def)
  ultimately show "vmm_at (s\<lparr>mem := m\<rparr>) vmm pml fv"
    using root at by (simp add: vmm_at_def frame_addr_def)
qed

lemma vmm_lock_write:
  assumes "vmm_at s vmm pml fv"
  shows "vmm_at (s\<lparr>mem := store32 (mem s) vmm l\<rparr>) vmm pml fv"
    and "same_tree s pml (s\<lparr>mem := store32 (mem s) vmm l\<rparr>)"
    and "vmm_lock (mem (s\<lparr>mem := store32 (mem s) vmm l\<rparr>)) vmm = l"
proof -
  have other: "store32 (mem s) vmm l x = mem s x" if "x \<notin> page_bytes s fv" for x
    using that assms vmm_fields_bytes(1) [of x s fv] by (auto simp: vmm_at_def intro!: store32_other)
  have "vmm_pml (store32 (mem s) vmm l) vmm = vmm_pml (mem s) vmm"
    unfolding vmm_pml_def
    by (rule load64_cong) (use struct_fields(1) [of vmm] in \<open>auto intro!: store32_other\<close>)
  then have root: "vmm_pml (store32 (mem s) vmm l) vmm = pml" using assms by (auto simp: vmm_at_def)
  show "vmm_at (s\<lparr>mem := store32 (mem s) vmm l\<rparr>) vmm pml fv"
    and "same_tree s pml (s\<lparr>mem := store32 (mem s) vmm l\<rparr>)"
    using vmm_page_write [OF assms other root] by simp_all
  show "vmm_lock (mem (s\<lparr>mem := store32 (mem s) vmm l\<rparr>)) vmm = l" by (simp add: vmm_lock_def)
qed

lemma vmm_at_ext:
  assumes "vmm_at s vmm pml fv" and "pt_ext s pml t"
  shows "vmm_at t vmm pml fv" and "vmm_lock (mem t) vmm = vmm_lock (mem s) vmm"
proof -
  have own: "own_page s fv" "\<not> is_table s pml fv" and vmm: "vmm = frame_addr s fv"
    using assms(1) by (simp_all add: vmm_at_def)
  note keep = pt_extD(9) [OF assms(2) own]
  have "vmm_pml (mem t) vmm = vmm_pml (mem s) vmm"
    unfolding vmm_pml_def vmm by (intro load64_cong keep vmm_fields_bytes(2))
  then show "vmm_at t vmm pml fv"
    using assms(1) pt_extD(1,2,5,8) [OF assms(2)] pt_ext_hhdm [OF assms(2)]
    by (auto simp: vmm_at_def frame_addr_def)
  show "vmm_lock (mem t) vmm = vmm_lock (mem s) vmm"
    unfolding vmm_lock_def vmm by (intro load32_cong keep vmm_fields_bytes(1))
qed

lemma leaf_write:
  fixes v :: u64
  assumes at: "vmm_at s vmm pml fv" and path: "is \<in> table_paths" "length is = 3" and k: "k < 512"
    and T: "table_at (mem s) (hhdm_offset s) pml is = Some T"
  defines "t \<equiv> s\<lparr>mem := store64 (mem s) (pte_addr T k) v\<rparr>"
  shows "vmm_at t vmm pml fv" and "vmm_lock (mem t) vmm = vmm_lock (mem s) vmm"
    and "js \<in> table_paths \<Longrightarrow> length js = 3 \<Longrightarrow> j < 512 \<Longrightarrow> leaf_entry (mem t) (hhdm_offset s) pml js j =
      (if js = is \<and> j = k then v else leaf_entry (mem s) (hhdm_offset s) pml js j)"
    and "js \<in> table_paths \<Longrightarrow> table_at (mem t) (hhdm_offset s) pml js = table_at (mem s) (hhdm_offset s) pml js"
proof -
  let ?m = "store64 (mem s) (pte_addr T k) v"
  have inv: "pmm_inv s" and pt: "pt_inv s pml" and own: "own_page s fv" and nt: "\<not> is_table s pml fv"
    and vmm: "vmm = frame_addr s fv" and root: "vmm_pml (mem s) vmm = pml"
    using at by (auto simp: vmm_at_def)
  obtain f where f: "own_page s f" "T = frame_addr s f" "is_table s pml f" using pt_invD [OF pt path(1) T] by blast
  have page: "?m x = mem s x" if "x \<notin> page_bytes s f" for x
    using that entry_in_page [OF k] f(2) by (intro store64_other) blast
  have bm: "?m x = mem s x" if "x \<in> bitmap_area s" for x
    using that f(1) by (intro page) (auto simp: own_page_def)
  have load: "load64 ?m (pte_addr u j) = load64 (mem s) (pte_addr u j)"
    if js: "js \<in> table_paths" "table_at (mem s) (hhdm_offset s) pml js = Some u" "j < 512" and ne: "(js, j) \<noteq> (is, k)"
    for js u j
  proof -
    obtain g where g: "own_page s g" "u = frame_addr s g" using pt_invD [OF pt js(1,2)] by blast
    have "(f, k) \<noteq> (g, j)" using ne pt_inv_inj [OF pt path(1) js(1) T] js(2) f(2) g(2) by auto
    then have "x \<notin> bytes_of (pte_addr T k) 8" if "x \<in> bytes_of (pte_addr u j) 8" for x
      using that page_entry_disjoint [OF inv f(1) g(1) k js(3)] f(2) g(2) by blast
    then show ?thesis by (intro load64_cong store64_other)
  qed
  have tree: "table_at ?m (hhdm_offset s) pml js = table_at (mem s) (hhdm_offset s) pml js"
    if js: "js \<in> table_paths" for js
  proof (rule table_at_same [OF _ js])
    fix ks i u assume p: "ks @ [i] \<in> table_paths" and u: "table_at (mem s) (hhdm_offset s) pml ks = Some u"
    have "ks \<noteq> is" using table_paths_snoc [OF p] path(2) by auto
    then show "next_table ?m (hhdm_offset s) u i = next_table (mem s) (hhdm_offset s) u i"
      using load [OF _ u] table_paths_snoc [OF p] by (simp add: next_table_def)
  qed
  have "f \<noteq> fv" using nt f(3) by auto
  then have "page_bytes s fv \<inter> page_bytes s f = {}"
    using own f(1) by (intro page_bytes_disjoint [OF inv]) (auto simp: own_page_def)
  then have keep: "?m x = mem s x" if "x \<in> page_bytes s fv" for x using that page by blast
  have "vmm_pml ?m vmm = pml"
    using root unfolding vmm_pml_def vmm by (metis load64_cong keep vmm_fields_bytes(2))
  moreover have "0 < unat (bitmap_top_index s)" using own by (simp add: own_page_def)
  then have "pmm_inv t" unfolding t_def using bm by (intro pmm_inv_update [OF inv])
  moreover have "pt_inv t pml" unfolding t_def by (rule pt_inv_same_tree [OF pt bm tree])
  moreover have "own_page t fv" unfolding t_def using own own_page_update [OF bm] by simp
  moreover have "\<not> is_table t pml fv" using nt tree by (auto simp: t_def is_table_def frame_addr_def)
  ultimately show "vmm_at t vmm pml fv" using vmm by (simp add: vmm_at_def t_def frame_addr_def)
  show "vmm_lock (mem t) vmm = vmm_lock (mem s) vmm"
    unfolding vmm_lock_def vmm t_def by (simp, intro load32_cong keep vmm_fields_bytes(1))
  show "leaf_entry (mem t) (hhdm_offset s) pml js j =
      (if js = is \<and> j = k then v else leaf_entry (mem s) (hhdm_offset s) pml js j)"
    if "js \<in> table_paths" "length js = 3" "j < 512"
    using load [OF that(1) _ that(3)] tree [OF that(1)] T
    by (auto simp: t_def leaf_entry_def split: option.split)
  show "table_at (mem t) (hhdm_offset s) pml js = table_at (mem s) (hhdm_offset s) pml js" if "js \<in> table_paths"
    using tree [OF that] by (simp add: t_def)
qed

subsection \<open>Translation\<close>

definition page_entry :: "'a pmm_state_scheme \<Rightarrow> u64 \<Rightarrow> u64 \<Rightarrow> u64" where
  "page_entry s vmm virt =
     leaf_entry (mem s) (hhdm_offset s) (vmm_pml (mem s) vmm) (vpath virt) (lvl_offset 12 virt)"

definition translate :: "'a pmm_state_scheme \<Rightarrow> u64 \<Rightarrow> u64 \<Rightarrow> u64 option" where
  "translate s vmm virt = (let e = page_entry s vmm virt in if e AND PTE_PRESENT \<noteq> 0 then Some e else None)"

definition same_page :: "u64 \<Rightarrow> u64 \<Rightarrow> bool" where
  "same_page v w \<longleftrightarrow> vpath v = vpath w \<and> lvl_offset 12 v = lvl_offset 12 w"

lemma same_page_iff: "same_page v w \<longleftrightarrow> take_bit 36 (drop_bit 12 v) = take_bit 36 (drop_bit 12 w)"
proof
  assume "same_page v w"
  then have eq: "lvl_offset sh v = lvl_offset sh w" if "sh \<in> {12, 21, 30, 39}" for sh
    using that by (auto simp: same_page_def vpath_def)
  have b: "bit v (sh + n) = bit w (sh + n)" if "sh \<in> {12, 21, 30, 39}" "n < 9" for sh n
    using arg_cong [OF eq [OF that(1)], of "\<lambda>x. bit x n"] that(2)
    by (simp add: lvl_offset_take_bit bit_simps)
  show "take_bit 36 (drop_bit 12 v) = take_bit 36 (drop_bit 12 w)"
  proof (rule bit_word_eqI)
    fix n assume "n < LENGTH(64)"
    have "n < 9 \<or> 9 \<le> n \<and> n < 18 \<or> 18 \<le> n \<and> n < 27 \<or> 27 \<le> n" by linarith
    then show "bit (take_bit 36 (drop_bit 12 v)) n = bit (take_bit 36 (drop_bit 12 w)) n"
      using b [of 12 n] b [of 21 "n - 9"] b [of 30 "n - 18"] b [of 39 "n - 27"]
      by (auto simp: bit_simps)
  qed
next
  assume a: "take_bit 36 (drop_bit 12 v) = take_bit 36 (drop_bit 12 w)"
  have "bit v n = bit w n" if "12 \<le> n" "n < 48" for n
  proof -
    have "n - 12 < 36" using that by simp
    then show ?thesis using that arg_cong [OF a, of "\<lambda>x. bit x (n - 12)"] by (simp add: bit_simps)
  qed
  then show "same_page v w"
    by (auto simp: same_page_def vpath_def lvl_offset_take_bit bit_eq_iff bit_simps)
qed

subsection \<open>Mapping a page\<close>

lemma vmm_acquire_ok:
  "vmm_lock (mem s) vmm = 0 \<Longrightarrow> vmm_acquire vmm s = Inr (s\<lparr>mem := store32 (mem s) vmm 1\<rparr>)"
  by (simp add: vmm_acquire_def)

lemma vmm_release_eq: "vmm_release vmm s = s\<lparr>mem := store32 (mem s) vmm 0\<rparr>"
  by (simp add: vmm_release_def spinlock_release_def)

text \<open>What an operation on one page leaves: the address space with its lock free and the same root,
  and every last-level entry other than the one of \<open>virt\<close>, which now is \<open>e\<close>.\<close>

definition entry_update :: "'a pmm_state_scheme \<Rightarrow> u64 \<Rightarrow> u64 \<Rightarrow> u64 \<Rightarrow> 'a pmm_state_scheme \<Rightarrow> bool" where
  "entry_update s vmm virt e t \<longleftrightarrow> vmm_ok t vmm \<and> vmm_pml (mem t) vmm = vmm_pml (mem s) vmm \<and>
     hhdm_offset t = hhdm_offset s \<and> page_entry t vmm virt = e \<and>
     (\<forall>w. \<not> same_page w virt \<longrightarrow> page_entry t vmm w = page_entry s vmm w)"

text \<open>
  Locking, a walk, possibly one write of the entry found, unlocking: the shape of every
  operation on a page. \<open>leaf_is s vmm pml virt e v\<close> says that only the entry of \<open>virt\<close> may have
  changed, to \<open>e\<close>.
\<close>

definition leaf_is :: "'a pmm_state_scheme \<Rightarrow> u64 \<Rightarrow> u64 \<Rightarrow> u64 \<Rightarrow> 'a pmm_state_scheme \<Rightarrow> bool" where
  "leaf_is s pml virt e v \<longleftrightarrow> hhdm_offset v = hhdm_offset s \<and> (\<forall>is \<in> table_paths. length is = 3 \<longrightarrow>
     (\<forall>k < 512. leaf_entry (mem v) (hhdm_offset s) pml is k =
        (if is = vpath virt \<and> k = lvl_offset 12 virt then e else leaf_entry (mem s) (hhdm_offset s) pml is k)))"

lemma entry_update_intro:
  assumes "vmm_at s vmm pml fv" and v: "vmm_at v vmm pml fv" "vmm_lock (mem v) vmm = 0" and "leaf_is s pml virt e v"
  shows "entry_update s vmm virt e v"
  using assms vmm_at_pml [OF assms(1)] vmm_at_pml [OF v(1)]
  by (auto simp: entry_update_def leaf_is_def page_entry_def vmm_ok_def same_page_def lvl_offset_bound)

lemma entry_update_release:
  assumes "vmm_at s vmm pml fv" and v: "vmm_at v vmm pml fv" and "leaf_is s pml virt e v"
  shows "entry_update s vmm virt e (vmm_release vmm v)"
proof (rule entry_update_intro [OF assms(1)])
  note w = vmm_lock_write [OF v, of 0]
  show "vmm_at (vmm_release vmm v) vmm pml fv" "vmm_lock (mem (vmm_release vmm v)) vmm = 0"
    using w(1,3) by (simp_all add: vmm_release_eq)
  show "leaf_is s pml virt e (vmm_release vmm v)"
    using w(2) assms(3) by (simp add: leaf_is_def same_tree_def vmm_release_eq)
qed

lemma leaf_is_ext:
  assumes "vmm_at s vmm pml fv" and "pt_ext s pml u"
  shows "leaf_is s pml virt (page_entry s vmm virt) u"
  using pt_extD(7) [OF assms(2)] pt_ext_hhdm [OF assms(2)] vmm_at_pml [OF assms(1)]
  by (auto simp: leaf_is_def page_entry_def)

lemma leaf_is_lock:
  assumes "vmm_at s vmm pml fv" and "leaf_is (s\<lparr>mem := store32 (mem s) vmm l\<rparr>) pml virt e v"
  shows "leaf_is s pml virt e v"
  using vmm_lock_write(2) [OF assms(1), of l] assms(2) by (auto simp: leaf_is_def same_tree_def)

lemma page_entry_lock:
  assumes "vmm_at s vmm pml fv"
  shows "page_entry (s\<lparr>mem := store32 (mem s) vmm l\<rparr>) vmm virt = page_entry s vmm virt"
  using vmm_lock_write [OF assms, of l] vmm_at_pml [OF assms] vmm_at_pml [OF vmm_lock_write(1) [OF assms, of l]]
  by (simp add: page_entry_def same_tree_def lvl_offset_bound)

lemma free_count_lock: "vmm_at s vmm pml fv \<Longrightarrow> free_count (s\<lparr>mem := store32 (mem s) vmm l\<rparr>) = free_count s"
  using vmm_fields_bytes(1) [of _ s fv]
  by (intro free_count_update store32_other) (auto simp: own_page_def vmm_at_def)

text \<open>The entry reached after a walk, and writing it.\<close>

lemma walked_entry:
  assumes at: "vmm_at s vmm pml fv" and ext: "pt_ext s pml u"
    and l: "table_at (mem u) (hhdm_offset s) pml (vpath virt) = Some l"
  shows "load64 (mem u) (pte_addr l (lvl_offset 12 virt)) = page_entry s vmm virt"
    and "vmm_at (u\<lparr>mem := store64 (mem u) (pte_addr l (lvl_offset 12 virt)) e\<rparr>) vmm pml fv"
    and "leaf_is s pml virt e (u\<lparr>mem := store64 (mem u) (pte_addr l (lvl_offset 12 virt)) e\<rparr>)"
    and "vmm_lock (mem (u\<lparr>mem := store64 (mem u) (pte_addr l (lvl_offset 12 virt)) e\<rparr>)) vmm =
      vmm_lock (mem s) vmm"
proof -
  note H = pt_ext_hhdm [OF ext] and at_u = vmm_at_ext [OF at ext]
  note lw = leaf_write [OF at_u(1) vpath_in_paths lvl_offset_bound, unfolded H, OF l]
  show "load64 (mem u) (pte_addr l (lvl_offset 12 virt)) = page_entry s vmm virt"
    using pt_extD(7) [OF ext, of "vpath virt" "lvl_offset 12 virt"] l vmm_at_pml [OF at]
    by (simp add: page_entry_def lvl_offset_bound) (simp add: leaf_entry_def)
  show "vmm_at (u\<lparr>mem := store64 (mem u) (pte_addr l (lvl_offset 12 virt)) e\<rparr>) vmm pml fv" by (rule lw(1))
  show "leaf_is s pml virt e (u\<lparr>mem := store64 (mem u) (pte_addr l (lvl_offset 12 virt)) e\<rparr>)"
    using lw(3) pt_extD(7) [OF ext] H by (simp add: leaf_is_def)
  show "vmm_lock (mem (u\<lparr>mem := store64 (mem u) (pte_addr l (lvl_offset 12 virt)) e\<rparr>)) vmm =
      vmm_lock (mem s) vmm"
    using lw(2) at_u(2) by simp
qed

lemma vmm_map_page_cases:
  assumes "vmm_ok s vmm"
  shows "(\<exists>t. vmm_map_page vmm virt physical flags s = Inr (True, t) \<and>
      entry_update s vmm virt (if translate s vmm virt = None then physical OR flags else page_entry s vmm virt) t) \<or>
    vmm_map_page vmm virt physical flags s = Inl (Panic ''PMM_ALLOC: failed to allocate memory'') \<and> free_count s < 3"
proof -
  obtain pml fv where ok: "vmm_at s vmm pml fv" "vmm_lock (mem s) vmm = 0"
    using assms by (auto simp: vmm_ok_def)
  let ?s1 = "s\<lparr>mem := store32 (mem s) vmm 1\<rparr>"
  note w1 = vmm_lock_write [OF ok(1), of 1]
  have inv1: "pmm_inv ?s1" "pt_inv ?s1 pml" using w1(1) by (simp_all add: vmm_at_def)
  show ?thesis
  proof (cases "vmm_walk pml virt True ?s1")
    case (Inl e)
    then show ?thesis
      using vmm_walk_error [OF inv1 Inl] vmm_at_pml [OF w1(1)] free_count_lock [OF ok(1)]
      by (simp add: vmm_map_page_def vmm_acquire_ok [OF ok(2)])
  next
    case (Inr r)
    then obtain l u where r: "vmm_walk pml virt True ?s1 = Inr (l, u)" by (cases r) auto
    note ext = vmm_walk_ext [OF inv1 r]
    note we = walked_entry [OF w1(1) ext(1,2)] and at_u = vmm_at_ext(1) [OF w1(1) ext(1)]
    have "entry_update s vmm virt (page_entry s vmm virt) (vmm_release vmm u)"
      using leaf_is_ext [OF w1(1) ext(1)]
      by (intro entry_update_release [OF ok(1) at_u] leaf_is_lock [OF ok(1)]) (simp add: page_entry_lock [OF ok(1)])
    moreover have "entry_update s vmm virt e
        (vmm_release vmm (u\<lparr>mem := store64 (mem u) (pte_addr l (lvl_offset 12 virt)) e\<rparr>))" for e
      by (rule entry_update_release [OF ok(1) we(2) leaf_is_lock [OF ok(1) we(3)]])
    ultimately show ?thesis
      using r ext(3) we(1) vmm_at_pml [OF w1(1)] page_entry_lock [OF ok(1)]
      by (auto simp: vmm_map_page_def vmm_acquire_ok [OF ok(2)] translate_def Let_def)
  qed
qed

lemma vmm_ok_pt: "vmm_ok s vmm \<Longrightarrow> pmm_inv s \<and> pt_inv s (vmm_pml (mem s) vmm)"
  by (auto simp: vmm_ok_def vmm_at_def)

text \<open>The walk without allocation is the specification's.\<close>

lemma walk_translate:
  assumes "vmm_ok s vmm" and "vmm_pml (mem s) vmm = pml"
  shows "page_entry s vmm virt =
    (case table_at (mem s) (hhdm_offset s) pml (vpath virt) of None \<Rightarrow> 0
     | Some l \<Rightarrow> load64 (mem s) (pte_addr l (lvl_offset 12 virt)))"
  by (simp add: page_entry_def leaf_entry_def assms(2))

text \<open>
  An operation that finds the entry of \<open>virt\<close> without allocating, with or without taking the
  lock: \<open>vmm_unmap_page\<close>.
\<close>

lemma vmm_unmap_page_eq:
  assumes "vmm_ok s vmm"
  shows "\<exists>t. vmm_unmap_page vmm virt lock s = Inr (translate s vmm virt \<noteq> None, t) \<and>
    entry_update s vmm virt (if translate s vmm virt = None then page_entry s vmm virt else 0) t"
proof -
  obtain pml fv where ok: "vmm_at s vmm pml fv" "vmm_lock (mem s) vmm = 0"
    using assms by (auto simp: vmm_ok_def)
  define s1 where "s1 = (if lock then s\<lparr>mem := store32 (mem s) vmm 1\<rparr> else s)"
  have acq: "vmm_acquire_if lock vmm s = Inr s1"
    by (simp add: vmm_acquire_if_def s1_def vmm_acquire_ok [OF ok(2)])
  have at1: "vmm_at s1 vmm pml fv" and pe: "page_entry s1 vmm virt = page_entry s vmm virt"
    using vmm_lock_write(1) [OF ok(1)] page_entry_lock [OF ok(1)] ok(1) by (simp_all add: s1_def)
  have upd: "entry_update s vmm virt e (vmm_release_if lock vmm v)"
    if "vmm_at v vmm pml fv" "leaf_is s1 pml virt e v" "vmm_lock (mem v) vmm = vmm_lock (mem s1) vmm" for e v
    using that entry_update_release [OF ok(1) that(1)] entry_update_intro [OF ok(1) that(1)] leaf_is_lock [OF ok(1)] ok(2)
    by (auto simp: vmm_release_if_def s1_def split: if_splits)
  have inv: "pmm_inv s1" "pt_inv s1 pml" using at1 by (simp_all add: vmm_at_def)
  note refl = pt_ext_refl [OF inv] and walk = vmm_walk_noalloc [OF inv, of virt]
  have keep: "entry_update s vmm virt (page_entry s vmm virt) (vmm_release_if lock vmm s1)"
    using upd [OF at1, of "page_entry s vmm virt"] leaf_is_ext [OF at1 refl, of virt] by (simp add: pe)
  show ?thesis
  proof (cases "table_at (mem s1) (hhdm_offset s1) pml (vpath virt)")
    case None
    then have "page_entry s vmm virt = 0"
      using pe vmm_at_pml [OF at1] by (simp add: page_entry_def leaf_entry_def)
    then show ?thesis
      using None walk acq keep vmm_at_pml [OF at1] by (simp add: vmm_unmap_page_def translate_def)
  next
    case (Some l)
    note we = walked_entry [OF at1 refl Some]
    have "l \<noteq> 0" using table_nonzero [OF inv vpath_in_paths(1) Some] .
    then show ?thesis
      using Some walk acq keep vmm_at_pml [OF at1] we(1) pe upd [OF we(2-4)]
      by (auto simp: vmm_unmap_page_def translate_def Let_def)
  qed
qed

lemma vmm_virt2phys_cases:
  assumes "vmm_ok s vmm"
  shows "(\<exists>t. vmm_virt2phys vmm virt alloc s = Inr (PTE_GET_ADDR (page_entry s vmm virt), t) \<and>
      entry_update s vmm virt (page_entry s vmm virt) t) \<or>
    vmm_virt2phys vmm virt alloc s = Inl (Panic ''PMM_ALLOC: failed to allocate memory'') \<and> free_count s < 3"
proof -
  obtain pml fv where ok: "vmm_at s vmm pml fv" "vmm_lock (mem s) vmm = 0"
    using assms by (auto simp: vmm_ok_def)
  have inv: "pmm_inv s" "pt_inv s pml" using ok(1) by (simp_all add: vmm_at_def)
  show ?thesis
  proof (cases "vmm_walk pml virt True s")
    case (Inl e)
    then show ?thesis
      using vmm_walk_error [OF inv Inl] vmm_at_pml [OF ok(1)] by (simp add: vmm_virt2phys_def vmm_virt2pte_def)
  next
    case (Inr r)
    then obtain l u where r: "vmm_walk pml virt True s = Inr (l, u)" by (cases r) auto
    note ext = vmm_walk_ext [OF inv r]
    note we = walked_entry [OF ok(1) ext(1,2)] and at_u = vmm_at_ext [OF ok(1) ext(1)]
    have upd: "entry_update s vmm virt (page_entry s vmm virt) u"
      using entry_update_intro [OF ok(1) at_u(1)] at_u(2) ok(2) leaf_is_ext [OF ok(1) ext(1)] by simp
    have "l \<noteq> 0" by (rule ext(3))
    have "pte_addr l (lvl_offset 12 virt) \<noteq> 0"
    proof -
      obtain f where f: "own_page u f" "l = frame_addr u f"
        using pt_invD [OF pt_extD(2) [OF ext(1)] vpath_in_paths(1), unfolded pt_ext_hhdm [OF ext(1)], OF ext(2)] by blast
      show ?thesis using pte_nonzero [OF pt_extD(1) [OF ext(1)] f(1) lvl_offset_bound] f(2) by simp
    qed
    then show ?thesis
      using r ext(3) we(1) upd vmm_at_pml [OF ok(1)] by (simp add: vmm_virt2phys_def vmm_virt2pte_def)
  qed
qed

lemma vmm_change_flag_cases:
  assumes "vmm_ok s vmm"
  shows "(\<exists>t. vmm_change_flag vmm virt flags lock s = Inr (translate s vmm virt \<noteq> None, t) \<and>
      entry_update s vmm virt (if translate s vmm virt = None then page_entry s vmm virt
        else PTE_GET_ADDR (page_entry s vmm virt) OR flags) t) \<or>
    vmm_change_flag vmm virt flags lock s = Inl (Panic ''PMM_ALLOC: failed to allocate memory'') \<and> free_count s < 3"
proof -
  obtain pml fv where ok: "vmm_at s vmm pml fv" "vmm_lock (mem s) vmm = 0"
    using assms by (auto simp: vmm_ok_def)
  define s1 where "s1 = (if lock then s\<lparr>mem := store32 (mem s) vmm 1\<rparr> else s)"
  have acq: "vmm_acquire_if lock vmm s = Inr s1"
    by (simp add: vmm_acquire_if_def s1_def vmm_acquire_ok [OF ok(2)])
  have at1: "vmm_at s1 vmm pml fv" and pe: "page_entry s1 vmm virt = page_entry s vmm virt"
    using vmm_lock_write(1) [OF ok(1)] page_entry_lock [OF ok(1)] ok(1) by (simp_all add: s1_def)
  have fc: "free_count s1 = free_count s" by (simp add: s1_def free_count_lock [OF ok(1)])
  have upd: "entry_update s vmm virt e (vmm_release_if lock vmm v)"
    if "vmm_at v vmm pml fv" "leaf_is s1 pml virt e v" "vmm_lock (mem v) vmm = vmm_lock (mem s1) vmm" for e v
    using that entry_update_release [OF ok(1) that(1)] entry_update_intro [OF ok(1) that(1)] leaf_is_lock [OF ok(1)] ok(2)
    by (auto simp: vmm_release_if_def s1_def split: if_splits)
  have inv: "pmm_inv s1" "pt_inv s1 pml" using at1 by (simp_all add: vmm_at_def)
  show ?thesis
  proof (cases "vmm_walk pml virt True s1")
    case (Inl e)
    then show ?thesis
      using vmm_walk_error [OF inv Inl] vmm_at_pml [OF at1] acq fc by (simp add: vmm_change_flag_def)
  next
    case (Inr r)
    then obtain l u where r: "vmm_walk pml virt True s1 = Inr (l, u)" by (cases r) auto
    note ext = vmm_walk_ext [OF inv r]
    note we = walked_entry [OF at1 ext(1,2)] and at_u = vmm_at_ext [OF at1 ext(1)]
    have "entry_update s vmm virt (page_entry s vmm virt) (vmm_release_if lock vmm u)"
      using upd [OF at_u(1), of "page_entry s vmm virt"] at_u(2) leaf_is_ext [OF at1 ext(1), of virt] by (simp add: pe)
    then show ?thesis
      using r ext(3) we(1) acq vmm_at_pml [OF at1] pe upd [OF we(2-4)]
      by (auto simp: vmm_change_flag_def translate_def Let_def)
  qed
qed

text \<open>How many pages the operations take.\<close>

lemma vmm_walk_count:
  assumes "pmm_inv s" and "pt_inv s pml" and "vmm_walk pml virt True s = Inr (l, t)"
  shows "free_count s \<le> 3 + free_count t"
proof -
  have paths: "[] @ [lvl_offset 39 virt] \<in> table_paths"
    "[lvl_offset 39 virt] @ [lvl_offset 30 virt] \<in> table_paths"
    "[lvl_offset 39 virt, lvl_offset 30 virt] @ [lvl_offset 21 virt] \<in> table_paths"
    by (simp_all add: table_paths_def lvl_offset_bound)
  obtain l3 s3 where r3: "walk_pte pml (lvl_offset 39 virt) True s = Inr (l3, s3)"
    using assms(3) by (auto simp: vmm_walk_def bindE_eq_Inr)
  note s3 = pt_ext_refl [OF assms(1,2)] paths(1) table_at.simps(1) r3
  note w3 = walk_pte_step [OF s3, unfolded append_Nil]
  obtain l2 s2 where r2: "walk_pte l3 (lvl_offset 30 virt) True s3 = Inr (l2, s2)"
    using assms(3) r3 w3(3) by (auto simp: vmm_walk_def bindE_eq_Inr)
  note s2 = w3(1) paths(2) w3(2) r2
  note w2 = walk_pte_step [OF s2, unfolded append_Cons append_Nil]
  have r1: "walk_pte l2 (lvl_offset 21 virt) True s2 = Inr (l, t)"
    using assms(3) r3 w3(3) r2 w2(3) by (simp add: vmm_walk_def)
  show ?thesis
    using walk_pte_step_count [OF s3] walk_pte_step_count [OF s2] walk_pte_step_count [OF w2(1) paths(3) w2(2) r1]
    by simp
qed

lemma vmm_map_page_count:
  assumes "vmm_ok s vmm" and "vmm_map_page vmm virt physical flags s = Inr (b, t)"
  shows "free_count s \<le> 3 + free_count t"
proof -
  obtain pml fv where ok: "vmm_at s vmm pml fv" "vmm_lock (mem s) vmm = 0"
    using assms(1) by (auto simp: vmm_ok_def)
  let ?s1 = "s\<lparr>mem := store32 (mem s) vmm 1\<rparr>"
  note w1 = vmm_lock_write [OF ok(1), of 1]
  have inv1: "pmm_inv ?s1" "pt_inv ?s1 pml" using w1(1) by (simp_all add: vmm_at_def)
  obtain l u where r: "vmm_walk pml virt True ?s1 = Inr (l, u)"
    using assms(2) vmm_at_pml [OF w1(1)] by (auto simp: vmm_map_page_def vmm_acquire_ok [OF ok(2)] bindE_eq_Inr)
  note ext = vmm_walk_ext [OF inv1 r] and at_u = vmm_at_ext(1) [OF w1(1) vmm_walk_ext(1) [OF inv1 r]]
  let ?e = "pte_addr l (lvl_offset 12 virt)" and ?w = "\<lambda>v. u\<lparr>mem := store64 (mem u) (pte_addr l (lvl_offset 12 virt)) v\<rparr>"
  have "free_count (?w v) = free_count u" for v
  proof -
    obtain f where f: "own_page u f" "l = frame_addr u f"
      using pt_invD [OF pt_extD(2) [OF ext(1)] vpath_in_paths(1), unfolded pt_ext_hhdm [OF ext(1)], OF ext(2)] by blast
    then show ?thesis
      using entry_in_page [OF lvl_offset_bound, where s = u and f = f]
      by (intro free_count_update store64_other) (unfold own_page_def, blast)
  qed
  moreover have "t = vmm_release vmm u \<or> (\<exists>v. t = vmm_release vmm (?w v))"
    using assms(2) r ext(3) vmm_at_pml [OF w1(1)]
    by (auto simp: vmm_map_page_def vmm_acquire_ok [OF ok(2)] Let_def split: if_splits)
  ultimately have "free_count t = free_count u"
    using free_count_lock [OF at_u] free_count_lock [OF walked_entry(2) [OF w1(1) ext(1,2)]]
    by (auto simp: vmm_release_eq)
  then show ?thesis
    using vmm_walk_count [OF inv1 r] free_count_lock [OF ok(1)] by simp
qed

end
