(* ===== verification/Vmm_Space.thy ===== *)
theory Vmm_Space
  imports Vmm
begin

text \<open>
  Address spaces as functions from virtual addresses to page-table entries, and the operations
  of \<open>src/kernel/mm/vmm.c\<close> as refinements of operations on them. The locale \<open>paging\<close> is what the
  heap and start-up rely on; what a sequence of mappings gives is proved once, inside it.
  Start-up (\<open>vmm_init\<close>) and the creation of an address space (\<open>vmm_new\<close>) follow.
\<close>

subsection \<open>Abstract operations\<close>

type_synonym entries = "u64 \<Rightarrow> u64"

definition map_entry :: "u64 \<Rightarrow> u64 \<Rightarrow> entries \<Rightarrow> entries" where
  "map_entry virt e E = (\<lambda>w. if same_page w virt \<and> E w AND PTE_PRESENT = 0 then e else E w)"

definition unmap_entry :: "u64 \<Rightarrow> entries \<Rightarrow> entries" where
  "unmap_entry virt E = (\<lambda>w. if same_page w virt \<and> E w AND PTE_PRESENT \<noteq> 0 then 0 else E w)"

definition flag_entry :: "u64 \<Rightarrow> u64 \<Rightarrow> entries \<Rightarrow> entries" where
  "flag_entry virt flags E =
     (\<lambda>w. if same_page w virt \<and> E w AND PTE_PRESENT \<noteq> 0 then PTE_GET_ADDR (E w) OR flags else E w)"

text \<open>Entries depend on the page only.\<close>

definition page_fun :: "entries \<Rightarrow> bool" where
  "page_fun E \<longleftrightarrow> (\<forall>v w. same_page v w \<longrightarrow> E v = E w)"

lemma same_page_refl [simp]: "same_page v v"
  by (simp add: same_page_def)

lemma same_page_sym: "same_page v w \<Longrightarrow> same_page w v"
  by (simp add: same_page_def)

lemma same_page_trans: "same_page u v \<Longrightarrow> same_page v w \<Longrightarrow> same_page u w"
  by (simp add: same_page_def)

lemma page_entry_page_fun: "page_fun (page_entry s vmm)"
  by (simp add: page_fun_def page_entry_def same_page_def)

lemma map_entry_twice: "e AND PTE_PRESENT \<noteq> 0 \<Longrightarrow> map_entry v e' (map_entry v e E) = map_entry v e E"
  by (auto simp: map_entry_def fun_eq_iff)

lemma map_entry_commute:
  "\<not> same_page v w \<Longrightarrow> map_entry v e (map_entry w e' E) = map_entry w e' (map_entry v e E)"
  by (auto simp: map_entry_def fun_eq_iff dest: same_page_sym same_page_trans)

lemma unmap_map_entry:
  "(\<And>w. same_page w v \<Longrightarrow> E w = 0) \<Longrightarrow> e AND PTE_PRESENT \<noteq> 0 \<Longrightarrow> unmap_entry v (map_entry v e E) = E"
  by (auto simp: unmap_entry_def map_entry_def fun_eq_iff)

text \<open>A sequence of mappings: the first one of a page wins.\<close>

definition map_list :: "(u64 \<times> u64) list \<Rightarrow> entries \<Rightarrow> entries" where
  "map_list xs E = fold (\<lambda>(v, e). map_entry v e) xs E"

lemma map_list_simps [simp]:
  "map_list [] E = E" "map_list ((v, e) # xs) E = map_list xs (map_entry v e E)"
  "map_list (xs @ ys) E = map_list ys (map_list xs E)"
  by (simp_all add: map_list_def)

lemma map_list_present: "E w AND PTE_PRESENT \<noteq> 0 \<Longrightarrow> map_list xs E w = E w"
proof (induction xs arbitrary: E)
  case (Cons x xs)
  obtain v e where x: "x = (v, e)" by (cases x)
  have "map_entry v e E w = E w" using Cons.prems by (simp add: map_entry_def)
  then show ?case using Cons by (simp add: x)
qed simp

lemma map_list_find:
  assumes "\<And>v e. (v, e) \<in> set xs \<Longrightarrow> e AND PTE_PRESENT \<noteq> 0" and "E w AND PTE_PRESENT = 0"
  shows "map_list xs E w =
    (case find (\<lambda>(v, e). same_page w v) xs of None \<Rightarrow> E w | Some (v, e) \<Rightarrow> e)"
  using assms
proof (induction xs arbitrary: E)
  case (Cons x xs)
  obtain v e where x: "x = (v, e)" by (cases x)
  show ?case
  proof (cases "same_page w v")
    case True
    then have "map_entry v e E w = e" using Cons.prems(2) by (simp add: map_entry_def)
    moreover have "e AND PTE_PRESENT \<noteq> 0" using Cons.prems(1) x by auto
    ultimately show ?thesis using True map_list_present [of "map_entry v e E" w xs] by (simp add: x)
  next
    case False
    then have eq: "map_entry v e E w = E w" by (simp add: map_entry_def)
    have "map_list xs (map_entry v e E) w =
        (case find (\<lambda>(v, e). same_page w v) xs of None \<Rightarrow> map_entry v e E w | Some (v, e) \<Rightarrow> e)"
      by (rule Cons.IH) (use Cons.prems x eq in auto)
    then show ?thesis using False eq by (auto simp: x split: option.split)
  qed
qed simp

subsection \<open>The contract of an address space\<close>

text \<open>Mapping a list of pages with \<open>op\<close>, stopping at the first failure.\<close>

fun map_all :: "(u64 \<Rightarrow> u64 \<Rightarrow> u64 \<Rightarrow> 's \<Rightarrow> (bool \<times> 's) result) \<Rightarrow> (u64 \<times> u64 \<times> u64) list \<Rightarrow> 's \<Rightarrow> 's result" where
  "map_all mop [] s = Inr s"
| "map_all mop ((v, p, f) # xs) s = bindE (mop v p f s) (\<lambda>r. map_all mop xs (snd r))"

locale paging =
  fixes ok :: "'s \<Rightarrow> bool" and entries :: "'s \<Rightarrow> entries" and spare :: "'s \<Rightarrow> nat" and static :: "'s \<Rightarrow> 'c"
    and map_op :: "u64 \<Rightarrow> u64 \<Rightarrow> u64 \<Rightarrow> 's \<Rightarrow> (bool \<times> 's) result"
    and unmap_op :: "u64 \<Rightarrow> bool \<Rightarrow> 's \<Rightarrow> (bool \<times> 's) result"
  assumes entries_page_fun: "page_fun (entries s)"
    and map_contract: "ok s \<Longrightarrow>
      (\<exists>t. map_op v p f s = Inr (True, t) \<and> ok t \<and> entries t = map_entry v (p OR f) (entries s) \<and>
           spare s \<le> 3 + spare t \<and> static t = static s) \<or>
      map_op v p f s = Inl (Panic ''PMM_ALLOC: failed to allocate memory'') \<and> spare s < 3"
    and unmap_contract: "ok s \<Longrightarrow>
      \<exists>t. unmap_op v lock s = Inr (entries s v AND PTE_PRESENT \<noteq> 0, t) \<and> ok t \<and>
          entries t = unmap_entry v (entries s)"
begin

lemma map_unmap_restores:
  assumes "ok s" and "entries s v = 0" and "(p OR f) AND PTE_PRESENT \<noteq> 0" and "map_op v p f s = Inr (b, t)"
  shows "\<exists>u. unmap_op v lock t = Inr (True, u) \<and> ok u \<and> entries u = entries s"
proof -
  have t: "ok t" "entries t = map_entry v (p OR f) (entries s)"
    using map_contract [OF assms(1), of v p f] assms(4) by auto
  have z: "entries s w = 0" if "same_page w v" for w
    using that assms(2) entries_page_fun [of s] unfolding page_fun_def by metis
  have "entries t v = p OR f" using z by (simp add: t map_entry_def)
  then show ?thesis
    using unmap_contract [OF t(1), of v lock] assms(3) unmap_map_entry [of v "entries s"] z
    by (auto simp: t(2))
qed

lemma map_all_ok:
  assumes "ok s"
  shows "(\<exists>t. map_all map_op xs s = Inr t \<and> ok t \<and> entries t = map_list (map (\<lambda>(v, p, f). (v, p OR f)) xs) (entries s) \<and>
      spare s \<le> 3 * length xs + spare t \<and> static t = static s) \<or>
    map_all map_op xs s = Inl (Panic ''PMM_ALLOC: failed to allocate memory'') \<and> spare s < 3 * length xs"
  using assms
proof (induction xs arbitrary: s)
  case (Cons x xs)
  obtain v p f where x: "x = (v, p, f)" by (cases x)
  from map_contract [OF Cons.prems, of v p f] show ?case
  proof (elim disjE exE conjE)
    fix t assume t: "map_op v p f s = Inr (True, t)" "ok t" "entries t = map_entry v (p OR f) (entries s)"
      "spare s \<le> 3 + spare t" "static t = static s"
    from Cons.IH [OF t(2)] show ?thesis using t by (auto simp: x)
  qed (simp add: x)
qed simp

end

subsection \<open>The page tables meet the contract\<close>

lemma entry_update_fun:
  "entry_update s vmm virt e t \<Longrightarrow> page_entry t vmm = (\<lambda>w. if same_page w virt then e else page_entry s vmm w)"
  using page_entry_page_fun [of t vmm] by (auto simp: entry_update_def page_fun_def fun_eq_iff)

lemma translate_None_iff: "translate s vmm virt = None \<longleftrightarrow> page_entry s vmm virt AND PTE_PRESENT = 0"
  by (simp add: translate_def Let_def)

lemma page_entry_same: "same_page w v \<Longrightarrow> page_entry s vmm w = page_entry s vmm v"
  using page_entry_page_fun [of s vmm] by (auto simp: page_fun_def)

lemma entry_update_map:
  assumes "entry_update s vmm v (if translate s vmm v = None then e else page_entry s vmm v) t"
  shows "page_entry t vmm = map_entry v e (page_entry s vmm)"
proof
  fix w
  show "page_entry t vmm w = map_entry v e (page_entry s vmm) w"
    using page_entry_same [of w v s vmm]
    by (cases "same_page w v") (simp_all add: entry_update_fun [OF assms] map_entry_def translate_None_iff)
qed

lemma entry_update_unmap:
  assumes "entry_update s vmm v (if translate s vmm v = None then page_entry s vmm v else 0) t"
  shows "page_entry t vmm = unmap_entry v (page_entry s vmm)"
proof
  fix w
  show "page_entry t vmm w = unmap_entry v (page_entry s vmm) w"
    using page_entry_same [of w v s vmm]
    by (cases "same_page w v") (simp_all add: entry_update_fun [OF assms] unmap_entry_def translate_None_iff)
qed

lemma entry_update_flag:
  assumes "entry_update s vmm v (if translate s vmm v = None then page_entry s vmm v
    else PTE_GET_ADDR (page_entry s vmm v) OR flags) t"
  shows "page_entry t vmm = flag_entry v flags (page_entry s vmm)"
proof
  fix w
  show "page_entry t vmm w = flag_entry v flags (page_entry s vmm) w"
    using page_entry_same [of w v s vmm]
    by (cases "same_page w v") (simp_all add: entry_update_fun [OF assms] flag_entry_def translate_None_iff)
qed

lemma entry_update_keep:
  assumes "entry_update s vmm v (page_entry s vmm v) t"
  shows "page_entry t vmm = page_entry s vmm"
proof
  fix w
  show "page_entry t vmm w = page_entry s vmm w"
    using page_entry_same [of w v s vmm] by (simp add: entry_update_fun [OF assms])
qed

text \<open>The part of the state no operation on page tables changes.\<close>

definition static_part :: "'a pmm_state_scheme \<Rightarrow> u64 \<times> u64 \<times> u64 \<times> spinlock_t \<times> 'a" where
  "static_part s = (hhdm_offset s, bitmap s, bitmap_top_index s, spin_lock s, pmm_state.more s)"

lemma static_part_update [simp]:
  "static_part (s\<lparr>mem := m\<rparr>) = static_part s" "static_part (s\<lparr>bitmap_prev_index := p\<rparr>) = static_part s"
  by (simp_all add: static_part_def)

lemma pt_ext_static: "pt_ext s pml t \<Longrightarrow> static_part t = static_part s"
  by (auto dest!: pt_extD(4))

lemma vmm_map_page_static:
  assumes "vmm_ok s vmm" and "vmm_map_page vmm virt physical flags s = Inr (b, t)"
  shows "static_part t = static_part s"
proof -
  obtain pml fv where ok: "vmm_at s vmm pml fv" "vmm_lock (mem s) vmm = 0"
    using assms(1) by (auto simp: vmm_ok_def)
  let ?s1 = "s\<lparr>mem := store32 (mem s) vmm 1\<rparr>"
  note w1 = vmm_lock_write [OF ok(1), of 1]
  have inv1: "pmm_inv ?s1" "pt_inv ?s1 pml" using w1(1) by (simp_all add: vmm_at_def)
  obtain l u where r: "vmm_walk pml virt True ?s1 = Inr (l, u)"
    using assms(2) vmm_at_pml [OF w1(1)] by (auto simp: vmm_map_page_def vmm_acquire_ok [OF ok(2)] bindE_eq_Inr)
  then show ?thesis
    using assms(2) pt_ext_static [OF vmm_walk_ext(1) [OF inv1 r]] vmm_at_pml [OF w1(1)]
    by (auto simp: vmm_map_page_def vmm_acquire_ok [OF ok(2)] vmm_release_eq Let_def split: if_splits)
qed

lemma vmm_map_page_refines:
  assumes "vmm_ok s vmm"
  shows "(\<exists>t. vmm_map_page vmm v p f s = Inr (True, t) \<and> vmm_ok t vmm \<and>
      page_entry t vmm = map_entry v (p OR f) (page_entry s vmm) \<and> free_count s \<le> 3 + free_count t \<and>
      static_part t = static_part s) \<or>
    vmm_map_page vmm v p f s = Inl (Panic ''PMM_ALLOC: failed to allocate memory'') \<and> free_count s < 3"
  using vmm_map_page_cases [OF assms, of v p f]
proof (elim disjE exE conjE)
  fix t assume t: "vmm_map_page vmm v p f s = Inr (True, t)"
    "entry_update s vmm v (if translate s vmm v = None then p OR f else page_entry s vmm v) t"
  then have "vmm_ok t vmm" by (simp add: entry_update_def)
  then show ?thesis
    using t entry_update_map [OF t(2)] vmm_map_page_count [OF assms t(1)] vmm_map_page_static [OF assms t(1)] by blast
qed simp

lemma vmm_unmap_page_refines:
  assumes "vmm_ok s vmm"
  shows "\<exists>t. vmm_unmap_page vmm v lock s = Inr (page_entry s vmm v AND PTE_PRESENT \<noteq> 0, t) \<and> vmm_ok t vmm \<and>
      page_entry t vmm = unmap_entry v (page_entry s vmm)"
proof -
  obtain t where t: "vmm_unmap_page vmm v lock s = Inr (translate s vmm v \<noteq> None, t)"
    "entry_update s vmm v (if translate s vmm v = None then page_entry s vmm v else 0) t"
    using vmm_unmap_page_eq [OF assms] by blast
  then have "vmm_ok t vmm" by (simp add: entry_update_def)
  then show ?thesis using t(1) entry_update_unmap [OF t(2)] by (simp add: translate_None_iff)
qed

interpretation vm: paging "\<lambda>s. vmm_ok s vmm" "\<lambda>s. page_entry s vmm" free_count static_part
  "\<lambda>v p f. vmm_map_page vmm v p f" "\<lambda>v lock. vmm_unmap_page vmm v lock"
  for vmm
  by unfold_locales (rule page_entry_page_fun vmm_map_page_refines vmm_unmap_page_refines; assumption)+

subsection \<open>A fresh address space\<close>

lemma empty_root:
  assumes inv: "pmm_inv s" and own: "own_page s f" and zero: "\<forall>x \<in> page_bytes s f. mem s x = 0"
  shows "is \<in> table_paths \<Longrightarrow> table_at (mem s) (hhdm_offset s) (frame_addr s f) is =
      (if is = [] then Some (frame_addr s f) else None)"
    and "pt_inv s (frame_addr s f)" and "own_page s g \<Longrightarrow> is_table s (frame_addr s f) g \<longleftrightarrow> g = f"
    and "is \<in> table_paths \<Longrightarrow> k < 512 \<Longrightarrow> leaf_entry (mem s) (hhdm_offset s) (frame_addr s f) is k = 0"
proof -
  have load: "load64 (mem s) (pte_addr (frame_addr s f) i) = 0" if "i < 512" for i
    using that zero entry_in_page by (intro load64_zero) blast
  show tree: "table_at (mem s) (hhdm_offset s) (frame_addr s f) is =
      (if is = [] then Some (frame_addr s f) else None)" if "is \<in> table_paths" for "is"
    using that load by (cases "is") (simp_all add: next_table_def table_paths_def)
  show "pt_inv s (frame_addr s f)" unfolding pt_inv_def using tree own by (auto split: if_splits)
  have "[] \<in> table_paths" by (simp add: table_paths_def)
  then show "is_table s (frame_addr s f) g \<longleftrightarrow> g = f" if "own_page s g"
    using tree frame_addr_inj [OF inv, of f g] own that unfolding is_table_def own_page_def
    by (metis option.distinct(1) option.inject)
  show "leaf_entry (mem s) (hhdm_offset s) (frame_addr s f) is k = 0" if "is \<in> table_paths" "k < 512"
    using tree [OF that(1)] load [OF that(2)] by (simp add: leaf_entry_def split: if_splits)
qed

lemma alloc_own: "pmm_inv s \<Longrightarrow> alloc_post s g 1 t \<Longrightarrow> own_page t g"
proof -
  assume inv: "pmm_inv s" and post: "alloc_post s g 1 t"
  then have geo: "same_geometry s t" and g: "0 < g" "g < unat (bitmap_top_index s)" "\<not> page_used s g" "page_used t g"
    by (auto simp: alloc_post_def free_run_def)
  then show ?thesis
    using pmm_invD(5) [OF inv g(2,3)] same_geometry_areas [OF geo] by (simp add: own_page_def same_geometry_def)
qed

lemma alloc_post_zero: "alloc_post s g 1 t \<Longrightarrow> x \<in> page_bytes s g \<Longrightarrow> mem t x = 0"
  unfolding alloc_post_def by (metis le_refl less_add_one)

lemma own_page_write:
  assumes "pmm_inv s" and "own_page s f" and "\<And>x. x \<notin> page_bytes s f \<Longrightarrow> m x = mem s x"
  shows "pmm_inv (s\<lparr>mem := m\<rparr>)" and "own_page (s\<lparr>mem := m\<rparr>) g = own_page s g"
    and "free_count (s\<lparr>mem := m\<rparr>) = free_count s"
proof -
  have bm: "m x = mem s x" if "x \<in> bitmap_area s" for x
    using assms(2,3) that by (auto simp: own_page_def)
  have "0 < unat (bitmap_top_index s)" using assms(2) by (simp add: own_page_def)
  then show "pmm_inv (s\<lparr>mem := m\<rparr>)" using bm by (intro pmm_inv_update [OF assms(1)])
  show "own_page (s\<lparr>mem := m\<rparr>) g = own_page s g" using bm by (rule own_page_update)
  show "free_count (s\<lparr>mem := m\<rparr>) = free_count s" using bm by (rule free_count_update)
qed

lemma pmm_alloc_1_cases:
  assumes "pmm_inv s"
  shows "(\<exists>g t. pmm_alloc 1 s = Inr (of_nat g * PAGE_SIZE, t) \<and> alloc_post s g 1 t) \<or>
    pmm_alloc 1 s = Inl (Panic ''PMM_ALLOC: failed to allocate memory'') \<and> free_count s = 0"
proof (cases "alloc_choice s 1")
  case None
  then show ?thesis using alloc_choice_1 [OF assms] by (simp add: pmm_alloc_eq [OF assms])
next
  case (Some g)
  then show ?thesis using alloc_post_intro [OF assms, of 1 g] by (auto simp: pmm_alloc_eq [OF assms])
qed

text \<open>What creating an address space leaves, frame \<open>g1\<close> holding the \<open>vmm_t\<close> and \<open>g2\<close> the root.\<close>

definition fresh_post :: "'a pmm_state_scheme \<Rightarrow> nat \<Rightarrow> nat \<Rightarrow> 'a pmm_state_scheme \<Rightarrow> bool" where
  "fresh_post s g1 g2 t \<longleftrightarrow> pmm_inv t \<and> same_geometry s t \<and> (\<exists>m p. t = s\<lparr>bitmap_prev_index := p, mem := m\<rparr>) \<and>
     own_page t g1 \<and> own_page t g2 \<and> g1 \<noteq> g2 \<and> \<not> own_page s g1 \<and> \<not> own_page s g2 \<and>
     vmm_lock (mem t) (frame_addr s g1) = 0 \<and> vmm_arena (mem t) (frame_addr s g1) = 0 \<and>
     vmm_pml (mem t) (frame_addr s g1) = frame_addr s g2 \<and> (\<forall>x \<in> page_bytes s g2. mem t x = 0) \<and>
     (\<forall>f. own_page s f \<longrightarrow> own_page t f \<and> (\<forall>x \<in> page_bytes s f. mem t x = mem s x)) \<and>
     free_count s = 2 + free_count t"

lemma vmm_fields_disjoint:
  "bytes_of (vmm + 8) 8 \<inter> bytes_of vmm 4 = {}" "bytes_of (vmm + 8) 8 \<inter> bytes_of (vmm + 16) 8 = {}"
  by (simp_all add: bytes_of_4 bytes_of_8 add.assoc)

lemma fresh_second:
  assumes inv: "pmm_inv s" and post1: "alloc_post s g1 1 s1"
    and s2: "s2 = s1\<lparr>mem := m2\<rparr>" "\<And>x. x \<notin> page_bytes s g1 \<Longrightarrow> m2 x = mem s1 x" "\<And>x. x \<in> page_bytes s g1 \<Longrightarrow> m2 x = 0"
    and post2: "alloc_post s2 g2 1 s3"
    and t: "t = s3\<lparr>mem := store64 (store64 (mem s3) (frame_addr s g1 + 8) q) (frame_addr s g1 + 8) (frame_addr s g2)\<rparr>"
  shows "fresh_post s g1 g2 t"
proof -
  let ?vmm = "frame_addr s g1"
  have geo: "same_geometry s s1" and inv1: "pmm_inv s1" using post1 by (simp_all add: alloc_post_def)
  have own1: "own_page s1 g1" by (rule alloc_own [OF inv post1])
  have pb: "page_bytes s1 = page_bytes s" by (rule same_geometry_areas(1) [OF geo])
  have w2: "pmm_inv s2" "own_page s2 g = own_page s1 g" "free_count s2 = free_count s1" for g
    using own_page_write [OF inv1 own1, of m2] s2(2) by (simp_all add: s2(1) pb)
  have ms2: "mem s2 = m2" by (simp add: s2(1))
  have own12: "own_page s2 g1" using own1 w2(2) by simp
  note a2 = own_page_alloc [OF post2]
  have pb2: "page_bytes s2 = page_bytes s" using pb by (simp add: s2(1) page_bytes_def fun_eq_iff)
  have geo3: "same_geometry s2 s3" and inv3: "pmm_inv s3" using post2 by (simp_all add: alloc_post_def)
  have pb3: "page_bytes s3 = page_bytes s" using same_geometry_areas(1) [OF geo3] pb2 by simp
  have own3: "own_page s3 g1" "own_page s3 g2" "g1 \<noteq> g2"
    using a2(1,2) [OF own12] alloc_own [OF w2(1) post2] by auto
  have zero1: "mem s3 x = 0" if "x \<in> page_bytes s g1" for x
    using a2(3) [OF own12, of x] that w2(1) s2(3) by (simp add: pb2 ms2)
  have other: "mem t x = mem s3 x" if "x \<notin> bytes_of (?vmm + 8) 8" for x
    using that by (simp add: t store64_other)
  have out: "mem t x = mem s3 x" if "x \<notin> page_bytes s g1" for x
    using other vmm_fields_bytes(2) [of x s g1] that by blast
  note w3 = own_page_write [OF inv3 own3(1), of "mem t", unfolded pb3, OF out]
  have ts: "s3\<lparr>mem := mem t\<rparr> = t" by (simp add: t)
  obtain m p m' p' where st: "s1 = s\<lparr>bitmap_prev_index := p, mem := m\<rparr>" "s3 = s2\<lparr>bitmap_prev_index := p', mem := m'\<rparr>"
    using post1 post2 unfolding alloc_post_def by blast
  have keep: "own_page t f \<and> (\<forall>x \<in> page_bytes s f. mem t x = mem s x)" if f: "own_page s f" for f
  proof -
    note k1 = own_page_alloc [OF post1 f]
    have f2: "own_page s2 f" using k1(1) w2(2) by simp
    note k2 = own_page_alloc [OF post2 f2]
    have "f \<noteq> g1" using k1(2) by auto
    then have "page_bytes s f \<inter> page_bytes s g1 = {}"
      using f own1 geo by (intro page_bytes_disjoint [OF inv]) (auto simp: own_page_def same_geometry_def)
    then have "mem t x = mem s x" if "x \<in> page_bytes s f" for x
      using that out [of x] k1(3) [OF that inv] k2(3) [of x] w2(1) s2(2) by (auto simp: pb2 ms2)
    then show ?thesis using k2(1) w3(2) ts by simp
  qed
  have disj: "page_bytes s g2 \<inter> page_bytes s g1 = {}"
    using page_bytes_disjoint [OF inv3, of g2 g1] own3 by (auto simp: own_page_def pb3)
  then have zero2: "mem t x = 0" if "x \<in> page_bytes s g2" for x
    using that out [of x] alloc_post_zero [OF post2, of x] pb2 by auto
  have fc: "free_count s = 2 + free_count t"
    using alloc_post_free_count [OF post1] alloc_post_free_count [OF post2] w2(3) w3(3) ts by simp
  have z: "mem t x = 0" if "x \<in> page_bytes s g1" "x \<notin> bytes_of (?vmm + 8) 8" for x
    using that other zero1 by simp
  have lock: "vmm_lock (mem t) ?vmm = 0"
    unfolding vmm_lock_def
    by (rule load32_zero, rule z) (use vmm_fields_disjoint(1) [of ?vmm] vmm_fields_bytes(1) [of _ s g1] in blast)+
  have arena: "vmm_arena (mem t) ?vmm = 0"
    unfolding vmm_arena_def
    by (rule load64_zero, rule z) (use vmm_fields_disjoint(2) [of ?vmm] vmm_fields_bytes(3) [of _ s g1] in blast)+
  have "\<not> own_page s g1" "\<not> own_page s g2"
    using own_page_alloc(2) [OF post1] own_page_alloc(1,2) [OF post1, of g2] a2(2) [of g2] w2(2) by fastforce+
  moreover have "\<exists>m p. t = s\<lparr>bitmap_prev_index := p, mem := m\<rparr>"
    by (intro exI [of _ "mem t"] exI [of _ p']) (simp add: t st s2(1))
  moreover have "same_geometry s t" "vmm_pml (mem t) ?vmm = frame_addr s g2"
    by (simp_all add: t st s2(1) vmm_pml_def same_geometry_def)
  moreover have "pmm_inv t" "own_page t g1" "own_page t g2" using w3(1,2) own3(1,2) by (simp_all add: ts)
  ultimately show ?thesis
    unfolding fresh_post_def using own3(3) lock arena zero2 keep fc by blast
qed

lemma vmm_fresh_cases:
  assumes inv: "pmm_inv s"
  shows "(\<exists>g1 g2 t. vmm_fresh s = Inr (frame_addr s g1, t) \<and> fresh_post s g1 g2 t) \<or>
    vmm_fresh s = Inl (Panic ''PMM_ALLOC: failed to allocate memory'') \<and> free_count s < 2"
  using pmm_alloc_1_cases [OF inv]
proof (elim disjE exE conjE)
  fix g1 s1 assume a1: "pmm_alloc 1 s = Inr (of_nat g1 * PAGE_SIZE, s1)" and post1: "alloc_post s g1 1 s1"
  let ?vmm = "frame_addr s g1"
  have geo: "same_geometry s s1" and inv1: "pmm_inv s1" using post1 by (simp_all add: alloc_post_def)
  have v: "of_nat g1 * PAGE_SIZE + get_hhdm s1 = ?vmm"
    using geo by (simp add: get_hhdm_def frame_addr_def same_geometry_def)
  define m2 where "m2 = store32 (store64 (mem s1) (?vmm + 16) 0) ?vmm SPINLOCK_INIT"
  have m2: "m2 x = mem s1 x" if "x \<notin> page_bytes s g1" for x
    using that vmm_fields_bytes(1,3) [of x s g1] unfolding m2_def by (metis store32_other store64_other)
  have z: "m2 x = 0" if "x \<in> page_bytes s g1" for x
    using alloc_post_zero [OF post1 that]
    by (simp add: m2_def store32_def store64_def SPINLOCK_INIT_def)
  have own1: "own_page s1 g1" by (rule alloc_own [OF inv post1])
  have pb: "page_bytes s1 = page_bytes s" by (rule same_geometry_areas(1) [OF geo])
  let ?s2 = "s1\<lparr>mem := m2\<rparr>"
  have inv2: "pmm_inv ?s2" and fc2: "free_count ?s2 = free_count s1"
    using own_page_write [OF inv1 own1, of m2] m2 by (simp_all add: pb)
  have run: "vmm_fresh s = bindE (pmm_alloc 1 ?s2) (\<lambda>(p, s).
      let s = s\<lparr>mem := store64 (mem s) (?vmm + 8) p\<rparr>;
          s = s\<lparr>mem := store64 (mem s) (?vmm + 8) (vmm_pml (mem s) ?vmm + get_hhdm s)\<rparr>
      in Inr (?vmm, s))"
    by (simp add: vmm_fresh_def a1 v m2_def Let_def)
  from pmm_alloc_1_cases [OF inv2] show ?thesis
  proof (elim disjE exE conjE)
    fix g2 s3 assume a2: "pmm_alloc 1 ?s2 = Inr (of_nat g2 * PAGE_SIZE, s3)" and post2: "alloc_post ?s2 g2 1 s3"
    have "of_nat g2 * PAGE_SIZE + get_hhdm s3 = frame_addr s g2"
      using geo post2 by (simp add: get_hhdm_def frame_addr_def same_geometry_def alloc_post_def)
    then have "vmm_fresh s = Inr (?vmm, s3\<lparr>mem := store64 (store64 (mem s3) (?vmm + 8) (of_nat g2 * PAGE_SIZE))
        (?vmm + 8) (frame_addr s g2)\<rparr>)"
      by (simp add: run a2 Let_def vmm_pml_def get_hhdm_def)
    then show ?thesis using fresh_second [OF inv post1 refl m2 z post2 refl] by blast
  next
    assume "pmm_alloc 1 ?s2 = Inl (Panic ''PMM_ALLOC: failed to allocate memory'')" "free_count ?s2 = 0"
    then show ?thesis using run fc2 alloc_post_free_count [OF post1] by simp
  qed
qed (simp add: vmm_fresh_def)

lemma fresh_post_ok:
  assumes "fresh_post s g1 g2 t"
  shows "vmm_ok t (frame_addr s g1)" and "page_entry t (frame_addr s g1) = (\<lambda>_. 0)"
    and "vmm_at t (frame_addr s g1) (frame_addr s g2) g1"
proof -
  have geo: "same_geometry s t" and inv: "pmm_inv t" and own: "own_page t g1" "own_page t g2" "g1 \<noteq> g2"
    and pml: "vmm_pml (mem t) (frame_addr s g1) = frame_addr s g2"
    using assms by (simp_all add: fresh_post_def)
  have fr: "frame_addr t = frame_addr s" using geo by (simp add: same_geometry_def frame_addr_def fun_eq_iff)
  have pb: "page_bytes t = page_bytes s" by (rule same_geometry_areas(1) [OF geo])
  have zero: "\<forall>x \<in> page_bytes t g2. mem t x = 0" using assms by (simp add: fresh_post_def pb)
  note root = empty_root [OF inv own(2) zero, unfolded fr]
  show at: "vmm_at t (frame_addr s g1) (frame_addr s g2) g1"
    using inv own root(2) root(3) [OF own(1)] pml by (simp add: vmm_at_def fr)
  then show "vmm_ok t (frame_addr s g1)" using assms by (auto simp: vmm_ok_def fresh_post_def)
  show "page_entry t (frame_addr s g1) = (\<lambda>_. 0)"
    using root(4) by (simp add: page_entry_def pml fun_eq_iff lvl_offset_bound)
qed

subsection \<open>Start-up\<close>

lemma alloc_higher_half_cases:
  assumes "vmm_at s vmm pml fv" and "i \<le> 512"
  shows "(\<exists>t. alloc_higher_half i vmm s = Inr t \<and> pt_ext s pml t \<and> free_count s \<le> (512 - unat i) + free_count t) \<or>
    alloc_higher_half i vmm s = Inl (Panic ''PMM_ALLOC: failed to allocate memory'') \<and> free_count s < 512 - unat i"
  using assms
proof (induction "512 - unat i" arbitrary: i s)
  case 0
  then have "\<not> i < 512" by (simp add: word_less_nat_alt)
  then have "alloc_higher_half i vmm s = Inr s" by (simp add: alloc_higher_half.simps [of i vmm s])
  moreover have "pt_ext s pml s" using 0 by (intro pt_ext_refl) (simp_all add: vmm_at_def)
  ultimately show ?case by auto
next
  case (Suc n)
  then have lt: "i < 512" by (simp add: word_less_nat_alt)
  have inv: "pmm_inv s" "pt_inv s pml" using Suc.prems by (simp_all add: vmm_at_def)
  have inc: "unat (i + 1) = Suc (unat i)" by (rule unat_inc [OF lt])
  have path: "[] @ [i] \<in> table_paths" using lt by (simp add: table_paths_def)
  note root = vmm_at_pml [OF Suc.prems(1)]
  show ?case
  proof (cases "walk_pte pml i True s")
    case (Inl e)
    then show ?thesis
      using walk_pte_error [OF inv(1) Inl] lt root Suc.hyps(2) by (simp add: alloc_higher_half.simps [of i])
  next
    case (Inr r)
    then obtain l u where r: "walk_pte pml i True s = Inr (l, u)" by (cases r) auto
    note st = pt_ext_refl [OF inv] path table_at.simps(1) r
    note w = walk_pte_step [OF st] and c = walk_pte_step_count [OF st]
    have eq: "alloc_higher_half i vmm s = alloc_higher_half (i + 1) vmm u"
      using lt root r w(3) by (simp add: alloc_higher_half.simps [of i])
    have "(\<exists>t. alloc_higher_half (i + 1) vmm u = Inr t \<and> pt_ext u pml t \<and>
        free_count u \<le> (512 - unat (i + 1)) + free_count t) \<or>
      alloc_higher_half (i + 1) vmm u = Inl (Panic ''PMM_ALLOC: failed to allocate memory'') \<and>
        free_count u < 512 - unat (i + 1)"
      by (rule Suc.hyps(1))
        (use Suc.hyps(2) inc vmm_at_ext(1) [OF Suc.prems(1) w(1)] lt in \<open>auto simp: word_le_nat_alt word_less_nat_alt\<close>)
    then show ?thesis using eq c inc Suc.hyps(2) pt_ext_trans [OF w(1)] by auto
  qed
qed

primrec foldE :: "('i \<Rightarrow> 's \<Rightarrow> 's result) \<Rightarrow> 'i list \<Rightarrow> 's \<Rightarrow> 's result" where
  "foldE body [] s = Inr s"
| "foldE body (i # is) s = bindE (body i s) (foldE body is)"

lemma foldE_append: "foldE body (xs @ ys) s = bindE (foldE body xs s) (foldE body ys)"
  by (induction xs arbitrary: s) (auto simp: bindE_def split: sum.splits)

definition page_list :: "u64 \<Rightarrow> u64 \<Rightarrow> u64 list" where
  "page_list start stop = map (\<lambda>n. of_nat n * PAGE_SIZE) [unat start div 4096..<unat stop div 4096]"

lemma for_pages_foldE:
  assumes "unat stop = 4096 * b" and "unat i = 4096 * a"
  shows "for_pages stop body i s = Some (foldE body (map (\<lambda>n. of_nat n * PAGE_SIZE) [a..<b]) s)"
  using assms(2)
proof (induction "b - a" arbitrary: a i s)
  case 0
  then have "\<not> i < stop" using assms(1) by (simp add: word_less_nat_alt)
  then show ?case using 0 by (simp add: for_pages.simps [of stop body i])
next
  case (Suc n)
  then have ab: "a < b" and lt: "i < stop" using assms(1) by (simp_all add: word_less_nat_alt)
  have bb: "4096 * b < 2 ^ 64" using assms(1) unat_bound [of stop] by simp
  have i: "i = of_nat a * PAGE_SIZE"
    using Suc.prems ab bb by (simp add: word_unat_eq_iff unat_mult_small)
  have next_i: "unat (i + PAGE_SIZE) = 4096 * Suc a"
    using Suc.prems ab bb by (subst unat_add_small) simp_all
  have "[a..<b] = a # [Suc a..<b]" using ab by (simp add: upt_conv_Cons)
  moreover have "for_pages stop body (i + PAGE_SIZE) t =
      Some (foldE body (map (\<lambda>n. of_nat n * PAGE_SIZE) [Suc a..<b]) t)" for t
    by (rule Suc.hyps(1)) (use Suc.hyps(2) next_i in auto)
  ultimately show ?case
    using lt by (cases "body i s") (simp_all add: for_pages.simps [of stop body i s] i [symmetric] del: upt_Suc)
qed

lemma ALIGN_multiple: "4096 dvd unat (ALIGN_UP v PAGE_SIZE)" "4096 dvd unat (ALIGN_DOWN v PAGE_SIZE)"
proof -
  have "4096 dvd unat (x * PAGE_SIZE)" for x :: u64
  proof -
    have "unat (x * PAGE_SIZE) = unat x * 4096 mod 2 ^ 64" by (simp add: unat_word_ariths)
    moreover have "4096 dvd unat x * 4096 mod 2 ^ 64" by (rule dvd_mod) simp_all
    ultimately show ?thesis by simp
  qed
  then show "4096 dvd unat (ALIGN_UP v PAGE_SIZE)" "4096 dvd unat (ALIGN_DOWN v PAGE_SIZE)"
    unfolding ALIGN_UP_def ALIGN_DOWN_def by blast+
qed

lemma run_pages_foldE:
  assumes "4096 dvd unat start" and "4096 dvd unat stop"
  shows "run_pages start stop body s = foldE body (page_list start stop) s"
proof -
  obtain a b where "unat start = 4096 * a" "unat stop = 4096 * b" using assms by (elim dvdE)
  then show ?thesis by (simp add: run_pages_def for_pages_foldE page_list_def)
qed

lemma map_or_panic_eq:
  assumes "vmm_ok s vmm"
  shows "map_or_panic msg vmm v p f s = bindE (vmm_map_page vmm v p f s) (\<lambda>r. Inr (snd r))"
  using vmm_map_page_refines [OF assms, of v p f] by (auto simp: map_or_panic_def)

lemma map_all_append: "map_all mop (xs @ ys) s = bindE (map_all mop xs s) (map_all mop ys)"
  by (induction mop xs s rule: map_all.induct) (auto simp: bindE_assoc bindE_def split: sum.split)

text \<open>Each loop of start-up maps a list of pages.\<close>

lemma section_map_all:
  assumes "vmm_ok s vmm"
  shows "foldE (map_section msg vmm k f) is s =
    map_all (vmm_map_page vmm) (map (\<lambda>i. (i, i - virtual_base k + physical_base k, f)) is) s"
  using assms
proof (induction "is" arbitrary: s)
  case (Cons i "is")
  from vmm_map_page_refines [OF Cons.prems, of i "i - virtual_base k + physical_base k" f] show ?case
    using Cons.IH by (auto simp: map_section_def map_or_panic_eq [OF Cons.prems])
qed simp

definition low_mappings :: "u64 \<Rightarrow> u64 \<Rightarrow> (u64 \<times> u64 \<times> u64) list" where
  "low_mappings H i = [(i, i, PTE_PRESENT OR PTE_WRITABLE),
     (i + H, i, PTE_PRESENT OR PTE_WRITABLE OR PTE_NO_EXECUTE)]"

lemma low_map_all:
  assumes "vmm_ok s vmm" and "hhdm_offset s = H"
  shows "foldE (map_low_page vmm) is s = map_all (vmm_map_page vmm) (concat (map (low_mappings H) is)) s"
  using assms
proof (induction "is" arbitrary: s)
  case (Cons i "is")
  have step: "map_low_page vmm i s = map_all (vmm_map_page vmm) (low_mappings H i) s"
    if "vmm_ok s vmm" "hhdm_offset s = H" for s :: "'a pmm_state_scheme"
    using that vmm_map_page_refines [OF that(1), of i i "PTE_PRESENT OR PTE_WRITABLE"]
    by (auto simp: map_low_page_def low_mappings_def map_or_panic_eq get_hhdm_def static_part_def)
  have "vmm_ok t vmm \<and> hhdm_offset t = H" if "map_all (vmm_map_page vmm) (low_mappings H i) s = Inr t" for t
    using vm.map_all_ok [OF Cons.prems(1), of "low_mappings H i"] that Cons.prems(2) by (auto simp: static_part_def)
  then show ?case
    using step [OF Cons.prems] Cons.IH
    by (cases "map_all (vmm_map_page vmm) (low_mappings H i) s") (auto simp: map_all_append)
qed simp

text \<open>Everything start-up maps, in order.\<close>

definition kernel_mappings :: "u64 \<Rightarrow> kernel_layout \<Rightarrow> (u64 \<times> u64 \<times> u64) list" where
  "kernel_mappings H k =
     map (\<lambda>i. (i, i - virtual_base k + physical_base k, PTE_PRESENT))
       (page_list (ALIGN_DOWN (text_start_addr k) PAGE_SIZE) (ALIGN_UP (text_end_addr k) PAGE_SIZE)) @
     map (\<lambda>i. (i, i - virtual_base k + physical_base k, PTE_PRESENT OR PTE_NO_EXECUTE))
       (page_list (ALIGN_DOWN (rodata_start_addr k) PAGE_SIZE) (ALIGN_UP (rodata_end_addr k) PAGE_SIZE)) @
     map (\<lambda>i. (i, i - virtual_base k + physical_base k, PTE_PRESENT OR PTE_WRITABLE OR PTE_NO_EXECUTE))
       (page_list (ALIGN_DOWN (data_start_addr k) PAGE_SIZE) (ALIGN_UP (data_end_addr k) PAGE_SIZE)) @
     concat (map (low_mappings H) (page_list 0x1000 0x100000000))"

lemma map_all_keeps:
  assumes "vmm_ok s vmm" and "map_all (vmm_map_page vmm) xs s = Inr t"
  shows "vmm_ok t vmm" and "static_part t = static_part s"
  using vm.map_all_ok [OF assms(1), of xs] assms(2) by auto

lemma bindE_map_all_append:
  assumes "vmm_ok s vmm"
    and "\<And>t. vmm_ok t vmm \<Longrightarrow> static_part t = static_part s \<Longrightarrow> F t = bindE (map_all (vmm_map_page vmm) ys t) G"
  shows "bindE (map_all (vmm_map_page vmm) xs s) F = bindE (map_all (vmm_map_page vmm) (xs @ ys) s) G"
proof (cases "map_all (vmm_map_page vmm) xs s")
  case (Inr t)
  then show ?thesis using assms(2) map_all_keeps [OF assms(1) Inr] by (simp add: map_all_append)
qed (simp add: map_all_append)

lemma kernel_sections_map_all:
  fixes s :: "'a vmm_state_scheme"
  assumes ok: "vmm_ok s vmm" and H: "hhdm_offset s = H"
  shows "bindE (run_pages (ALIGN_DOWN (text_start_addr k) PAGE_SIZE) (ALIGN_UP (text_end_addr k) PAGE_SIZE)
       (map_section m1 vmm k PTE_PRESENT) s) (\<lambda>s.
     bindE (run_pages (ALIGN_DOWN (rodata_start_addr k) PAGE_SIZE) (ALIGN_UP (rodata_end_addr k) PAGE_SIZE)
       (map_section m2 vmm k (PTE_PRESENT OR PTE_NO_EXECUTE)) s) (\<lambda>s.
     bindE (run_pages (ALIGN_DOWN (data_start_addr k) PAGE_SIZE) (ALIGN_UP (data_end_addr k) PAGE_SIZE)
       (map_section m3 vmm k (PTE_PRESENT OR PTE_WRITABLE OR PTE_NO_EXECUTE)) s) (\<lambda>s.
     bindE (run_pages 0x1000 0x100000000 (map_low_page vmm) s) F))) =
   bindE (map_all (vmm_map_page vmm) (kernel_mappings H k) s) F"
proof -
  have dvd: "4096 dvd unat (0x1000 :: u64)" "4096 dvd unat (0x100000000 :: u64)"
    by (simp_all add: dvd_eq_mod_eq_0)
  note run = run_pages_foldE [OF ALIGN_multiple(2) ALIGN_multiple(1)] run_pages_foldE [OF dvd]
  have sec: "run_pages (ALIGN_DOWN a PAGE_SIZE) (ALIGN_UP b PAGE_SIZE) (map_section msg vmm k f) t =
      map_all (vmm_map_page vmm) (map (\<lambda>i. (i, i - virtual_base k + physical_base k, f))
        (page_list (ALIGN_DOWN a PAGE_SIZE) (ALIGN_UP b PAGE_SIZE))) t"
    if "vmm_ok t vmm" for t :: "'a vmm_state_scheme" and a b msg f
    by (simp only: run(1) section_map_all [OF that])
  let ?low = "\<lambda>s. bindE (run_pages 0x1000 0x100000000 (map_low_page vmm) s) F"
  let ?data = "\<lambda>s. bindE (run_pages (ALIGN_DOWN (data_start_addr k) PAGE_SIZE) (ALIGN_UP (data_end_addr k) PAGE_SIZE)
       (map_section m3 vmm k (PTE_PRESENT OR PTE_WRITABLE OR PTE_NO_EXECUTE)) s) ?low"
  let ?D = "concat (map (low_mappings H) (page_list 0x1000 0x100000000))"
  let ?C = "map (\<lambda>i. (i, i - virtual_base k + physical_base k, PTE_PRESENT OR PTE_WRITABLE OR PTE_NO_EXECUTE))
       (page_list (ALIGN_DOWN (data_start_addr k) PAGE_SIZE) (ALIGN_UP (data_end_addr k) PAGE_SIZE))"
  have low: "?low t = bindE (map_all (vmm_map_page vmm) ?D t) F"
    if "vmm_ok t vmm" "static_part t = static_part s" for t
    using that H by (simp add: run low_map_all static_part_def)
  have data: "?data t = bindE (map_all (vmm_map_page vmm) (?C @ ?D) t) F"
    if "vmm_ok t vmm" "static_part t = static_part s" for t
    unfolding sec [OF that(1)] by (rule bindE_map_all_append [OF that(1)]) (simp only: low that)
  show ?thesis
    unfolding kernel_mappings_def sec [OF ok]
  proof (rule bindE_map_all_append [OF ok])
    fix t assume t: "vmm_ok t vmm" "static_part t = static_part s"
    show "bindE (run_pages (ALIGN_DOWN (rodata_start_addr k) PAGE_SIZE) (ALIGN_UP (rodata_end_addr k) PAGE_SIZE)
        (map_section m2 vmm k (PTE_PRESENT OR PTE_NO_EXECUTE)) t) ?data =
      bindE (map_all (vmm_map_page vmm) (map (\<lambda>i. (i, i - virtual_base k + physical_base k, PTE_PRESENT OR PTE_NO_EXECUTE))
        (page_list (ALIGN_DOWN (rodata_start_addr k) PAGE_SIZE) (ALIGN_UP (rodata_end_addr k) PAGE_SIZE)) @ ?C @ ?D) t) F"
      unfolding sec [OF t(1)] by (rule bindE_map_all_append [OF t(1)]) (simp only: data t)
  qed
qed

text \<open>The kernel's pointer to its address space and \<open>cr3\<close> are no part of what the invariants speak about.\<close>

lemma vmm_kernel_update [simp]:
  fixes s :: "'a vmm_state_scheme"
  shows "pmm_inv (s\<lparr>vmm_kernel := v\<rparr>) = pmm_inv s" and "own_page (s\<lparr>vmm_kernel := v\<rparr>) = own_page s"
    and "frame_addr (s\<lparr>vmm_kernel := v\<rparr>) = frame_addr s" and "free_count (s\<lparr>vmm_kernel := v\<rparr>) = free_count s"
    and "is_table (s\<lparr>vmm_kernel := v\<rparr>) = is_table s" and "page_bytes (s\<lparr>vmm_kernel := v\<rparr>) = page_bytes s"
    and "page_entry (s\<lparr>vmm_kernel := v\<rparr>) = page_entry s" and "pt_inv (s\<lparr>vmm_kernel := v\<rparr>) = pt_inv s"
  by (simp_all add: pmm_inv_def pt_inv_def own_page_def is_table_def frame_addr_def free_count_def
      page_used_def page_bytes_def bitmap_area_def page_entry_def fun_eq_iff)

lemma vmm_at_kernel_update [simp]:
  fixes s :: "'a vmm_state_scheme"
  shows "vmm_at (s\<lparr>vmm_kernel := v\<rparr>) = vmm_at s" and "vmm_ok (s\<lparr>vmm_kernel := v\<rparr>) = vmm_ok s"
  by (simp_all add: vmm_at_def vmm_ok_def fun_eq_iff)

lemma vmm_cr3_update [simp]:
  fixes s :: "'a vmm_state_scheme"
  shows "pmm_inv (s\<lparr>cr3 := v\<rparr>) = pmm_inv s" and "own_page (s\<lparr>cr3 := v\<rparr>) = own_page s"
    and "frame_addr (s\<lparr>cr3 := v\<rparr>) = frame_addr s" and "free_count (s\<lparr>cr3 := v\<rparr>) = free_count s"
    and "is_table (s\<lparr>cr3 := v\<rparr>) = is_table s" and "page_bytes (s\<lparr>cr3 := v\<rparr>) = page_bytes s"
    and "page_entry (s\<lparr>cr3 := v\<rparr>) = page_entry s" and "pt_inv (s\<lparr>cr3 := v\<rparr>) = pt_inv s"
  by (simp_all add: pmm_inv_def pt_inv_def own_page_def is_table_def frame_addr_def free_count_def
      page_used_def page_bytes_def bitmap_area_def page_entry_def fun_eq_iff)

lemma vmm_at_cr3_update [simp]:
  fixes s :: "'a vmm_state_scheme"
  shows "vmm_at (s\<lparr>cr3 := v\<rparr>) = vmm_at s" and "vmm_ok (s\<lparr>cr3 := v\<rparr>) = vmm_ok s"
  by (simp_all add: vmm_at_def vmm_ok_def fun_eq_iff)

lemma more_vmm_kernel: "pmm_state.more t = pmm_state.more u \<Longrightarrow> vmm_kernel t = vmm_kernel u"
  for t u :: "'a vmm_state_scheme"
  by (cases t; cases u) simp

definition mapped_entries :: "(u64 \<times> u64 \<times> u64) list \<Rightarrow> (u64 \<times> u64) list" where
  "mapped_entries xs = map (\<lambda>(v, p, f). (v, p OR f)) xs"

lemma present_flags: "b AND PTE_PRESENT \<noteq> 0 \<Longrightarrow> (a OR b) AND PTE_PRESENT \<noteq> 0"
proof -
  assume "b AND PTE_PRESENT \<noteq> 0"
  moreover have "x AND PTE_PRESENT \<noteq> 0 \<longleftrightarrow> odd x" for x :: u64
    by (simp add: PTE_PRESENT_def and_one_eq odd_iff_mod_2_eq_one)
  ultimately show ?thesis by (simp add: even_or_iff)
qed

lemma mapped_present:
  assumes "(v, e) \<in> set (mapped_entries (kernel_mappings H k))"
  shows "e AND PTE_PRESENT \<noteq> 0"
proof -
  obtain p f where f: "(v, p, f) \<in> set (kernel_mappings H k)" "e = p OR f"
    using assms by (auto simp: mapped_entries_def)
  have "f \<in> {PTE_PRESENT, PTE_PRESENT OR PTE_NO_EXECUTE, PTE_PRESENT OR PTE_WRITABLE OR PTE_NO_EXECUTE,
      PTE_PRESENT OR PTE_WRITABLE}"
    using f(1) by (auto simp: kernel_mappings_def low_mappings_def)
  then have "f AND PTE_PRESENT \<noteq> 0"
    by (auto simp: PTE_PRESENT_def PTE_WRITABLE_def PTE_NO_EXECUTE_def)
  then show ?thesis unfolding f(2) by (rule present_flags)
qed

lemma find_mapped:
  "find (\<lambda>(v, e). same_page w v) (mapped_entries xs) =
     map_option (\<lambda>(v, p, f). (v, p OR f)) (find (\<lambda>(v, p, f). same_page w v) xs)"
  by (induction xs) (auto simp: mapped_entries_def)

lemma higher_half_ok:
  assumes at: "vmm_at s vmm pml fv" and lock: "vmm_lock (mem s) vmm = 0" and ext: "pt_ext s pml t"
  shows "vmm_ok t vmm" and "page_entry t vmm = page_entry s vmm"
proof -
  note at_t = vmm_at_ext [OF at ext]
  have "entry_update s vmm 0 (page_entry s vmm 0) t"
    using entry_update_intro [OF at at_t(1)] at_t(2) lock leaf_is_ext [OF at ext] by simp
  then show "vmm_ok t vmm" and "page_entry t vmm = page_entry s vmm"
    by (simp add: entry_update_def) (rule entry_update_keep [OF \<open>entry_update s vmm 0 (page_entry s vmm 0) t\<close>])
qed

lemma vmm_init_cases:
  fixes s :: "'a vmm_state_scheme"
  assumes inv: "pmm_inv s"
  shows "(\<exists>t. vmm_init k s = Inr t \<and> vmm_ok t (vmm_kernel t) \<and> hhdm_offset t = hhdm_offset s \<and>
      free_count s \<le> 258 + 3 * length (kernel_mappings (hhdm_offset s) k) + free_count t \<and>
      cr3 t = vmm_pml (mem t) (vmm_kernel t) - hhdm_offset s \<and>
      page_entry t (vmm_kernel t) = map_list (mapped_entries (kernel_mappings (hhdm_offset s) k)) (\<lambda>_. 0)) \<or>
    vmm_init k s = Inl (Panic ''PMM_ALLOC: failed to allocate memory'') \<and>
      free_count s < 258 + 3 * length (kernel_mappings (hhdm_offset s) k)"
  using vmm_fresh_cases [OF inv]
proof (elim disjE exE conjE)
  fix g1 g2 t0 assume run0: "vmm_fresh s = Inr (frame_addr s g1, t0)" and post: "fresh_post s g1 g2 t0"
  let ?vmm = "frame_addr s g1" and ?pml = "frame_addr s g2" and ?M = "kernel_mappings (hhdm_offset s) k"
  let ?t1 = "t0\<lparr>vmm_kernel := ?vmm\<rparr>"
  note fresh = fresh_post_ok [OF post]
  have H0: "hhdm_offset t0 = hhdm_offset s" and fc0: "free_count s = 2 + free_count t0"
    using post by (simp_all add: fresh_post_def same_geometry_def)
  have at1: "vmm_at ?t1 ?vmm ?pml g1" and lock1: "vmm_lock (mem ?t1) ?vmm = 0"
    using fresh by (simp_all add: vmm_ok_def)
  have "(256 :: u64) \<le> 512" by simp
  from alloc_higher_half_cases [OF at1 this] show ?thesis
  proof (elim disjE exE conjE)
    fix t2 assume run2: "alloc_higher_half 256 ?vmm ?t1 = Inr t2" and ext: "pt_ext ?t1 ?pml t2"
      and fc2: "free_count ?t1 \<le> 512 - unat (256 :: u64) + free_count t2"
    note ok2 = higher_half_ok [OF at1 lock1 ext]
    have st: "static_part t2 = static_part ?t1" by (rule pt_ext_static [OF ext])
    then have H2: "hhdm_offset t2 = hhdm_offset s" using H0 by (simp add: static_part_def)
    have pe2: "page_entry t2 ?vmm = (\<lambda>_. 0)" using ok2(2) fresh(2) by simp
    have run: "vmm_init k s = bindE (map_all (vmm_map_page ?vmm) ?M t2) (\<lambda>s. Inr (vmm_switch_pml ?vmm s))"
      by (simp add: vmm_init_def run0 Let_def run2 kernel_sections_map_all [OF ok2(1) H2])
    from vm.map_all_ok [OF ok2(1), of ?M] show ?thesis
    proof (elim disjE exE conjE)
      fix t assume t: "map_all (vmm_map_page ?vmm) ?M t2 = Inr t" "vmm_ok t ?vmm"
        "page_entry t ?vmm = map_list (map (\<lambda>(v, p, f). (v, p OR f)) ?M) (page_entry t2 ?vmm)"
        "static_part t = static_part t2" "free_count t2 \<le> 3 * length ?M + free_count t"
      then have "vmm_kernel t = ?vmm" "hhdm_offset t = hhdm_offset s"
        using st H2 more_vmm_kernel [of t ?t1] by (simp_all add: static_part_def)
      then show ?thesis
        using run t pe2 fc0 fc2 by (simp add: mapped_entries_def vmm_switch_pml_def get_hhdm_def)
    next
      assume "map_all (vmm_map_page ?vmm) ?M t2 = Inl (Panic ''PMM_ALLOC: failed to allocate memory'')"
        "free_count t2 < 3 * length ?M"
      then show ?thesis using run fc0 fc2 by simp
    qed
  next
    assume "alloc_higher_half 256 ?vmm ?t1 = Inl (Panic ''PMM_ALLOC: failed to allocate memory'')"
      "free_count ?t1 < 512 - unat (256 :: u64)"
    then show ?thesis using run0 fc0 by (simp add: vmm_init_def Let_def)
  qed
qed (simp add: vmm_init_def)

subsection \<open>A new address space\<close>

text \<open>Pages outside the tree and the \<open>vmm_t\<close> are left alone by a mapping.\<close>

definition other_page :: "'a pmm_state_scheme \<Rightarrow> u64 \<Rightarrow> nat \<Rightarrow> nat \<Rightarrow> bool" where
  "other_page s pml fv f \<longleftrightarrow> own_page s f \<and> \<not> is_table s pml f \<and> f \<noteq> fv"

definition page_kept :: "'a pmm_state_scheme \<Rightarrow> u64 \<Rightarrow> nat \<Rightarrow> nat \<Rightarrow> 'a pmm_state_scheme \<Rightarrow> bool" where
  "page_kept s pml fv f t \<longleftrightarrow> other_page t pml fv f \<and> page_bytes t = page_bytes s \<and>
     (\<forall>x \<in> page_bytes s f. mem t x = mem s x)"

lemma page_kept_trans: "page_kept s pml fv f t \<Longrightarrow> page_kept t pml fv f u \<Longrightarrow> page_kept s pml fv f u"
  by (simp add: page_kept_def)

text \<open>A write into page \<open>g\<close> that leaves the tree alone.\<close>

lemma page_kept_write:
  assumes "pmm_inv s" and "own_page s g" and "f \<noteq> g" and "other_page s pml fv f"
    and m: "\<And>x. x \<notin> page_bytes s g \<Longrightarrow> m x = mem s x"
    and tree: "\<And>is. is \<in> table_paths \<Longrightarrow> table_at m (hhdm_offset s) pml is = table_at (mem s) (hhdm_offset s) pml is"
  shows "page_kept s pml fv f (s\<lparr>mem := m\<rparr>)"
proof -
  have "page_bytes s f \<inter> page_bytes s g = {}"
    using assms(2-4) by (intro page_bytes_disjoint [OF assms(1)]) (auto simp: own_page_def other_page_def)
  then have "m x = mem s x" if "x \<in> page_bytes s f" for x using m that by blast
  moreover have "own_page (s\<lparr>mem := m\<rparr>) f" "\<not> is_table (s\<lparr>mem := m\<rparr>) pml f"
    using own_page_write(2) [OF assms(1,2) m] assms(4) tree by (auto simp: other_page_def is_table_def frame_addr_def)
  ultimately show ?thesis
    using assms(4) by (simp add: page_kept_def other_page_def page_bytes_def fun_eq_iff)
qed

lemma page_kept_lock:
  assumes "vmm_at s vmm pml fv" and "other_page s pml fv f"
  shows "page_kept s pml fv f (s\<lparr>mem := store32 (mem s) vmm l\<rparr>)"
proof (rule page_kept_write [OF _ _ _ assms(2)])
  show "pmm_inv s" "own_page s fv" "f \<noteq> fv" using assms by (simp_all add: vmm_at_def other_page_def)
  show "store32 (mem s) vmm l x = mem s x" if "x \<notin> page_bytes s fv" for x
    using that assms(1) vmm_fields_bytes(1) [of x s fv] by (auto simp: vmm_at_def intro!: store32_other)
  show "table_at (store32 (mem s) vmm l) (hhdm_offset s) pml is = table_at (mem s) (hhdm_offset s) pml is"
    if "is \<in> table_paths" for "is"
    using vmm_lock_write(2) [OF assms(1), of l] that by (simp add: same_tree_def)
qed

lemma page_kept_ext: "pt_ext s pml t \<Longrightarrow> other_page s pml fv f \<Longrightarrow> page_kept s pml fv f t"
  using pt_extD(5,8,9) [of s pml t f] same_geometry_areas(1) [OF pt_extD(3)]
  by (auto simp: page_kept_def other_page_def)

lemma page_kept_leaf:
  assumes at: "vmm_at u vmm pml fv" and l: "table_at (mem u) (hhdm_offset u) pml (vpath virt) = Some l"
    and f: "other_page u pml fv f"
  shows "page_kept u pml fv f (u\<lparr>mem := store64 (mem u) (pte_addr l (lvl_offset 12 virt)) e\<rparr>)"
proof -
  have inv: "pmm_inv u" "pt_inv u pml" using at by (simp_all add: vmm_at_def)
  obtain g where g: "own_page u g" "l = frame_addr u g" "is_table u pml g"
    using pt_invD [OF inv(2) vpath_in_paths(1) l] by blast
  have "f \<noteq> g" using f g(3) by (auto simp: other_page_def)
  show ?thesis
  proof (rule page_kept_write [OF inv(1) g(1) \<open>f \<noteq> g\<close> f])
    show "store64 (mem u) (pte_addr l (lvl_offset 12 virt)) e x = mem u x" if "x \<notin> page_bytes u g" for x
      using that entry_in_page [OF lvl_offset_bound] g(2) by (intro store64_other) blast
    show "table_at (store64 (mem u) (pte_addr l (lvl_offset 12 virt)) e) (hhdm_offset u) pml is =
        table_at (mem u) (hhdm_offset u) pml is" if "is \<in> table_paths" for "is"
      using leaf_write(4) [OF at vpath_in_paths lvl_offset_bound l that] by simp
  qed
qed

lemma vmm_map_page_kept:
  assumes at: "vmm_at s vmm pml fv" and lock: "vmm_lock (mem s) vmm = 0"
    and run: "vmm_map_page vmm virt physical flags s = Inr (b, t)"
  shows "vmm_at t vmm pml fv" and "other_page s pml fv f \<Longrightarrow> page_kept s pml fv f t"
proof -
  let ?s1 = "s\<lparr>mem := store32 (mem s) vmm 1\<rparr>"
  note w1 = vmm_lock_write [OF at, of 1]
  have inv1: "pmm_inv ?s1" "pt_inv ?s1 pml" using w1(1) by (simp_all add: vmm_at_def)
  obtain l u where r: "vmm_walk pml virt True ?s1 = Inr (l, u)"
    using run vmm_at_pml [OF w1(1)] by (auto simp: vmm_map_page_def vmm_acquire_ok [OF lock] bindE_eq_Inr)
  note ext = vmm_walk_ext [OF inv1 r]
  note at_u = vmm_at_ext(1) [OF w1(1) ext(1)]
  let ?w = "\<lambda>e. u\<lparr>mem := store64 (mem u) (pte_addr l (lvl_offset 12 virt)) e\<rparr>"
  have at_w: "vmm_at (?w e) vmm pml fv" for e by (rule walked_entry(2) [OF w1(1) ext(1,2)])
  have t: "t = vmm_release vmm u \<or> (\<exists>e. t = vmm_release vmm (?w e))"
    using run r ext(3) vmm_at_pml [OF w1(1)]
    by (auto simp: vmm_map_page_def vmm_acquire_ok [OF lock] Let_def split: if_splits)
  then show "vmm_at t vmm pml fv"
    using vmm_lock_write(1) [OF at_u, of 0] vmm_lock_write(1) [OF at_w, where l = 0] by (auto simp: vmm_release_eq)
  assume f: "other_page s pml fv f"
  have k1: "page_kept s pml fv f ?s1" by (rule page_kept_lock [OF at f])
  then have "other_page ?s1 pml fv f" by (simp add: page_kept_def)
  then have k2: "page_kept s pml fv f u" using page_kept_trans [OF k1] page_kept_ext [OF ext(1)] by blast
  then have fu: "other_page u pml fv f" by (simp add: page_kept_def)
  have l: "table_at (mem u) (hhdm_offset u) pml (vpath virt) = Some l" using ext(2) pt_ext_hhdm [OF ext(1)] by simp
  have k3: "page_kept s pml fv f (?w e)" for e using page_kept_trans [OF k2 page_kept_leaf [OF at_u l fu]] .
  then have fw: "other_page (?w e) pml fv f" for e by (simp add: page_kept_def)
  show "page_kept s pml fv f t"
    using t page_kept_trans [OF k2 page_kept_lock [OF at_u fu, of 0]]
      page_kept_trans [OF k3 page_kept_lock [OF at_w fw, where l = 0]]
    by (auto simp: vmm_release_eq)
qed

text \<open>
  An address space survives any change that keeps the pages of its tables and of its \<open>vmm_t\<close>;
  a page that was not the kernel's before is none of them.
\<close>

lemma vmm_at_keep:
  assumes at: "vmm_at s vmm pml fv" and inv_t: "pmm_inv t" and geo: "same_geometry s t"
    and own: "\<And>f. own_page s f \<Longrightarrow> is_table s pml f \<or> f = fv \<Longrightarrow> own_page t f"
    and keep: "\<And>f x. own_page s f \<Longrightarrow> is_table s pml f \<or> f = fv \<Longrightarrow> x \<in> page_bytes s f \<Longrightarrow> mem t x = mem s x"
  shows "vmm_at t vmm pml fv" and "vmm_lock (mem t) vmm = vmm_lock (mem s) vmm"
    and "vmm_arena (mem t) vmm = vmm_arena (mem s) vmm"
    and "page_entry t vmm = page_entry s vmm" and "is_table t pml f = is_table s pml f"
proof -
  have inv: "pmm_inv s" "pt_inv s pml" and fv: "own_page s fv" "\<not> is_table s pml fv" "vmm = frame_addr s fv"
    using at by (simp_all add: vmm_at_def)
  have H: "hhdm_offset t = hhdm_offset s" and fr: "frame_addr t = frame_addr s"
    using geo by (simp_all add: same_geometry_def frame_addr_def fun_eq_iff)
  have tab: "mem t x = mem s x" if tf: "is_table s pml f" "x \<in> page_bytes s f" for f x
  proof -
    obtain "is" where "is \<in> table_paths" "table_at (mem s) (hhdm_offset s) pml is = Some (frame_addr s f)"
      using tf(1) by (auto simp: is_table_def)
    then obtain g where "own_page s g" "frame_addr s f = frame_addr s g" "is_table s pml g" using pt_invD [OF inv(2)] by metis
    then show ?thesis using keep tf(2) by (simp add: page_bytes_def frame_addr_def)
  qed
  have tree: "table_at (mem t) (hhdm_offset s) pml is = table_at (mem s) (hhdm_offset s) pml is"
    "k < 512 \<Longrightarrow> leaf_entry (mem t) (hhdm_offset s) pml is k = leaf_entry (mem s) (hhdm_offset s) pml is k"
    if "is \<in> table_paths" for "is" k
    using tables_untouched [OF inv(2) _ that, of "mem t"] tab by blast+
  have "pt_inv t pml"
    unfolding pt_inv_def H fr
  proof (intro conjI ballI allI impI)
    fix js u assume "js \<in> table_paths" "table_at (mem t) (hhdm_offset s) pml js = Some u"
    then show "\<exists>f. own_page t f \<and> u = frame_addr s f" using tree(1) own pt_invD [OF inv(2)] by metis
  next
    fix js ks u assume "js \<in> table_paths" "ks \<in> table_paths" "table_at (mem t) (hhdm_offset s) pml js = Some u"
      "table_at (mem t) (hhdm_offset s) pml ks = Some u"
    then show "js = ks" using pt_inv_inj [OF inv(2)] by (simp add: tree(1))
  qed
  moreover have root: "vmm_pml (mem t) vmm = vmm_pml (mem s) vmm"
    unfolding vmm_pml_def fv(3) using keep [OF fv(1)] by (intro load64_cong) (simp add: vmm_fields_bytes(2))
  moreover show is_table: "is_table t pml f = is_table s pml f" for f using tree(1) by (auto simp: is_table_def H fr)
  ultimately show at_t: "vmm_at t vmm pml fv" using at inv_t own [OF fv(1)] by (auto simp: vmm_at_def fr)
  show "vmm_lock (mem t) vmm = vmm_lock (mem s) vmm"
    unfolding vmm_lock_def fv(3) using keep [OF fv(1)] by (intro load32_cong) (simp add: vmm_fields_bytes(1))
  show "vmm_arena (mem t) vmm = vmm_arena (mem s) vmm"
    unfolding vmm_arena_def fv(3) using keep [OF fv(1)] by (intro load64_cong) (simp add: vmm_fields_bytes(3))
  show "page_entry t vmm = page_entry s vmm"
    using tree(2) vmm_at_pml [OF at] root by (simp add: page_entry_def H fun_eq_iff lvl_offset_bound)
qed

lemma new_page_other:
  assumes at: "vmm_at s vmm pml fv" and inv_t: "pmm_inv t" and geo: "same_geometry s t"
    and own: "\<And>f. own_page s f \<Longrightarrow> own_page t f" and same: "is_table t pml g = is_table s pml g"
    and g: "own_page t g" "\<not> own_page s g"
  shows "other_page t pml fv g"
proof -
  have inv: "pt_inv s pml" and fv: "own_page s fv" using at by (simp_all add: vmm_at_def)
  have fr: "frame_addr t = frame_addr s" using geo by (simp add: same_geometry_def frame_addr_def fun_eq_iff)
  have "\<not> is_table s pml g"
  proof
    assume "is_table s pml g"
    then obtain "is" where "is \<in> table_paths" "table_at (mem s) (hhdm_offset s) pml is = Some (frame_addr s g)"
      by (auto simp: is_table_def)
    then obtain h where "own_page s h" "frame_addr s g = frame_addr s h" using pt_invD [OF inv] by metis
    moreover from this have "h = g"
      using frame_addr_inj [OF inv_t, of g h] g own [of h] by (simp add: own_page_def fr)
    ultimately show False using g(2) by simp
  qed
  then show ?thesis using g fv same by (auto simp: other_page_def)
qed

lemma fresh_keeps:
  assumes post: "fresh_post s g1 g2 t" and at: "vmm_at s vmm pml fv"
  shows "vmm_at t vmm pml fv" and "vmm_lock (mem t) vmm = vmm_lock (mem s) vmm"
    and "page_entry t vmm = page_entry s vmm" and "other_page t pml fv g1" and "other_page t pml fv g2"
    and "vmm_arena (mem t) vmm = vmm_arena (mem s) vmm" and "other_page s pml fv f \<Longrightarrow> page_kept s pml fv f t"
proof -
  have keep: "own_page t f" "x \<in> page_bytes s f \<Longrightarrow> mem t x = mem s x" if "own_page s f" for f x
    using post that by (simp_all add: fresh_post_def)
  have f: "pmm_inv t" "same_geometry s t" using post by (simp_all add: fresh_post_def)
  show "vmm_at t vmm pml fv" "vmm_lock (mem t) vmm = vmm_lock (mem s) vmm" "page_entry t vmm = page_entry s vmm"
    "vmm_arena (mem t) vmm = vmm_arena (mem s) vmm"
    by (rule vmm_at_keep [OF at f]; erule keep; assumption)+
  have is_table: "is_table t pml f = is_table s pml f" for f by (rule vmm_at_keep [OF at f]; erule keep; assumption)
  have g: "own_page t g1" "own_page t g2" "\<not> own_page s g1" "\<not> own_page s g2" using post by (simp_all add: fresh_post_def)
  show "other_page t pml fv g1" by (rule new_page_other [OF at f keep(1) is_table g(1,3)])
  show "other_page t pml fv g2" by (rule new_page_other [OF at f keep(1) is_table g(2,4)])
  show "page_kept s pml fv f t" if "other_page s pml fv f" for f
    using that keep is_table same_geometry_areas(1) [OF f(2)] by (auto simp: page_kept_def other_page_def)
qed

text \<open>The copy of the top-level table.\<close>

lemma copy_pml_loop_eq:
  assumes "vmm_pml m new_vmm = new" and "vmm_pml m vmm = old" and "i \<le> 512"
    and disj: "bytes_of (new_vmm + 8) 8 \<inter> bytes_of new 4096 = {}" "bytes_of (vmm + 8) 8 \<inter> bytes_of new 4096 = {}"
      "bytes_of old 4096 \<inter> bytes_of new 4096 = {}"
  shows "(\<forall>x. x \<notin> bytes_of new 4096 \<longrightarrow> copy_pml_loop i new_vmm vmm m x = m x) \<and>
    (\<forall>j < 512. load64 (copy_pml_loop i new_vmm vmm m) (pte_addr new j) =
       (if i \<le> j then load64 m (pte_addr old j) else load64 m (pte_addr new j)))"
  using assms(1-3)
proof (induction "512 - unat i" arbitrary: i m)
  case 0
  then have "i = 512" by (simp add: word_le_nat_alt word_unat_eq_iff)
  moreover have "\<not> (512 :: u64) \<le> j" if "j < 512" for j using that by simp
  ultimately show ?case by (simp add: copy_pml_loop.simps [of 512])
next
  case (Suc n)
  then have lt: "i < 512" by (simp add: word_less_nat_alt)
  note inc = unat_inc [OF lt]
  define m' where "m' = store64 m (pte_addr new i) (load64 m (pte_addr old i))"
  have other: "m' x = m x" if "x \<notin> bytes_of new 4096" for x
    using that entry_bytes [OF lt, of new] unfolding m'_def by (intro store64_other) blast
  have roots: "vmm_pml m' new_vmm = new" "vmm_pml m' vmm = old"
    using Suc.prems(1,2) disj(1,2) other unfolding vmm_pml_def
    by (metis (no_types, lifting) disjoint_iff load64_cong)+
  have old: "load64 m' (pte_addr old j) = load64 m (pte_addr old j)" if "j < 512" for j
    using entry_bytes [OF that, of old] disj(3) by (intro load64_cong other) blast
  have new: "load64 m' (pte_addr new j) = (if j = i then load64 m (pte_addr old i) else load64 m (pte_addr new j))"
    if "j < 512" for j
    using entry_bytes_disjoint [OF lt that] by (simp add: m'_def load64_store64_disjoint)
  have eq: "copy_pml_loop i new_vmm vmm m = copy_pml_loop (i + 1) new_vmm vmm m'"
    using lt Suc.prems(1,2) by (simp add: copy_pml_loop.simps [of i] m'_def)
  have "i + 1 \<le> 512" "n = 512 - unat (i + 1)" using inc lt Suc.hyps(2) by (simp_all add: word_le_nat_alt word_less_nat_alt)
  note IH = Suc.hyps(1) [OF this(2) roots this(1)]
  have le: "i + 1 \<le> j \<longleftrightarrow> i \<le> j \<and> j \<noteq> i" for j
    by (auto simp: word_le_nat_alt inc word_unat_eq_iff)
  show ?case using IH old new other unfolding eq le by auto
qed

text \<open>
  The state in which the new root \<open>new\<close> (frame \<open>g2\<close>) holds the kernel root's entries: both
  address spaces are well formed and translate alike.
\<close>

lemma shared_root_tree:
  assumes inv: "pmm_inv s" "pt_inv s pml" and g2: "own_page s g2" "\<not> is_table s pml g2"
    and copy: "\<forall>x. x \<notin> page_bytes s g2 \<longrightarrow> m x = mem s x"
      "\<forall>j < 512. load64 m (pte_addr (frame_addr s g2) j) = load64 (mem s) (pte_addr pml j)"
  shows "own_page s f \<Longrightarrow> f \<noteq> g2 \<Longrightarrow> x \<in> page_bytes s f \<Longrightarrow> m x = mem s x"
    and "js \<in> table_paths \<Longrightarrow> table_at m (hhdm_offset s) pml js = table_at (mem s) (hhdm_offset s) pml js"
    and "js \<in> table_paths \<Longrightarrow> table_at m (hhdm_offset s) (frame_addr s g2) js =
      (if js = [] then Some (frame_addr s g2) else table_at (mem s) (hhdm_offset s) pml js)"
    and "k < 512 \<Longrightarrow> leaf_entry m (hhdm_offset s) pml (vpath v) k = leaf_entry (mem s) (hhdm_offset s) pml (vpath v) k"
    and "leaf_entry m (hhdm_offset s) (frame_addr s g2) (vpath v) k = leaf_entry m (hhdm_offset s) pml (vpath v) k"
proof -
  let ?H = "hhdm_offset s" and ?new = "frame_addr s g2"
  show apart: "m x = mem s x" if "own_page s f" "f \<noteq> g2" "x \<in> page_bytes s f" for f x
    using page_bytes_disjoint [OF inv(1), of f g2] that g2(1) copy(1) by (auto simp: own_page_def)
  have load: "load64 m (pte_addr u k) = load64 (mem s) (pte_addr u k)"
    if u: "js \<in> table_paths" "table_at (mem s) ?H pml js = Some u" "k < 512" for js u k
  proof -
    obtain f where f: "own_page s f" "u = frame_addr s f" "is_table s pml f" using pt_invD [OF inv(2) u(1,2)] by blast
    then have "f \<noteq> g2" using g2(2) by auto
    then show ?thesis
      using apart [OF f(1)] entry_in_page [OF u(3), where s = s and f = f] f(2) by (intro load64_cong) blast
  qed
  show tree: "table_at m ?H pml js = table_at (mem s) ?H pml js" if "js \<in> table_paths" for js
    by (rule table_at_same [OF _ that]) (metis load next_table_def table_paths_snoc)
  have nil: "[] \<in> table_paths" by (simp add: table_paths_def)
  have step: "next_table m ?H ?new j = next_table m ?H pml j" if "j < 512" for j
    using copy(2) that load [OF nil _ that] by (simp add: next_table_def)
  show new: "table_at m ?H ?new js = (if js = [] then Some ?new else table_at (mem s) ?H pml js)"
    if "js \<in> table_paths" for js
    using that step tree [OF that] by (cases js) (auto simp: table_paths_def)
  show "leaf_entry m ?H pml (vpath v) k = leaf_entry (mem s) ?H pml (vpath v) k" if "k < 512"
    using load [OF vpath_in_paths(1) _ that] tree [OF vpath_in_paths(1)] by (simp add: leaf_entry_def split: option.split)
  have "table_at m ?H ?new (vpath v) = table_at m ?H pml (vpath v)"
    using new [OF vpath_in_paths(1)] tree [OF vpath_in_paths(1)] by (simp add: vpath_def)
  then show "leaf_entry m ?H ?new (vpath v) k = leaf_entry m ?H pml (vpath v) k" by (simp add: leaf_entry_def)
qed

lemma shared_root:
  assumes at: "vmm_at s vmm pml fv"
    and g1: "other_page s pml fv g1" and g2: "other_page s pml fv g2" and ne: "g1 \<noteq> g2"
    and root: "vmm_pml (mem s) (frame_addr s g1) = frame_addr s g2"
    and copy: "\<forall>x. x \<notin> page_bytes s g2 \<longrightarrow> m x = mem s x"
      "\<forall>j < 512. load64 m (pte_addr (frame_addr s g2) j) = load64 (mem s) (pte_addr pml j)"
  defines "t \<equiv> s\<lparr>mem := m\<rparr>"
  shows "vmm_at t vmm pml fv" and "vmm_at t (frame_addr s g1) (frame_addr s g2) g1"
    and "page_entry t vmm = page_entry s vmm" and "page_entry t (frame_addr s g1) = page_entry s vmm"
proof -
  let ?H = "hhdm_offset s" and ?new = "frame_addr s g2"
  have inv: "pmm_inv s" "pt_inv s pml" and fv: "own_page s fv" "vmm = frame_addr s fv"
    using at by (simp_all add: vmm_at_def)
  have own2: "own_page s g2" "\<not> is_table s pml g2" "g2 \<noteq> fv" and own1: "own_page s g1" "\<not> is_table s pml g1"
    using g1 g2 by (simp_all add: other_page_def)
  note sr = shared_root_tree [OF inv own2(1,2) copy]
  have w: "pmm_inv t" "own_page t f = own_page s f" for f
    using own_page_write [OF inv(1) own2(1), of m] copy(1) by (simp_all add: t_def)
  have fr: "frame_addr t = frame_addr s" "hhdm_offset t = ?H" "mem t = m"
    by (simp_all add: t_def frame_addr_def fun_eq_iff)
  have notnew: "table_at (mem s) ?H pml js \<noteq> Some ?new" if "js \<in> table_paths" for js
    using own2(2) that by (auto simp: is_table_def)
  have keep: "vmm_pml m (frame_addr s f) = vmm_pml (mem s) (frame_addr s f)" if "own_page s f" "f \<noteq> g2" for f
    unfolding vmm_pml_def using sr(1) [OF that] vmm_fields_bytes(2) [of _ s f] by (intro load64_cong) blast
  have "pt_inv t pml" using inv(2) by (simp add: pt_inv_def fr w(2) sr(2))
  moreover have "is_table t pml f = is_table s pml f" for f using sr(2) by (auto simp: is_table_def fr)
  ultimately show at_t: "vmm_at t vmm pml fv"
    using at w keep own2(3) by (auto simp: vmm_at_def fr)
  have "pt_inv t ?new"
    unfolding pt_inv_def fr
  proof (intro conjI ballI allI impI)
    fix js u assume "js \<in> table_paths" "table_at m ?H ?new js = Some u"
    then show "\<exists>f. own_page t f \<and> u = frame_addr s f"
      using sr(3) own2(1) w(2) pt_invD [OF inv(2)] by (metis option.inject)
  next
    fix js ks u assume "js \<in> table_paths" "ks \<in> table_paths" "table_at m ?H ?new js = Some u" "table_at m ?H ?new ks = Some u"
    then show "js = ks" using sr(3) notnew pt_inv_inj [OF inv(2)] by (metis option.inject)
  qed
  moreover have "\<not> is_table t ?new g1"
    using own1 ne frame_addr_inj [OF inv(1), of g2 g1] own2(1) sr(3)
    by (auto simp: is_table_def fr own_page_def split: if_splits)
  ultimately show at_n: "vmm_at t (frame_addr s g1) ?new g1"
    using w own1(1) keep [OF own1(1) ne] root by (simp add: vmm_at_def fr)
  show "page_entry t vmm = page_entry s vmm" and "page_entry t (frame_addr s g1) = page_entry s vmm"
    using vmm_at_pml [OF at] vmm_at_pml [OF at_t] vmm_at_pml [OF at_n]
    by (simp_all add: page_entry_def fr fun_eq_iff lvl_offset_bound sr(4,5))
qed

lemma page_kept_pml:
  "page_kept s pml fv f t \<Longrightarrow> vmm_pml (mem t) (frame_addr s f) = vmm_pml (mem s) (frame_addr s f)"
  unfolding vmm_pml_def page_kept_def using vmm_fields_bytes(2) [of _ s f] by (intro load64_cong) blast

lemma page_kept_lock_word:
  "page_kept s pml fv f t \<Longrightarrow> vmm_lock (mem t) (frame_addr s f) = vmm_lock (mem s) (frame_addr s f)"
  unfolding vmm_lock_def page_kept_def using vmm_fields_bytes(1) [of _ s f] by (intro load32_cong) blast

lemma copy_pml_shares:
  assumes at: "vmm_at s vmm pml fv" and lock: "vmm_lock (mem s) vmm = 0" "vmm_lock (mem s) (frame_addr s g1) = 0"
    and g: "other_page s pml fv g1" "other_page s pml fv g2" "g1 \<noteq> g2"
    and root: "vmm_pml (mem s) (frame_addr s g1) = frame_addr s g2"
  defines "t \<equiv> s\<lparr>mem := copy_pml_loop 0 (frame_addr s g1) vmm (mem s)\<rparr>"
  shows "vmm_ok t vmm" and "vmm_ok t (frame_addr s g1)"
    and "page_entry t vmm = page_entry s vmm" and "page_entry t (frame_addr s g1) = page_entry s vmm"
    and "x \<notin> page_bytes s g2 \<Longrightarrow> mem t x = mem s x"
proof -
  have inv: "pmm_inv s" "pt_inv s pml" and fv: "own_page s fv" "vmm = frame_addr s fv"
    using at by (simp_all add: vmm_at_def)
  have own: "own_page s g1" "own_page s g2" "g1 \<noteq> fv" "g2 \<noteq> fv" "\<not> is_table s pml g2"
    using g by (simp_all add: other_page_def)
  have nil: "[] \<in> table_paths" by (simp add: table_paths_def)
  obtain fp where fp: "own_page s fp" "pml = frame_addr s fp" "is_table s pml fp"
    using pt_invD [OF inv(2) nil table_at.simps(1)] by blast
  have pb: "page_bytes s f = bytes_of (frame_addr s f) 4096" for f by (simp add: page_bytes_def frame_addr_def)
  have d: "bytes_of (frame_addr s f) 4096 \<inter> bytes_of (frame_addr s g2) 4096 = {}" if "own_page s f" "f \<noteq> g2" for f
    using page_bytes_disjoint [OF inv(1), of f g2] that own(2) by (auto simp: own_page_def pb)
  have fg: "fp \<noteq> g2" using fp(3) own(5) by auto
  have d8: "bytes_of (frame_addr s f + 8) 8 \<inter> bytes_of (frame_addr s g2) 4096 = {}" if "own_page s f" "f \<noteq> g2" for f
    using d [OF that] struct_fields(3) [of "frame_addr s f"] by blast
  let ?m = "copy_pml_loop 0 (frame_addr s g1) vmm (mem s)"
  have c: "\<forall>x. x \<notin> page_bytes s g2 \<longrightarrow> ?m x = mem s x"
    "\<forall>j < 512. load64 ?m (pte_addr (frame_addr s g2) j) = load64 (mem s) (pte_addr pml j)"
    using copy_pml_loop_eq [OF root vmm_at_pml [OF at], of 0] d8 [OF own(1) g(3)] d8 [OF fv(1)] own(4)
      d [OF fp(1) fg] fp(2) fv(2) by (simp_all add: pb)
  note sr = shared_root [OF at g(1,2,3) root c, folded t_def]
  have keep: "?m x = mem s x" if "own_page s f" "f \<noteq> g2" "x \<in> bytes_of (frame_addr s f) 4" for f x
    using d [OF that(1,2)] that(3) struct_fields(2) [of "frame_addr s f"] c(1) by (auto simp: pb)
  have lk: "vmm_lock ?m (frame_addr s f) = vmm_lock (mem s) (frame_addr s f)" if "own_page s f" "f \<noteq> g2" for f
    unfolding vmm_lock_def by (intro load32_cong keep [OF that])
  have mt: "mem t = ?m" by (simp add: t_def)
  show "mem t x = mem s x" if "x \<notin> page_bytes s g2" using c(1) that by (simp add: mt)
  have "vmm_lock (mem t) vmm = 0" "vmm_lock (mem t) (frame_addr s g1) = 0"
    unfolding mt using lk [OF fv(1)] lk [OF own(1) g(3)] own(4) lock fv(2) by simp_all
  then show "vmm_ok t vmm" "vmm_ok t (frame_addr s g1)" using sr(1,2) unfolding vmm_ok_def by blast+
  show "page_entry t vmm = page_entry s vmm" "page_entry t (frame_addr s g1) = page_entry s vmm" by (rule sr(3,4))+
qed

lemma vmm_new_cases:
  fixes s :: "'a vmm_state_scheme"
  assumes "vmm_ok s (vmm_kernel s)"
  shows "(\<exists>new pml t. vmm_new s = Inr (new, t) \<and> vmm_kernel t = vmm_kernel s \<and> vmm_ok t (vmm_kernel s) \<and> vmm_ok t new \<and>
      page_entry t (vmm_kernel s) = map_entry (pml + hhdm_offset s) (pml OR (PTE_PRESENT OR PTE_WRITABLE))
        (map_entry (new + hhdm_offset s) (new OR (PTE_PRESENT OR PTE_WRITABLE)) (page_entry s (vmm_kernel s))) \<and>
      page_entry t new = page_entry t (vmm_kernel s)) \<or>
    vmm_new s = Inl (Panic ''PMM_ALLOC: failed to allocate memory'') \<and> free_count s < 8"
proof -
  let ?k = "vmm_kernel s" and ?H = "hhdm_offset s" and ?PW = "PTE_PRESENT OR PTE_WRITABLE"
  obtain pk fk where ok: "vmm_at s ?k pk fk" "vmm_lock (mem s) ?k = 0" using assms by (auto simp: vmm_ok_def)
  have inv: "pmm_inv s" using ok(1) by (simp add: vmm_at_def)
  from vmm_fresh_cases [OF inv] show ?thesis
  proof (elim disjE exE conjE)
    fix g1 g2 t1 assume r1: "vmm_fresh s = Inr (frame_addr s g1, t1)" and post: "fresh_post s g1 g2 t1"
    let ?new = "frame_addr s g1" and ?pml = "frame_addr s g2"
    note fk = fresh_keeps [OF post ok(1)] and f1 = fresh_post_ok [OF post]
    have st1: "vmm_kernel t1 = ?k" "hhdm_offset t1 = ?H" "g1 \<noteq> g2" "free_count s = 2 + free_count t1"
      using post by (auto simp: fresh_post_def same_geometry_def)
    have fr: "frame_addr t1 = frame_addr s" using st1(2) by (simp add: frame_addr_def fun_eq_iff)
    have ok1: "vmm_ok t1 ?k" using fk(1,2) ok(2) by (auto simp: vmm_ok_def)
    from vmm_map_page_refines [OF ok1, of "?new + ?H" ?new ?PW] show ?thesis
    proof (elim disjE exE conjE)
      fix t2 assume r2: "vmm_map_page ?k (?new + ?H) ?new ?PW t1 = Inr (True, t2)" and t2: "vmm_ok t2 ?k"
        "page_entry t2 ?k = map_entry (?new + ?H) (?new OR ?PW) (page_entry t1 ?k)" "free_count t1 \<le> 3 + free_count t2"
        "static_part t2 = static_part t1"
      have st2: "vmm_kernel t2 = ?k" "hhdm_offset t2 = ?H"
        using t2(4) st1 more_vmm_kernel [of t2 t1] by (simp_all add: static_part_def)
      have lock1: "vmm_lock (mem t1) ?k = 0" using fk(2) ok(2) by simp
      note k2 = vmm_map_page_kept [OF fk(1) lock1 r2]
      note kg2 = k2(2) [OF fk(4)] k2(2) [OF fk(5)]
      have root2: "vmm_pml (mem t2) ?new = ?pml" using page_kept_pml [OF kg2(1)] vmm_at_pml [OF f1(3)] by (simp add: fr)
      from vmm_map_page_refines [OF t2(1), of "?pml + ?H" ?pml ?PW] show ?thesis
      proof (elim disjE exE conjE)
        fix t3 assume r3: "vmm_map_page ?k (?pml + ?H) ?pml ?PW t2 = Inr (True, t3)" and t3: "vmm_ok t3 ?k"
          "page_entry t3 ?k = map_entry (?pml + ?H) (?pml OR ?PW) (page_entry t2 ?k)" "static_part t3 = static_part t2"
        have st3: "vmm_kernel t3 = ?k" "hhdm_offset t3 = ?H"
          using t3(3) st2 more_vmm_kernel [of t3 t2] by (simp_all add: static_part_def)
        have lock2: "vmm_lock (mem t2) ?k = 0" using t2(1) by (simp add: vmm_ok_def)
        have o2: "other_page t2 pk fk g1" "other_page t2 pk fk g2" using kg2 by (simp_all add: page_kept_def)
        note k3 = vmm_map_page_kept [OF k2(1) lock2 r3]
        note kg3 = k3(2) [OF o2(1)] k3(2) [OF o2(2)]
        have fr23: "frame_addr t2 = frame_addr s" "frame_addr t3 = frame_addr s"
          using st2 st3 by (simp_all add: frame_addr_def fun_eq_iff)
        have root3: "vmm_pml (mem t3) ?new = ?pml" using page_kept_pml [OF kg3(1)] root2 by (simp add: fr23)
        have "vmm_lock (mem t3) ?new = 0"
          using page_kept_lock_word [OF kg3(1)] page_kept_lock_word [OF kg2(1)] f1(1) by (simp add: fr fr23 vmm_ok_def)
        then have sh: "vmm_ok (t3\<lparr>mem := copy_pml_loop 0 ?new ?k (mem t3)\<rparr>) ?k"
          "vmm_ok (t3\<lparr>mem := copy_pml_loop 0 ?new ?k (mem t3)\<rparr>) ?new"
          "page_entry (t3\<lparr>mem := copy_pml_loop 0 ?new ?k (mem t3)\<rparr>) ?k = page_entry t3 ?k"
          "page_entry (t3\<lparr>mem := copy_pml_loop 0 ?new ?k (mem t3)\<rparr>) ?new = page_entry t3 ?k"
          using copy_pml_shares [OF k3(1), of g1 g2] t3(1) kg3 st1(3) root3
          by (simp_all add: fr23 page_kept_def vmm_ok_def)
        have "vmm_new s = Inr (?new, t3\<lparr>mem := copy_pml_loop 0 ?new ?k (mem t3)\<rparr>)"
          by (simp add: vmm_new_def r1 st1 st2 st3 r2 r3 root2 get_hhdm_def)
        then show ?thesis using sh st3(1) t3(2) t2(2) fk(3) by auto
      next
        assume "vmm_map_page ?k (?pml + ?H) ?pml ?PW t2 = Inl (Panic ''PMM_ALLOC: failed to allocate memory'')"
          "free_count t2 < 3"
        then show ?thesis using r1 r2 st1 st2 root2 t2(3) by (simp add: vmm_new_def get_hhdm_def)
      qed
    qed (use r1 st1 in \<open>simp add: vmm_new_def get_hhdm_def\<close>)
  qed (simp add: vmm_new_def)
qed

subsection \<open>Properties\<close>

text \<open>
  A small machine for the examples: sixteen pages, the bitmap in page 1, a \<open>vmm_t\<close> in page 2 whose
  root table, page 3, is empty.
\<close>

definition vmm_demo :: vmm_state where
  "vmm_demo = \<lparr>mem = store64 ((\<lambda>_. 0)(0xffff800000001000 := 0b1111)) 0xffff800000002008 0xffff800000003000,
     hhdm_offset = 0xffff800000000000, spin_lock = 0, bitmap = 0xffff800000001000,
     bitmap_top_index = 16, bitmap_prev_index = 4, vmm_kernel = 0xffff800000002000, cr3 = 0\<rparr>"

lemma vmm_demo_bytes:
  assumes "x \<notin> bytes_of 0xffff800000002008 8" and "x \<noteq> 0xffff800000001000"
  shows "mem vmm_demo x = 0"
  using assms by (simp add: vmm_demo_def store64_other)

lemma vmm_demo_frame: "frame_addr vmm_demo f = of_nat f * 0x1000 + 0xffff800000000000"
  by (simp add: frame_addr_def vmm_demo_def PAGE_SIZE_def)

lemma vmm_demo_fields: "bitmap vmm_demo = 0xffff800000001000" "unat (bitmap_top_index vmm_demo) = 16"
  "hhdm_offset vmm_demo = 0xffff800000000000" "spin_lock vmm_demo = 0" "bitmap_prev_index vmm_demo = 4"
  "bitmap_top_index vmm_demo = 16" "mem vmm_demo 0xffff800000001000 = 0b1111" "vmm_kernel vmm_demo = 0xffff800000002000"
  by (simp_all add: vmm_demo_def store64_def)

lemma less_16_cases: "f < 16 \<Longrightarrow> f \<in> {0, 1, 2, 3, 4, 5, 6, 7, 8, 9, 10, 11, 12, 13, 14, 15}" for f :: nat
  using less_8_cases [of f] less_8_cases [of "f - 8"] by (cases "f < 8") auto

lemma vmm_demo_used: "f < 16 \<Longrightarrow> page_used vmm_demo f \<longleftrightarrow> f < 4"
proof -
  have z: "mem vmm_demo 0xffff800000001001 = 0" by (rule vmm_demo_bytes) (simp_all add: bytes_of_8)
  show "f < 16 \<Longrightarrow> page_used vmm_demo f \<longleftrightarrow> f < 4"
    by (drule less_16_cases) (auto simp: page_used_def bitmap_get_bit vmm_demo_fields bit_simps z)
qed

lemma vmm_demo_bitmap_page: "f < 16 \<Longrightarrow> page_bytes vmm_demo f \<inter> bitmap_area vmm_demo \<noteq> {} \<longleftrightarrow> f = 1"
proof -
  have "bitmap_area vmm_demo = {0xffff800000001000, 0xffff800000001001}"
  proof -
    have "{..<2 :: nat} = {0, 1}" by auto
    then show ?thesis by (simp add: bitmap_area_def bitmap_bytes_def bytes_of_def vmm_demo_fields)
  qed
  moreover assume "f < 16"
  ultimately show ?thesis
    by (drule_tac less_16_cases)
      (auto simp: page_bytes_def bytes_of_offset vmm_demo_fields PAGE_SIZE_def)
qed

lemma vmm_demo_inv: "pmm_inv vmm_demo"
  using vmm_demo_bitmap_page vmm_demo_used
  by (auto simp: pmm_inv_def vmm_demo_fields)

lemma vmm_demo_ok: "vmm_ok vmm_demo 0xffff800000002000"
proof -
  have own: "own_page vmm_demo 2" "own_page vmm_demo 3"
    using vmm_demo_bitmap_page [of 2] vmm_demo_bitmap_page [of 3] vmm_demo_used [of 2] vmm_demo_used [of 3]
    by (simp_all add: own_page_def vmm_demo_fields)
  have fr: "frame_addr vmm_demo 2 = 0xffff800000002000" "frame_addr vmm_demo 3 = 0xffff800000003000"
    by (simp_all add: vmm_demo_frame)
  have "bytes_of 0xffff800000003000 4096 \<inter> bytes_of 0xffff800000002008 8 = {}"
    by (rule bytes_of_disjoint) simp_all
  moreover have "0xffff800000001000 \<notin> bytes_of 0xffff800000003000 4096" by (simp add: bytes_of_offset)
  ultimately have "\<forall>x \<in> page_bytes vmm_demo 3. mem vmm_demo x = 0"
    using vmm_demo_bytes by (auto simp: page_bytes_def vmm_demo_fields PAGE_SIZE_def)
  note root = empty_root [OF vmm_demo_inv own(2) this, unfolded fr]
  have "vmm_pml (mem vmm_demo) 0xffff800000002000 = 0xffff800000003000" by (simp add: vmm_pml_def vmm_demo_def)
  then have "vmm_at vmm_demo 0xffff800000002000 0xffff800000003000 2"
    using vmm_demo_inv own(1) root(2) root(3) [OF own(1)] by (simp add: vmm_at_def fr)
  moreover have "vmm_lock (mem vmm_demo) 0xffff800000002000 = 0"
    unfolding vmm_lock_def by (rule load32_zero) (auto simp: bytes_of_4 bytes_of_8 intro!: vmm_demo_bytes)
  ultimately show ?thesis by (auto simp: vmm_ok_def)
qed

lemma vmm_demo_free: "free_count vmm_demo = 12"
proof -
  have "{f. f < 16 \<and> \<not> page_used vmm_demo f} = {4..<16}" using vmm_demo_used by auto
  then show ?thesis by (simp add: free_count_def vmm_demo_fields)
qed



text \<open>
  C22. Mapping a page that was not mapped and unmapping it again restores the address space: the
  unmapping succeeds and every entry is as it was before the mapping.
\<close>

theorem vmm_map_unmap_restores:
  assumes "vmm_ok s vmm" and "page_entry s vmm virt = 0" and "(physical OR flags) AND PTE_PRESENT \<noteq> 0"
    and "vmm_map_page vmm virt physical flags s = Inr (b, t)"
  shows "\<exists>u. vmm_unmap_page vmm virt lock t = Inr (True, u) \<and> vmm_ok u vmm \<and> page_entry u vmm = page_entry s vmm"
  using assms by (rule vm.map_unmap_restores)

lemma vmm_demo_unmapped: "page_entry vmm_demo 0xffff800000002000 0x400000 = 0"
proof -
  have pml: "vmm_pml (mem vmm_demo) 0xffff800000002000 = 0xffff800000003000" by (simp add: vmm_pml_def vmm_demo_def)
  have "load64 (mem vmm_demo) (pte_addr 0xffff800000003000 (lvl_offset 39 0x400000)) = 0"
    by (rule load64_zero)
      (auto simp: bytes_of_8 pte_addr_def lvl_offset_take_bit take_bit_eq_mod drop_bit_eq_div intro!: vmm_demo_bytes)
  then show ?thesis
    by (simp add: page_entry_def leaf_entry_def vpath_def next_table_def pml vmm_demo_fields)
qed

theorem vmm_map_unmap_restores_witness:
  "\<exists>t u. vmm_map_page 0xffff800000002000 0x400000 0x7000 3 vmm_demo = Inr (True, t) \<and>
     vmm_unmap_page 0xffff800000002000 0x400000 True t = Inr (True, u) \<and>
     page_entry u 0xffff800000002000 = page_entry vmm_demo 0xffff800000002000"
proof -
  obtain t where t: "vmm_map_page 0xffff800000002000 0x400000 0x7000 3 vmm_demo = Inr (True, t)"
    using vmm_map_page_refines [OF vmm_demo_ok, of "0x400000" "0x7000" 3] vmm_demo_free by auto
  have "((0x7000 :: u64) OR 3) AND PTE_PRESENT \<noteq> 0" by (simp add: PTE_PRESENT_def)
  then show ?thesis
    using t vmm_map_unmap_restores [OF vmm_demo_ok vmm_demo_unmapped _ t, of True] by auto
qed

text \<open>
  \<open>vmm_virt2phys\<close> returns the address part of the page's entry (0 for a page that was never
  mapped) and changes no entry. Whatever its argument \<open>alloc\<close> says, it allocates the missing
  levels of the walk, so it can panic for want of memory.
\<close>

theorem vmm_virt2phys_correct:
  assumes "vmm_ok s vmm"
  shows "(\<exists>t. vmm_virt2phys vmm virt alloc s = Inr (PTE_GET_ADDR (page_entry s vmm virt), t) \<and>
      vmm_ok t vmm \<and> page_entry t vmm = page_entry s vmm) \<or>
    (vmm_virt2phys vmm virt alloc s = Inl (Panic ''PMM_ALLOC: failed to allocate memory'') \<and> free_count s < 3)"
  using vmm_virt2phys_cases [OF assms, of virt alloc]
proof (elim disjE exE conjE)
  fix t assume t: "vmm_virt2phys vmm virt alloc s = Inr (PTE_GET_ADDR (page_entry s vmm virt), t)"
    "entry_update s vmm virt (page_entry s vmm virt) t"
  moreover have "vmm_ok t vmm" using t(2) by (simp add: entry_update_def)
  ultimately show ?thesis using entry_update_keep [OF t(2)] by blast
qed simp

theorem vmm_virt2phys_correct_witness:
  "vmm_ok vmm_demo 0xffff800000002000 \<and>
   (\<exists>t. vmm_virt2phys 0xffff800000002000 0x400000 False vmm_demo = Inr (0, t))"
  using vmm_demo_ok vmm_demo_free vmm_virt2phys_correct [OF vmm_demo_ok, of "0x400000" False] vmm_demo_unmapped
  by (auto simp: PTE_GET_ADDR_def)

text \<open>
  \<open>vmm_change_flag\<close> replaces the flags of a mapped page, keeping its address, and reports
  whether the page was mapped; no other entry changes.
\<close>

theorem vmm_change_flag_correct:
  assumes "vmm_ok s vmm"
  shows "(\<exists>t. vmm_change_flag vmm virt flags lock s = Inr (translate s vmm virt \<noteq> None, t) \<and> vmm_ok t vmm \<and>
      (\<forall>w. page_entry t vmm w = (if same_page w virt \<and> translate s vmm w \<noteq> None
         then PTE_GET_ADDR (page_entry s vmm w) OR flags else page_entry s vmm w))) \<or>
    (vmm_change_flag vmm virt flags lock s = Inl (Panic ''PMM_ALLOC: failed to allocate memory'') \<and> free_count s < 3)"
  using vmm_change_flag_cases [OF assms, of virt flags lock]
proof (elim disjE exE conjE)
  fix t assume t: "vmm_change_flag vmm virt flags lock s = Inr (translate s vmm virt \<noteq> None, t)"
    "entry_update s vmm virt (if translate s vmm virt = None then page_entry s vmm virt
       else PTE_GET_ADDR (page_entry s vmm virt) OR flags) t"
  have "page_entry t vmm w = (if same_page w virt \<and> translate s vmm w \<noteq> None
      then PTE_GET_ADDR (page_entry s vmm w) OR flags else page_entry s vmm w)" for w
    by (simp add: entry_update_flag [OF t(2)] flag_entry_def translate_None_iff)
  then show ?thesis using t by (auto simp: entry_update_def)
qed simp

theorem vmm_change_flag_correct_witness:
  "vmm_ok vmm_demo 0xffff800000002000 \<and>
   (\<exists>t. vmm_change_flag 0xffff800000002000 0x400000 7 True vmm_demo = Inr (False, t))"
  using vmm_demo_ok vmm_demo_free vmm_change_flag_correct [OF vmm_demo_ok, of "0x400000" 7 True] vmm_demo_unmapped
  by (auto simp: translate_def)


text \<open>
  A machine with 32 GiB of usable memory after page 0, right after \<open>pmm_init\<close>, and a kernel of
  three pages at the top of the address space.
\<close>

definition memmap_32G :: "limine_memmap_entry list" where
  "memmap_32G = [\<lparr>entry_base = 0x1000, entry_length = 0x7FFFFF000, entry_type = 0\<rparr>]"

definition vmm_off :: vmm_state where
  "vmm_off = \<lparr>mem = (\<lambda>_. 0), hhdm_offset = 0, spin_lock = 0, bitmap = 0, bitmap_top_index = 0,
     bitmap_prev_index = 0, vmm_kernel = 0, cr3 = 0\<rparr>"

definition layout_demo :: kernel_layout where
  "layout_demo = \<lparr>text_start_addr = 0xffffffff80000000, text_end_addr = 0xffffffff80000800,
     rodata_start_addr = 0xffffffff80001000, rodata_end_addr = 0xffffffff80001800,
     data_start_addr = 0xffffffff80002000, data_end_addr = 0xffffffff80002800,
     virtual_base = 0xffffffff80000000, physical_base = 0x200000\<rparr>"

lemma memmap_32G_facts:
  "memmap_ok 0xffff800000000000 memmap_32G" "top_frame memmap_32G = 0x800000"
  "bitmap_size memmap_32G = 0x100000" "usable_frames memmap_32G = {1..<0x800000}"
  "find (\<lambda>j. fits 0x100000 (memmap_32G ! j)) [0..<length memmap_32G] = Some 0"
proof -
  have u: "usable (memmap_32G ! 0)" by (simp add: usable_def memmap_32G_def LIMINE_MEMMAP_USABLE_def)
  have s: "set memmap_32G = {memmap_32G ! 0}" "length memmap_32G = 1" by (simp_all add: memmap_32G_def)
  have e: "unat (entry_base (memmap_32G ! 0)) = 0x1000" "unat (entry_length (memmap_32G ! 0)) = 0x7FFFFF000"
    by (simp_all add: memmap_32G_def)
  have "{x \<in> set memmap_32G. usable x} = {memmap_32G ! 0}" using u s by auto
  then show t: "top_frame memmap_32G = 0x800000" unfolding top_frame_def by (simp add: e)
  show "bitmap_size memmap_32G = 0x100000"
    by (simp add: bitmap_size_def t ALIGN_UP_def DIV_ROUNDUP_def PAGE_SIZE_def)
  show "usable_frames memmap_32G = {1..<0x800000}"
    unfolding usable_frames_def frames_of_def s(1) using u by (simp add: e)
  show "memmap_ok 0xffff800000000000 memmap_32G"
    unfolding memmap_ok_def using u s by (simp add: entry_ok_def e)
  show "find (\<lambda>j. fits 0x100000 (memmap_32G ! j)) [0..<length memmap_32G] = Some 0"
    using u by (simp add: s(2) fits_def) (simp add: memmap_32G_def)
qed

definition started_32G :: vmm_state where
  "started_32G = pmm_started 0xffff800000000000 (memmap_32G[0 := carve 0x100000 (memmap_32G ! 0)])
     (memmap_32G ! 0) 0x800000 0x100000 vmm_off"

lemma started_32G_init:
  "pmm_init 0xffff800000000000 memmap_32G vmm_off =
     Inr (memmap_32G[0 := carve 0x100000 (memmap_32G ! 0)], started_32G)"
proof -
  have "bitmap vmm_off = 0" by (simp add: vmm_off_def)
  from pmm_init_eq [OF memmap_32G_facts(1) this] show ?thesis
    by (simp add: memmap_32G_facts(2,3,5) [simplified] started_32G_def Let_def)
qed

lemma started_32G_facts: "pmm_inv started_32G" "free_count started_32G = 0x7FFEFF" "hhdm_offset started_32G = 0xffff800000000000"
proof -
  have j: "0 < length memmap_32G" "fits (bitmap_size memmap_32G) (memmap_32G ! 0)"
    unfolding memmap_32G_facts(3)
    by (simp_all add: memmap_32G_def fits_def usable_def LIMINE_MEMMAP_USABLE_def)
  have sz: "(top_frame memmap_32G + 7) div 8 \<le> unat (bitmap_size memmap_32G)" by (simp add: memmap_32G_facts)
  have "spin_lock vmm_off = 0" "bitmap_prev_index vmm_off = 0" by (simp_all add: vmm_off_def)
  note st = pmm_started_inv [OF memmap_32G_facts(1) j sz this, unfolded memmap_32G_facts(2-4), folded started_32G_def]
  show "pmm_inv started_32G" by (rule st(1))
  define n :: nat where "n = 0x800000"
  have B: "unat (entry_base (memmap_32G ! 0)) div 4096 = 1" "unat (0x100000 :: u64) div 4096 = 0x100"
    by (simp_all add: memmap_32G_def)
  have u: "used_pages started_32G = ({..<n} - {1..<n}) \<union> {1..<1 + 0x100}"
    using st(2) unfolding B n_def .
  have "{f. f < n \<and> \<not> page_used started_32G f} = {f. f < n} - used_pages started_32G"
    using st(3) unfolding used_pages_def n_def [symmetric] by (simp only:) blast
  also have "\<dots> = {0x101..<n}"
    unfolding u by (rule set_eqI) (simp only: Diff_iff Un_iff mem_Collect_eq atLeastLessThan_iff lessThan_iff, arith)
  finally have "free_count started_32G = card {0x101..<n}"
    unfolding free_count_def st(3) n_def [symmetric] by (simp only:)
  then show "free_count started_32G = 0x7FFEFF" by (simp add: n_def)
  show "hhdm_offset started_32G = 0xffff800000000000" by (simp add: started_32G_def pmm_started_def Let_def)
qed

lemma page_list_length: "length (page_list start stop) = unat stop div 4096 - unat start div 4096"
  by (simp only: page_list_def length_map length_upt)

lemma layout_demo_pages:
  "ALIGN_DOWN (text_start_addr layout_demo) PAGE_SIZE = 0xffffffff80000000"
  "ALIGN_UP (text_end_addr layout_demo) PAGE_SIZE = 0xffffffff80001000"
  "ALIGN_DOWN (rodata_start_addr layout_demo) PAGE_SIZE = 0xffffffff80001000"
  "ALIGN_UP (rodata_end_addr layout_demo) PAGE_SIZE = 0xffffffff80002000"
  "ALIGN_DOWN (data_start_addr layout_demo) PAGE_SIZE = 0xffffffff80002000"
  "ALIGN_UP (data_end_addr layout_demo) PAGE_SIZE = 0xffffffff80003000"
  by (simp_all add: layout_demo_def ALIGN_UP_def ALIGN_DOWN_def DIV_ROUNDUP_def PAGE_SIZE_def)

lemma kernel_mappings_demo_length: "length (kernel_mappings 0xffff800000000000 layout_demo) = 0x200001"
proof -
  have low: "length (concat (map (low_mappings H) xs)) = 2 * length xs" for H xs
    by (induction xs) (simp_all add: low_mappings_def)
  show ?thesis
    unfolding kernel_mappings_def length_append length_map low layout_demo_pages page_list_length by simp
qed


text \<open>
  C23. A new address space shares every mapping of the kernel's: \<open>vmm_new\<close> copies all 512
  top-level entries, so both address spaces are well formed and give every virtual page the same
  entry. The kernel's own gets two mappings more, of the new \<open>vmm_t\<close> and of its root, at their
  direct-map address plus the direct-map offset and pointing at their direct-map address.
\<close>

theorem vmm_new_shares_kernel:
  fixes s :: "'a vmm_state_scheme"
  assumes "vmm_ok s (vmm_kernel s)" and "8 \<le> free_count s"
  shows "\<exists>new_vmm pml t. vmm_new s = Inr (new_vmm, t) \<and> vmm_kernel t = vmm_kernel s \<and>
      vmm_ok t (vmm_kernel s) \<and> vmm_ok t new_vmm \<and> page_entry t new_vmm = page_entry t (vmm_kernel s) \<and>
      page_entry t (vmm_kernel s) =
        map_entry (pml + hhdm_offset s) (pml OR (PTE_PRESENT OR PTE_WRITABLE))
          (map_entry (new_vmm + hhdm_offset s) (new_vmm OR (PTE_PRESENT OR PTE_WRITABLE)) (page_entry s (vmm_kernel s)))"
proof -
  have "\<not> free_count s < 8" using assms(2) by linarith
  then show ?thesis using vmm_new_cases [OF assms(1)] by blast
qed

theorem vmm_new_shares_kernel_witness:
  "\<exists>s new_vmm t. vmm_init layout_demo started_32G = Inr s \<and> vmm_new s = Inr (new_vmm, t) \<and>
     page_entry t new_vmm = page_entry t (vmm_kernel s)"
proof -
  have enough: "\<not> free_count started_32G < 266 + 3 * length (kernel_mappings (hhdm_offset started_32G) layout_demo)"
    by (simp add: started_32G_facts kernel_mappings_demo_length)
  then obtain s where s: "vmm_init layout_demo started_32G = Inr s" "vmm_ok s (vmm_kernel s)"
    "free_count started_32G \<le> 258 + 3 * length (kernel_mappings (hhdm_offset started_32G) layout_demo) + free_count s"
    using vmm_init_cases [OF started_32G_facts(1), of layout_demo] by fastforce
  have "8 \<le> free_count s" using s(3) enough by linarith
  from vmm_new_shares_kernel [OF s(2) this] show ?thesis using s(1) by blast
qed

end
