(* ===== verification/Kheap.thy ===== *)
theory Kheap
  imports Vmm_Space
begin

text \<open>
  The kernel heap of \<open>kheap.c\<close>. An arena is a structure at the start of a run of pages, read and
  written through its address in the direct map: \<open>next\<close> at offset 0, \<open>base\<close> 8, \<open>size\<close> 16,
  \<open>offset\<close> 24 and \<open>allocated\<close> 32, forty bytes in all; an allocation is preceded by eight bytes
  that hold its arena's base. Walking the list of arenas follows pointers in memory, so the two
  walks are partial functions.
\<close>

subsection \<open>Definitions\<close>

definition sizeof_arena :: u64 where
  "sizeof_arena = 40"

definition sizeof_metadata :: u64 where
  "sizeof_metadata = 8"

definition arena_next :: "memory \<Rightarrow> u64 \<Rightarrow> u64" where "arena_next m a = load64 m a"
definition arena_base :: "memory \<Rightarrow> u64 \<Rightarrow> u64" where "arena_base m a = load64 m (a + 8)"
definition arena_size :: "memory \<Rightarrow> u64 \<Rightarrow> u64" where "arena_size m a = load64 m (a + 16)"
definition arena_offset :: "memory \<Rightarrow> u64 \<Rightarrow> u64" where "arena_offset m a = load64 m (a + 24)"
definition arena_allocated :: "memory \<Rightarrow> u64 \<Rightarrow> u64" where "arena_allocated m a = load64 m (a + 32)"

text \<open>The first arena of the list with enough room, 0 when there is none.\<close>

partial_function (option) arena_find :: "memory \<Rightarrow> u64 \<Rightarrow> u64 \<Rightarrow> u64 option" where
  "arena_find m sz arena =
     (if arena = 0 then Some 0
      else if arena_size m arena - arena_offset m arena \<ge> sz + sizeof_metadata then Some arena
      else arena_find m sz (arena_next m arena))"

partial_function (option) arena_end :: "memory \<Rightarrow> u64 \<Rightarrow> u64 option" where
  "arena_end m current = (if current \<noteq> 0 then arena_end m (arena_next m current) else Some current)"

text \<open>Taking \<open>size\<close> bytes from an arena, after the metadata word.\<close>

definition arena_take :: "u64 \<Rightarrow> u64 \<Rightarrow> memory \<Rightarrow> u64 \<times> memory" where
  "arena_take sz arena m =
     (let m = store64 m (arena_base m arena + arena_offset m arena) (arena_base m arena);
          ret = arena_base m arena + arena_offset m arena + sizeof_metadata;
          m = store64 m (arena + 24) (arena_offset m arena + sz + sizeof_metadata);
          m = store64 m (arena + 32) (arena_allocated m arena + 1)
      in (ret, m))"

definition arena_pages :: "u64 \<Rightarrow> u64" where
  "arena_pages sz = DIV_ROUNDUP (sz + sizeof_arena + sizeof_metadata) PAGE_SIZE"

function k_alloc_map ::
  "u64 \<Rightarrow> u64 \<Rightarrow> u64 \<Rightarrow> u64 \<Rightarrow> 'a pmm_state_scheme \<Rightarrow> 'a pmm_state_scheme result" where
  "k_alloc_map curr_vmm new_alloc n i s =
     (if i < n then
        bindE (vmm_map_page curr_vmm (new_alloc + i * PAGE_SIZE + get_hhdm s) (new_alloc + i * PAGE_SIZE)
                 (PTE_PRESENT OR PTE_WRITABLE) s) (\<lambda>r.
          if \<not> fst r then Inl (Panic ''k_alloc: failed to map new allocated page'')
          else k_alloc_map curr_vmm new_alloc n (i + 1) (snd r))
      else Inr s)"
  by pat_completeness auto
termination
  by (relation "measure (\<lambda>(vmm, a, n, i, s). unat n - unat i)") (auto simp: word_less_nat_alt)

declare k_alloc_map.simps [simp del]

definition arena_new :: "u64 \<Rightarrow> u64 \<Rightarrow> memory \<Rightarrow> memory" where
  "arena_new sz new_arena m =
     (let m = store64 m new_arena 0;
          m = store64 m (new_arena + 8) new_arena;
          m = store64 m (new_arena + 16) (ALIGN_UP (sz + sizeof_arena + sizeof_metadata) PAGE_SIZE);
          m = store64 m (new_arena + 24) sizeof_arena
      in store64 m (new_arena + 32) 0)"

definition k_alloc :: "u64 \<Rightarrow> 'a vmm_state_scheme \<Rightarrow> (u64 \<times> 'a vmm_state_scheme) result" where
  "k_alloc sz s =
     (let curr_vmm = vmm_kernel s in
      bindE (of_loop (arena_find (mem s) sz (vmm_arena (mem s) curr_vmm))) (\<lambda>arena.
        if arena \<noteq> 0 then
          let (ret, m) = arena_take sz arena (mem s) in Inr (ret, s\<lparr>mem := m\<rparr>)
        else
          bindE (pmm_alloc (arena_pages sz) s) (\<lambda>(new_alloc, s).
          bindE (k_alloc_map curr_vmm new_alloc (arena_pages sz) 0 s) (\<lambda>s.
            let new_arena = new_alloc + get_hhdm s;
                s = s\<lparr>mem := arena_new sz new_arena (mem s)\<rparr>
            in bindE (of_loop (arena_end (mem s) (vmm_arena (mem s) curr_vmm))) (\<lambda>_.
                 let (ret, m) = arena_take sz new_arena (mem s) in Inr (ret, s\<lparr>mem := m\<rparr>))))))"

text \<open>The unmapping loop reads the arena's size again for every page.\<close>

partial_function (option) k_free_unmap :: "u64 \<Rightarrow> u64 \<Rightarrow> u64 \<Rightarrow> 'a pmm_state_scheme \<Rightarrow> 'a pmm_state_scheme result option" where
  "k_free_unmap vmm arena i s =
     (if i < arena_size (mem s) arena div PAGE_SIZE then
        case vmm_unmap_page vmm (arena + i * PAGE_SIZE) True s of
          Inl e \<Rightarrow> Some (Inl e)
        | Inr r \<Rightarrow> k_free_unmap vmm arena (i + 1) (snd r)
      else Some (Inr s))"

definition k_free :: "u64 \<Rightarrow> 'a vmm_state_scheme \<Rightarrow> 'a vmm_state_scheme result" where
  "k_free addr s =
     (let arena = load64 (mem s) (addr - sizeof_metadata);
          s = s\<lparr>mem := store64 (mem s) (arena + 32) (arena_allocated (mem s) arena - 1)\<rparr>
      in if arena_allocated (mem s) arena \<le> 0 then
           bindE (pmm_free (arena_base (mem s) arena - get_hhdm s)
                    (DIV_ROUNDUP (arena_size (mem s) arena) PAGE_SIZE) s) (\<lambda>s.
             run_loop (k_free_unmap (vmm_kernel s) arena 0 s))
         else Inr s)"

definition kalloc :: "u64 \<Rightarrow> 'a vmm_state_scheme \<Rightarrow> (u64 \<times> 'a vmm_state_scheme) result" where
  "kalloc sz s = k_alloc sz s"

definition kfree :: "u64 \<Rightarrow> 'a vmm_state_scheme \<Rightarrow> 'a vmm_state_scheme result" where
  "kfree ptr s = k_free ptr s"

subsection \<open>The structure of a new arena\<close>

lemma bytes_of_fields:
  assumes "j + 8 \<le> k \<or> k + 8 \<le> j" and "j < 4096" and "k < 4096"
  shows "bytes_of (a + of_nat j) 8 \<inter> bytes_of (a + of_nat k) 8 = {}"
proof -
  have e: "x \<in> bytes_of (a + of_nat j) 8 \<longleftrightarrow> (\<exists>i<8. x = a + of_nat (j + i))" for x j
    by (auto simp: bytes_of_iff add.assoc)
  have "of_nat (j + i) \<noteq> (of_nat (k + l) :: u64)" if "i < 8" "l < 8" for i l
    using assms that by (subst of_nat_eq_small) auto
  then show ?thesis by (auto simp: e)
qed

lemma load64_store64_field:
  assumes "j + 8 \<le> k \<or> k + 8 \<le> j" and "j < 4096" and "k < 4096"
  shows "load64 (store64 m (a + of_nat j) v) (a + of_nat k) = load64 m (a + of_nat k)"
  by (rule load64_store64_disjoint [OF bytes_of_fields [OF assms]])

lemmas arena_fields = load64_store64_field [of 0 8] load64_store64_field [of 0 16] load64_store64_field [of 0 24]
  load64_store64_field [of 0 32] load64_store64_field [of 8 16] load64_store64_field [of 8 24] load64_store64_field [of 8 32]
  load64_store64_field [of 16 8] load64_store64_field [of 16 24] load64_store64_field [of 16 32]
  load64_store64_field [of 24 8] load64_store64_field [of 24 16] load64_store64_field [of 24 32]
  load64_store64_field [of 32 8] load64_store64_field [of 32 16] load64_store64_field [of 32 24]
  load64_store64_field [of 40 8] load64_store64_field [of 40 16] load64_store64_field [of 40 24] load64_store64_field [of 40 32]
  load64_store64_field [of 24 40] load64_store64_field [of 32 40]

lemmas arena_field_simps = arena_fields [simplified]

lemma arena_new_take:
  defines "m1 m sz a \<equiv> snd (arena_take sz a (arena_new sz a m))"
  shows "fst (arena_take sz a (arena_new sz a m)) = a + 48"
    and "arena_base (m1 m sz a) a = a"
    and "arena_size (m1 m sz a) a = ALIGN_UP (sz + 48) PAGE_SIZE"
    and "arena_offset (m1 m sz a) a = 48 + sz"
    and "arena_allocated (m1 m sz a) a = 1"
    and "load64 (m1 m sz a) (a + 40) = a"
  unfolding m1_def arena_take_def arena_new_def arena_base_def arena_size_def arena_offset_def arena_allocated_def
    sizeof_arena_def sizeof_metadata_def Let_def
  by (simp_all add: arena_field_simps add.commute add.assoc)

subsection \<open>What page operations leave alone\<close>

lemma arena_word_lock: "vmm_arena (store32 m vmm l) vmm = vmm_arena m vmm"
proof -
  have "bytes_of vmm 4 \<inter> bytes_of (vmm + 16) 8 = {}"
  proof -
    have "of_nat i \<noteq> (of_nat (16 + j) :: u64)" if "i < 4" "j < 8" for i j
      using that by (subst of_nat_eq_small) auto
    moreover have "x \<in> bytes_of (vmm + 16) 8 \<longleftrightarrow> (\<exists>i<8. x = vmm + of_nat (16 + i))" for x
      by (auto simp: bytes_of_iff add.assoc)
    ultimately show ?thesis by (auto simp: bytes_of_iff)
  qed
  then show ?thesis unfolding vmm_arena_def by (intro load64_cong store32_other) blast
qed

text \<open>The entry that a walk finds lies in a page of the tables.\<close>

lemma leaf_store_other:
  assumes at: "vmm_at u vmm pml fv" and l: "table_at (mem u) (hhdm_offset u) pml (vpath virt) = Some l"
    and h: "h < unat (bitmap_top_index u)" "\<not> is_table u pml h" "x \<in> page_bytes u h"
  shows "store64 (mem u) (pte_addr l (lvl_offset 12 virt)) e x = mem u x"
proof -
  have inv: "pmm_inv u" "pt_inv u pml" using at by (simp_all add: vmm_at_def)
  obtain g where g: "own_page u g" "l = frame_addr u g" "is_table u pml g"
    using pt_invD [OF inv(2) vpath_in_paths(1) l] by blast
  have "page_bytes u g \<inter> page_bytes u h = {}"
    using page_bytes_disjoint [OF inv(1), of g h] g h by (auto simp: own_page_def)
  then show ?thesis using h(3) entry_in_page [OF lvl_offset_bound] g(2) by (intro store64_other) blast
qed

lemma lock_store_other:
  assumes at: "vmm_at u vmm pml fv" and h: "h < unat (bitmap_top_index u)" "h \<noteq> fv" "x \<in> page_bytes u h"
  shows "store32 (mem u) vmm l x = mem u x"
proof -
  have inv: "pmm_inv u" "own_page u fv" "vmm = frame_addr u fv" using at by (simp_all add: vmm_at_def)
  have "page_bytes u fv \<inter> page_bytes u h = {}"
    using page_bytes_disjoint [OF inv(1), of fv h] inv(2) h by (auto simp: own_page_def)
  then show ?thesis using h(3) vmm_fields_bytes(1) [of x u fv] inv(3) by (intro store32_other) blast
qed

lemma leaf_store_arena:
  assumes at: "vmm_at u vmm pml fv" and l: "table_at (mem u) (hhdm_offset u) pml (vpath virt) = Some l"
  shows "vmm_arena (store64 (mem u) (pte_addr l (lvl_offset 12 virt)) e) vmm = vmm_arena (mem u) vmm"
proof -
  have fu: "own_page u fv" "\<not> is_table u pml fv" "vmm = frame_addr u fv" using at by (simp_all add: vmm_at_def)
  show ?thesis
    unfolding vmm_arena_def fu(3)
    using fu by (intro load64_cong leaf_store_other [OF at l] vmm_fields_bytes(3)) (simp_all add: own_page_def)
qed

lemma vmm_map_page_arena:
  assumes at: "vmm_at s vmm pml fv" and lock: "vmm_lock (mem s) vmm = 0"
    and run: "vmm_map_page vmm virt physical flags s = Inr (b, t)"
  shows "vmm_arena (mem t) vmm = vmm_arena (mem s) vmm"
proof -
  let ?s1 = "s\<lparr>mem := store32 (mem s) vmm 1\<rparr>"
  note w1 = vmm_lock_write [OF at, of 1]
  have inv1: "pmm_inv ?s1" "pt_inv ?s1 pml" using w1(1) by (simp_all add: vmm_at_def)
  obtain l u where r: "vmm_walk pml virt True ?s1 = Inr (l, u)"
    using run vmm_at_pml [OF w1(1)] by (auto simp: vmm_map_page_def vmm_acquire_ok [OF lock] bindE_eq_Inr)
  note ext = vmm_walk_ext [OF inv1 r] and at_u = vmm_at_ext(1) [OF w1(1) vmm_walk_ext(1) [OF inv1 r]]
  have fv: "own_page ?s1 fv" "\<not> is_table ?s1 pml fv" and vmm: "vmm = frame_addr s fv"
    using w1(1) at by (simp_all add: vmm_at_def)
  have "page_bytes ?s1 fv = page_bytes s fv" by (simp add: page_bytes_def)
  then have "mem u x = mem ?s1 x" if "x \<in> bytes_of (vmm + 16) 8" for x
    using that pt_extD(9) [OF ext(1) fv, of x] vmm_fields_bytes(3) [of x s fv] vmm by simp
  then have u: "vmm_arena (mem u) vmm = vmm_arena (mem ?s1) vmm"
    unfolding vmm_arena_def by (rule load64_cong)
  have l: "table_at (mem u) (hhdm_offset u) pml (vpath virt) = Some l" using ext(2) pt_ext_hhdm [OF ext(1)] by simp
  note w = leaf_store_arena [OF at_u l]
  have t: "t = vmm_release vmm u \<or>
      (\<exists>e. t = vmm_release vmm (u\<lparr>mem := store64 (mem u) (pte_addr l (lvl_offset 12 virt)) e\<rparr>))"
    using run r ext(3) vmm_at_pml [OF w1(1)]
    by (auto simp: vmm_map_page_def vmm_acquire_ok [OF lock] Let_def split: if_splits)
  then show ?thesis using u w by (auto simp: vmm_release_eq arena_word_lock)
qed

text \<open>
  Steps that change only the page of the \<open>vmm_t\<close> and the pages of the tables, and no table:
  every other page, allocated or not, keeps its bytes.
\<close>

definition local_step :: "'a pmm_state_scheme \<Rightarrow> u64 \<Rightarrow> u64 \<Rightarrow> nat \<Rightarrow> 'a pmm_state_scheme \<Rightarrow> bool" where
  "local_step s vmm pml fv t \<longleftrightarrow> vmm_at t vmm pml fv \<and> static_part t = static_part s \<and> same_geometry s t \<and>
     bitmap_prev_index t = bitmap_prev_index s \<and> (\<forall>h. is_table t pml h = is_table s pml h) \<and>
     (\<forall>x \<in> bitmap_area s. mem t x = mem s x) \<and> vmm_arena (mem t) vmm = vmm_arena (mem s) vmm \<and>
     (\<forall>h x. h < unat (bitmap_top_index s) \<and> h \<noteq> fv \<and> \<not> is_table s pml h \<and> x \<in> page_bytes s h \<longrightarrow> mem t x = mem s x)"

lemma local_step_trans:
  "local_step s vmm pml fv t \<Longrightarrow> local_step t vmm pml fv u \<Longrightarrow> local_step s vmm pml fv u"
  using same_geometry_areas [of s t]
  by (simp add: local_step_def same_geometry_def)

lemma local_step_lock:
  assumes "vmm_at s vmm pml fv"
  shows "local_step s vmm pml fv (s\<lparr>mem := store32 (mem s) vmm l\<rparr>)"
proof -
  have "page_bytes s fv \<inter> bitmap_area s = {}" "vmm = frame_addr s fv" using assms by (auto simp: vmm_at_def own_page_def)
  then have "store32 (mem s) vmm l x = mem s x" if "x \<in> bitmap_area s" for x
    using that vmm_fields_bytes(1) [of x s fv] by (intro store32_other) blast
  then show ?thesis
    using vmm_lock_write [OF assms, of l] lock_store_other [OF assms]
    by (auto simp: local_step_def same_geometry_def is_table_def same_tree_def frame_addr_def static_part_def arena_word_lock)
qed

lemma local_step_leaf:
  assumes at: "vmm_at s vmm pml fv" and l: "table_at (mem s) (hhdm_offset s) pml (vpath virt) = Some l"
  shows "local_step s vmm pml fv (s\<lparr>mem := store64 (mem s) (pte_addr l (lvl_offset 12 virt)) e\<rparr>)"
proof -
  note w = leaf_write [OF at vpath_in_paths lvl_offset_bound l, where v = e]
  obtain g where g: "own_page s g" "l = frame_addr s g"
    using pt_invD [OF _ vpath_in_paths(1) l] at by (auto simp: vmm_at_def)
  have "store64 (mem s) (pte_addr l (lvl_offset 12 virt)) e x = mem s x" if "x \<in> bitmap_area s" for x
  proof (rule store64_other)
    have "x \<notin> page_bytes s g" using g(1) that by (auto simp: own_page_def)
    then show "x \<notin> bytes_of (pte_addr l (lvl_offset 12 virt)) 8" using entry_in_page [OF lvl_offset_bound] g(2) by blast
  qed
  then show ?thesis
    using w(1,4) leaf_store_other [OF at l] leaf_store_arena [OF at l]
    by (auto simp: local_step_def same_geometry_def is_table_def frame_addr_def static_part_def)
qed

lemma vmm_unmap_page_local:
  assumes at: "vmm_at s vmm pml fv" and lock: "vmm_lock (mem s) vmm = 0"
    and run: "vmm_unmap_page vmm virt True s = Inr (b, t)"
  shows "local_step s vmm pml fv t"
proof -
  define s1 where "s1 = s\<lparr>mem := store32 (mem s) vmm 1\<rparr>"
  have at1: "vmm_at s1 vmm pml fv" and st1: "local_step s vmm pml fv s1"
    using vmm_lock_write(1) [OF at, of 1] local_step_lock [OF at, of 1] by (simp_all add: s1_def)
  have acq: "vmm_acquire_if True vmm s = Inr s1" by (simp add: vmm_acquire_if_def s1_def vmm_acquire_ok [OF lock])
  have inv1: "pmm_inv s1" "pt_inv s1 pml" using at1 by (simp_all add: vmm_at_def)
  have rel: "local_step s vmm pml fv (vmm_release vmm v)" if "local_step s vmm pml fv v" for v
    using local_step_trans [OF that local_step_lock [of v vmm pml fv 0]] that by (simp add: local_step_def vmm_release_eq)
  note unf = vmm_unmap_page_def acq bindE_Inr vmm_at_pml [OF at1] vmm_walk_noalloc [OF inv1] vmm_release_if_def Let_def
  show ?thesis
  proof (cases "table_at (mem s1) (hhdm_offset s1) pml (vpath virt)")
    case None
    then have "t = vmm_release vmm s1" using run unfolding unf by simp
    then show ?thesis using rel [OF st1] by simp
  next
    case (Some l)
    then have "t = vmm_release vmm s1 \<or> t = vmm_release vmm (s1\<lparr>mem := store64 (mem s1) (pte_addr l (lvl_offset 12 virt)) 0\<rparr>)"
      using run unfolding unf by (simp split: if_splits)
    then show ?thesis using rel st1 local_step_trans [OF st1 local_step_leaf [OF at1 Some]] by auto
  qed
qed

subsection \<open>Mapping the pages of a new arena\<close>

definition arena_mappings :: "u64 \<Rightarrow> u64 \<Rightarrow> nat list \<Rightarrow> (u64 \<times> u64 \<times> u64) list" where
  "arena_mappings H a js = map (\<lambda>j. (a + of_nat j * PAGE_SIZE + H, a + of_nat j * PAGE_SIZE, PTE_PRESENT OR PTE_WRITABLE)) js"

lemma k_alloc_map_eq:
  assumes "vmm_ok s vmm" and "hhdm_offset s = H" and "i \<le> n"
  shows "k_alloc_map vmm a n i s = map_all (vmm_map_page vmm) (arena_mappings H a [unat i..<unat n]) s"
  using assms
proof (induction "unat n - unat i" arbitrary: i s)
  case 0
  then have "i = n" by (simp add: word_le_nat_alt word_unat_eq_iff)
  then show ?case by (simp add: k_alloc_map.simps [of vmm a n n] arena_mappings_def)
next
  case (Suc k)
  then have i: "i < n" by (simp add: word_less_nat_alt)
  have e: "[unat i..<unat n] = unat i # [unat (i + 1)..<unat n]"
    using i by (simp add: word_less_nat_alt upt_conv_Cons)
  from vmm_map_page_refines [OF Suc.prems(1), of "a + i * PAGE_SIZE + H" "a + i * PAGE_SIZE" "PTE_PRESENT OR PTE_WRITABLE"]
  show ?case
  proof (elim disjE exE conjE)
    fix t assume t: "vmm_map_page vmm (a + i * PAGE_SIZE + H) (a + i * PAGE_SIZE) (PTE_PRESENT OR PTE_WRITABLE) s = Inr (True, t)"
      "vmm_ok t vmm" "static_part t = static_part s"
    have "k = unat n - unat (i + 1)" "i + 1 \<le> n" using Suc.hyps(2) i by (simp_all add: word_le_nat_alt word_less_nat_alt)
    with Suc.hyps(1) [of "i + 1" t] t Suc.prems
    have "k_alloc_map vmm a n (i + 1) t = map_all (vmm_map_page vmm) (arena_mappings H a [unat (i + 1)..<unat n]) t"
      by (simp add: static_part_def)
    then show ?thesis using t(1) Suc.prems(2) i
      by (simp add: k_alloc_map.simps [of vmm a n i] e arena_mappings_def get_hhdm_def)
  next
    assume "vmm_map_page vmm (a + i * PAGE_SIZE + H) (a + i * PAGE_SIZE) (PTE_PRESENT OR PTE_WRITABLE) s =
        Inl (Panic ''PMM_ALLOC: failed to allocate memory'')"
    then show ?thesis using Suc.prems(2) i by (simp add: k_alloc_map.simps [of vmm a n i] e arena_mappings_def get_hhdm_def)
  qed
qed

lemma map_all_kept:
  assumes "vmm_at s vmm pml fv" and "vmm_lock (mem s) vmm = 0" and "map_all (vmm_map_page vmm) xs s = Inr t"
  shows "vmm_at t vmm pml fv \<and> vmm_lock (mem t) vmm = 0 \<and> vmm_arena (mem t) vmm = vmm_arena (mem s) vmm \<and>
    (\<forall>f. other_page s pml fv f \<longrightarrow> page_kept s pml fv f t)"
  using assms
proof (induction xs arbitrary: s)
  case Nil
  then show ?case by (simp add: page_kept_def)
next
  case (Cons x xs)
  obtain v p f where x: "x = (v, p, f)" by (cases x)
  from Cons.prems(3) obtain b u where u: "vmm_map_page vmm v p f s = Inr (b, u)" "map_all (vmm_map_page vmm) xs u = Inr t"
    by (auto simp: x bindE_eq_Inr)
  have ok: "vmm_ok s vmm" using Cons.prems by (auto simp: vmm_ok_def)
  have "vmm_ok u vmm" using vmm_map_page_refines [OF ok, of v p f] u(1) by auto
  then have lock: "vmm_lock (mem u) vmm = 0" by (simp add: vmm_ok_def)
  note k = vmm_map_page_kept [OF Cons.prems(1,2) u(1)]
  note IH = Cons.IH [OF k(1) lock u(2)]
  have "page_kept s pml fv f t" if "other_page s pml fv f" for f
  proof -
    have "other_page u pml fv f" using k(2) [OF that] by (simp add: page_kept_def)
    then show ?thesis using page_kept_trans [OF k(2) [OF that]] IH by blast
  qed
  then show ?case using IH vmm_map_page_arena [OF Cons.prems(1,2) u(1)] by simp
qed

subsection \<open>Allocation\<close>

lemma arena_pages_unat:
  assumes "unat sz + 48 + 4095 < 2 ^ 64"
  shows "unat (arena_pages sz) = (unat sz + 48 + 4095) div 4096" and "arena_pages sz \<noteq> 0"
    and "unat (ALIGN_UP (sz + 48) PAGE_SIZE) = 4096 * unat (arena_pages sz)"
proof -
  have "unat (sz + 48) = unat sz + 48" using assms by (subst unat_add_small) simp_all
  then have e: "unat (DIV_ROUNDUP (sz + 48) PAGE_SIZE) = (unat sz + 48 + 4095) div 4096"
    "unat (ALIGN_UP (sz + 48) PAGE_SIZE) = (unat sz + 48 + 4095) div 4096 * 4096"
    using assms by (simp_all add: unat_DIV_ROUNDUP unat_ALIGN_UP)
  have a: "arena_pages sz = DIV_ROUNDUP (sz + 48) PAGE_SIZE"
    by (simp add: arena_pages_def sizeof_arena_def sizeof_metadata_def add.assoc)
  show "unat (arena_pages sz) = (unat sz + 48 + 4095) div 4096" "unat (ALIGN_UP (sz + 48) PAGE_SIZE) = 4096 * unat (arena_pages sz)"
    using e by (simp_all add: a)
  have "0 < (unat sz + 48 + 4095) div 4096" by (simp add: div_greater_zero_iff)
  then show "arena_pages sz \<noteq> 0" using e a by (metis unat_0 less_irrefl)
qed

text \<open>All writes to a new arena lie in its first 48 bytes.\<close>

lemma arena_writes_local:
  assumes "x \<notin> bytes_of a 48"
  shows "snd (arena_take sz a (arena_new sz a m)) x = m x" and "arena_new sz a m x = m x"
proof -
  have f: "bytes_of (a + of_nat k) 8 \<subseteq> bytes_of a 48" if "k + 8 \<le> 48" for k
  proof
    fix y assume "y \<in> bytes_of (a + of_nat k) 8"
    then obtain j where "j < 8" "y = a + of_nat (k + j)" by (auto simp: bytes_of_iff add.assoc)
    then show "y \<in> bytes_of a 48" using that unfolding bytes_of_iff by (intro exI [of _ "k + j"]) simp
  qed
  have "x \<notin> bytes_of a 8" "x \<notin> bytes_of (a + 8) 8" "x \<notin> bytes_of (a + 16) 8" "x \<notin> bytes_of (a + 24) 8"
    "x \<notin> bytes_of (a + 32) 8" "x \<notin> bytes_of (a + 40) 8"
    using f [of 0] f [of 8] f [of 16] f [of 24] f [of 32] f [of 40] assms by auto
  then show "snd (arena_take sz a (arena_new sz a m)) x = m x" "arena_new sz a m x = m x"
    by (simp_all add: arena_take_def arena_new_def arena_base_def arena_offset_def arena_field_simps sizeof_arena_def
        sizeof_metadata_def Let_def store64_other)
qed

text \<open>Writing into a page that belongs neither to the tables nor to the \<open>vmm_t\<close>.\<close>

lemma other_page_write:
  assumes at: "vmm_at s vmm pml fv" and g: "other_page s pml fv g" and m: "\<forall>x. x \<notin> page_bytes s g \<longrightarrow> m x = mem s x"
  shows "vmm_at (s\<lparr>mem := m\<rparr>) vmm pml fv" and "vmm_lock m vmm = vmm_lock (mem s) vmm"
    and "vmm_arena m vmm = vmm_arena (mem s) vmm" and "page_entry (s\<lparr>mem := m\<rparr>) vmm = page_entry s vmm"
    and "is_table (s\<lparr>mem := m\<rparr>) pml f = is_table s pml f" and "own_page (s\<lparr>mem := m\<rparr>) f = own_page s f"
    and "free_count (s\<lparr>mem := m\<rparr>) = free_count s" and "other_page s pml fv f \<Longrightarrow> f \<noteq> g \<Longrightarrow> page_kept s pml fv f (s\<lparr>mem := m\<rparr>)"
proof -
  let ?t = "s\<lparr>mem := m\<rparr>"
  have inv: "pmm_inv s" and og: "own_page s g" "\<not> is_table s pml g" "g \<noteq> fv"
    using at g by (simp_all add: vmm_at_def other_page_def)
  note w = own_page_write [OF inv og(1), of m, OF m [rule_format]]
  show own: "own_page ?t f = own_page s f" for f by (rule w(2))
  show "free_count ?t = free_count s" by (rule w(3))
  have geo: "same_geometry s ?t" by (simp add: same_geometry_def)
  have dis: "mem ?t x = mem s x" if "own_page s f" "f \<noteq> g" "x \<in> page_bytes s f" for f x
    using page_bytes_disjoint [OF inv, of f g] that og(1) m by (auto simp: own_page_def)
  have keep: "mem ?t x = mem s x" if "own_page s f" "is_table s pml f \<or> f = fv" "x \<in> page_bytes s f" for f x
    using that og by (intro dis [of f]) auto
  note k = vmm_at_keep [OF at w(1) geo _ keep, unfolded own]
  show "vmm_at ?t vmm pml fv" "page_entry ?t vmm = page_entry s vmm" by (rule k; assumption)+
  show "vmm_lock m vmm = vmm_lock (mem s) vmm" "vmm_arena m vmm = vmm_arena (mem s) vmm" using k(2,3) by simp_all
  show tab: "is_table ?t pml f = is_table s pml f" for f by (rule k; assumption)
  show "page_kept s pml fv f ?t" if "other_page s pml fv f" "f \<noteq> g"
    using that dis [of f] own tab by (simp add: page_kept_def other_page_def page_bytes_def fun_eq_iff)
qed

definition arena_state :: "u64 \<Rightarrow> u64 \<Rightarrow> 'a pmm_state_scheme \<Rightarrow> 'a pmm_state_scheme" where
  "arena_state sz a s = s\<lparr>mem := snd (arena_take sz a (arena_new sz a (mem s)))\<rparr>"

lemma arena_bytes: "bytes_of (frame_addr s g) 48 \<subseteq> page_bytes s g"
  using bytes_of_mono [of 48 4096 "frame_addr s g"] by (simp add: page_bytes_def frame_addr_def)

lemma arena_writes_page:
  "\<forall>x. x \<notin> page_bytes s g \<longrightarrow> snd (arena_take sz (frame_addr s g) (arena_new sz (frame_addr s g) m)) x = m x"
  "\<forall>x. x \<notin> page_bytes s g \<longrightarrow> arena_new sz (frame_addr s g) m x = m x"
  using arena_bytes [of s g] by (auto intro!: arena_writes_local)

lemma alloc_post_free_count_n:
  assumes "alloc_post s g n t"
  shows "free_count s = n + free_count t"
proof -
  let ?S = "{f. f < unat (bitmap_top_index s) \<and> \<not> page_used s f}" and ?T = "{f. f < unat (bitmap_top_index t) \<and> \<not> page_used t f}"
  have free: "\<not> page_used s f" if "g \<le> f" "f < g + n" for f
    using assms that unfolding alloc_post_def free_run_def by (metis le_add_diff_inverse nat_add_left_cancel_less)
  then have "?S = {g..<g + n} \<union> ?T" "{g..<g + n} \<inter> ?T = {}"
    using assms by (auto simp: alloc_post_def same_geometry_def)
  then have "card ?S = card {g..<g + n} + card ?T" by (metis card_Un_disjoint finite_atLeastLessThan finite_Collect_conjI finite_Collect_less_nat)
  then show ?thesis by (simp add: free_count_def)
qed

definition k_alloc_post ::
  "'a vmm_state_scheme \<Rightarrow> u64 \<Rightarrow> nat \<Rightarrow> u64 \<Rightarrow> nat \<Rightarrow> 'a vmm_state_scheme \<Rightarrow> bool" where
  "k_alloc_post s pml fv sz g t \<longleftrightarrow>
     (let n = unat (arena_pages sz); a = frame_addr s g; k = vmm_kernel s in
      vmm_at t k pml fv \<and> vmm_lock (mem t) k = 0 \<and> vmm_arena (mem t) k = 0 \<and> static_part t = static_part s \<and>
      0 < g \<and> g + n \<le> unat (bitmap_top_index s) \<and> (\<forall>j<n. other_page t pml fv (g + j) \<and> \<not> page_used s (g + j)) \<and>
      arena_base (mem t) a = a \<and> arena_size (mem t) a = ALIGN_UP (sz + 48) PAGE_SIZE \<and>
      arena_allocated (mem t) a = 1 \<and> load64 (mem t) (a + 40) = a \<and>
      (\<forall>j<n. \<forall>x \<in> page_bytes s (g + j). x \<notin> bytes_of a 48 \<longrightarrow> mem t x = 0) \<and>
      (\<forall>f. other_page s pml fv f \<longrightarrow> page_kept s pml fv f t) \<and>
      page_entry t k = map_list (mapped_entries (arena_mappings (hhdm_offset s) (of_nat g * PAGE_SIZE) [0..<n])) (page_entry s k) \<and>
      free_count s \<le> 4 * n + free_count t)"

lemma alloc_keeps:
  assumes at: "vmm_at s vmm pml fv" and post: "alloc_post s g n t"
  shows "vmm_at t vmm pml fv" and "vmm_lock (mem t) vmm = vmm_lock (mem s) vmm"
    and "vmm_arena (mem t) vmm = vmm_arena (mem s) vmm" and "page_entry t vmm = page_entry s vmm"
    and "j < n \<Longrightarrow> other_page t pml fv (g + j)" and "other_page s pml fv f \<Longrightarrow> page_kept s pml fv f t"
proof -
  have inv: "pmm_inv s" using at by (simp add: vmm_at_def)
  have inv_t: "pmm_inv t" and geo: "same_geometry s t" using post by (simp_all add: alloc_post_def)
  note own = own_page_alloc(1) [OF post]
  have keep: "mem t x = mem s x" if "own_page s f" "x \<in> page_bytes s f" for f x
    using own_page_alloc(3) [OF post that(1,2) inv] .
  show "vmm_at t vmm pml fv" "vmm_lock (mem t) vmm = vmm_lock (mem s) vmm" "vmm_arena (mem t) vmm = vmm_arena (mem s) vmm"
    "page_entry t vmm = page_entry s vmm"
    by (rule vmm_at_keep [OF at inv_t geo], erule own, erule keep, assumption)+
  have tab: "is_table t pml f = is_table s pml f" for f
    by (rule vmm_at_keep [OF at inv_t geo], erule own, erule keep, assumption)
  show "page_kept s pml fv f t" if "other_page s pml fv f"
    using that own keep tab same_geometry_areas(1) [OF geo] by (auto simp: page_kept_def other_page_def)
  show "other_page t pml fv (g + j)" if "j < n"
  proof -
    have free: "\<not> page_used s (g + j)" using post that by (simp add: alloc_post_def free_run_def)
    have top: "g + j < unat (bitmap_top_index s)" "0 < g" using post that by (simp_all add: alloc_post_def)
    have "page_used t (g + j)" using post that top by (simp add: alloc_post_def)
    then have "own_page t (g + j)"
      using pmm_invD(5) [OF inv top(1) free] same_geometry_areas [OF geo] top geo by (simp add: own_page_def same_geometry_def)
    moreover have "\<not> own_page s (g + j)" using free by (simp add: own_page_def)
    ultimately show ?thesis by (intro new_page_other [OF at inv_t geo own tab])
  qed
qed

lemma k_alloc_post_intro:
  fixes s :: "'a vmm_state_scheme"
  assumes at: "vmm_at s (vmm_kernel s) pml fv" and lock: "vmm_lock (mem s) (vmm_kernel s) = 0"
    and arena: "vmm_arena (mem s) (vmm_kernel s) = 0"
    and n: "n = unat (arena_pages sz)" "0 < n" and post: "alloc_post s g n t1"
    and xs: "xs = arena_mappings (hhdm_offset s) (of_nat g * PAGE_SIZE) [0..<n]"
    and r2: "map_all (vmm_map_page (vmm_kernel s)) xs t1 = Inr t2"
    and pe2: "page_entry t2 (vmm_kernel s) = map_list (mapped_entries xs) (page_entry t1 (vmm_kernel s))"
    and cnt2: "free_count t1 \<le> 3 * length xs + free_count t2" and st2: "static_part t2 = static_part t1"
  shows "k_alloc_post s pml fv sz g (arena_state sz (frame_addr s g) t2)"
    and "other_page t2 pml fv g" and "vmm_at t2 (vmm_kernel s) pml fv" and "vmm_arena (mem t2) (vmm_kernel s) = 0"
proof -
  let ?k = "vmm_kernel s" and ?a = "frame_addr s g" and ?t = "arena_state sz (frame_addr s g) t2"
  note k1 = alloc_keeps [OF at post]
  have lock1: "vmm_lock (mem t1) ?k = 0" using k1(2) lock by simp
  note k2 = map_all_kept [OF k1(1) lock1 r2]
  have st: "static_part t1 = static_part s" using post by (auto simp: alloc_post_def static_part_def)
  then have fr: "frame_addr t2 = frame_addr s" "page_bytes t1 = page_bytes s" "page_bytes t2 = page_bytes s"
    using st2 by (simp_all add: static_part_def frame_addr_def page_bytes_def fun_eq_iff)
  have new: "other_page t2 pml fv (g + j)" "page_kept t1 pml fv (g + j) t2" if "j < n" for j
    using k1(5) [OF that] k2 by (auto simp: page_kept_def)
  show g2: "other_page t2 pml fv g" using new(1) [OF n(2)] by simp
  show at2: "vmm_at t2 ?k pml fv" and ar2: "vmm_arena (mem t2) ?k = 0" using k2 k1(3) arena by simp_all
  note k3 = other_page_write [OF at2 g2 arena_writes_page(1) [where sz = sz and m = "mem t2"], folded arena_state_def, unfolded fr]
  have own: "other_page ?t pml fv (g + j) \<and> \<not> page_used s (g + j)" if "j < n" for j
    using new(1) [OF that] k3(5,6) post that by (simp add: other_page_def alloc_post_def free_run_def)
  have zero: "mem ?t x = 0" if j: "j < n" "x \<in> page_bytes s (g + j)" "x \<notin> bytes_of ?a 48" for j x
  proof -
    have "g \<le> g + j \<and> g + j < g + n" using j(1) by simp
    then have "mem t1 x = 0" using post j(2) unfolding alloc_post_def by blast
    then show ?thesis
      using new(2) [OF j(1)] j(2,3) by (simp add: arena_state_def arena_writes_local(1) page_kept_def fr)
  qed
  have kept: "page_kept s pml fv f ?t" if f: "other_page s pml fv f" for f
  proof -
    have o1: "other_page t1 pml fv f" using k1(6) [OF f] by (simp add: page_kept_def)
    then have k12: "page_kept s pml fv f t2" using page_kept_trans [OF k1(6) [OF f]] k2 by blast
    have "f \<noteq> g" using f own [OF n(2)] by (auto simp: other_page_def own_page_def)
    moreover have "other_page t2 pml fv f" using k12 by (simp add: page_kept_def)
    ultimately show ?thesis using page_kept_trans [OF k12] k3(8) by blast
  qed
  have m: "mem ?t = snd (arena_take sz ?a (arena_new sz ?a (mem t2)))" by (simp add: arena_state_def)
  note f = arena_new_take(2,3,5,6) [of sz ?a "mem t2", folded m]
  have cnt: "free_count s \<le> 4 * n + free_count ?t"
    using alloc_post_free_count_n [OF post] cnt2 by (simp add: xs arena_mappings_def k3(7))
  have "page_entry ?t ?k = map_list (mapped_entries xs) (page_entry s ?k)" using k3(4) pe2 k1(4) by simp
  moreover have "static_part ?t = static_part s" using st st2 by (simp add: arena_state_def static_part_def)
  moreover have "vmm_at ?t ?k pml fv" "vmm_lock (mem ?t) ?k = 0" "vmm_arena (mem ?t) ?k = 0"
    using k3(1-3) k2 ar2 by (simp_all add: arena_state_def)
  moreover have "0 < g" "g + n \<le> unat (bitmap_top_index s)" using post by (simp_all add: alloc_post_def)
  ultimately show "k_alloc_post s pml fv sz g ?t"
    unfolding k_alloc_post_def Let_def n(1) [symmetric] xs [symmetric]
    by (intro conjI allI impI ballI own kept cnt f) (assumption | rule own [THEN conjunct1] own [THEN conjunct2] zero)+
qed

lemma k_alloc_cases:
  fixes s :: "'a vmm_state_scheme"
  assumes at: "vmm_at s (vmm_kernel s) pml fv" and lock: "vmm_lock (mem s) (vmm_kernel s) = 0"
    and arena: "vmm_arena (mem s) (vmm_kernel s) = 0" and sz: "unat sz + 48 + 4095 < 2 ^ 64"
  defines "n \<equiv> unat (arena_pages sz)"
  shows "(\<exists>g t. k_alloc sz s = Inr (frame_addr s g + 48, t) \<and> alloc_choice s n = Some g \<and> k_alloc_post s pml fv sz g t) \<or>
    k_alloc sz s = Inl (Panic ''PMM_ALLOC: failed to allocate memory'') \<and> (alloc_choice s n = None \<or> free_count s < 4 * n)"
proof -
  let ?k = "vmm_kernel s" and ?H = "hhdm_offset s"
  have inv: "pmm_inv s" using at by (simp add: vmm_at_def)
  have nz: "arena_pages sz \<noteq> 0" by (rule arena_pages_unat(2) [OF sz])
  have find0: "arena_find m z 0 = Some 0" and end0: "arena_end m 0 = Some 0" for m z
    by (simp_all add: arena_find.simps [of m z 0] arena_end.simps [of m 0])
  show ?thesis
  proof (cases "alloc_choice s n")
    case None
    then show ?thesis using arena by (simp add: k_alloc_def find0 pmm_alloc_eq [OF inv nz] n_def)
  next
    case (Some g)
    then obtain t1 where r1: "pmm_alloc (arena_pages sz) s = Inr (of_nat g * PAGE_SIZE, t1)" and post: "alloc_post s g n t1"
      using alloc_post_intro [OF inv nz, of g] by (simp add: pmm_alloc_eq [OF inv nz] n_def)
    note k1 = alloc_keeps [OF at post]
    have H1: "hhdm_offset t1 = ?H" "frame_addr t1 = frame_addr s" and st1: "static_part t1 = static_part s" and top1: "bitmap_top_index t1 = bitmap_top_index s"
      using post by (auto simp: alloc_post_def same_geometry_def static_part_def frame_addr_def fun_eq_iff)
    have ok1: "vmm_ok t1 ?k" using k1(1,2) lock by (auto simp: vmm_ok_def)
    let ?xs = "arena_mappings ?H (of_nat g * PAGE_SIZE) [0..<n]"
    have map: "k_alloc_map ?k (of_nat g * PAGE_SIZE) (arena_pages sz) 0 t1 = map_all (vmm_map_page ?k) ?xs t1"
      using k_alloc_map_eq [OF ok1 H1(1), of 0 "arena_pages sz"] by (simp add: n_def)
    have cnt: "free_count s = n + free_count t1" by (rule alloc_post_free_count_n [OF post])
    from vm.map_all_ok [OF ok1, of ?xs] show ?thesis
    proof (elim disjE exE conjE)
      fix t2 assume r2: "map_all (vmm_map_page ?k) ?xs t1 = Inr t2" and ok2: "vmm_ok t2 ?k"
        and pe2: "page_entry t2 ?k = map_list (map (\<lambda>(v, p, f). (v, p OR f)) ?xs) (page_entry t1 ?k)"
        and cnt2: "free_count t1 \<le> 3 * length ?xs + free_count t2" and st2: "static_part t2 = static_part t1"
      have n0: "0 < n" using nz by (simp add: n_def unat_gt_0)
      have pe: "page_entry t2 ?k = map_list (mapped_entries ?xs) (page_entry t1 ?k)" using pe2 by (simp add: mapped_entries_def)
      note p = k_alloc_post_intro [OF at lock arena n_def [THEN meta_eq_to_obj_eq] n0 post refl r2 pe cnt2 st2]
      have H2: "hhdm_offset t2 = ?H" "frame_addr t2 = frame_addr s"
        using st2 st1 by (simp_all add: static_part_def frame_addr_def fun_eq_iff)
      have a: "of_nat g * PAGE_SIZE + get_hhdm t2 = frame_addr s g" by (simp add: get_hhdm_def H2 frame_addr_def)
      have "k_alloc sz s = Inr (frame_addr s g + 48, arena_state sz (frame_addr s g) t2)"
        using arena p(4) other_page_write(3) [OF p(3,2) arena_writes_page(2) [where sz = sz and m = "mem t2"]] arena_new_take(1) [of sz "frame_addr s g" "mem t2"]
        by (simp add: k_alloc_def find0 r1 map r2 a end0 arena_state_def H2 case_prod_beta Let_def)
      then show ?thesis using p(1) Some by blast
    next
      assume "map_all (vmm_map_page ?k) ?xs t1 = Inl (Panic ''PMM_ALLOC: failed to allocate memory'')" "free_count t1 < 3 * length ?xs"
      then show ?thesis using arena cnt by (simp add: k_alloc_def find0 r1 map arena_mappings_def)
    qed
  qed
qed

subsection \<open>Release\<close>

lemma local_step_size:
  assumes st: "local_step s vmm pml fv t" and g: "g < unat (bitmap_top_index s)" "g \<noteq> fv" "\<not> is_table s pml g"
  shows "arena_size (mem t) (frame_addr s g) = arena_size (mem s) (frame_addr s g)"
proof -
  have "mem t x = mem s x" if "x \<in> page_bytes s g" for x using st g that unfolding local_step_def by blast
  then show ?thesis unfolding arena_size_def by (intro load64_cong) (simp add: vmm_fields_bytes(3))
qed

lemma local_step_refl: "vmm_at s vmm pml fv \<Longrightarrow> local_step s vmm pml fv s"
  by (simp add: local_step_def same_geometry_def)

lemma k_free_unmap_run:
  assumes "vmm_at s vmm pml fv" and "vmm_lock (mem s) vmm = 0" and "g < unat (bitmap_top_index s)" and "g \<noteq> fv"
    and "\<not> is_table s pml g" and "a = frame_addr s g" and "unat (arena_size (mem s) a) = 4096 * n" and "i \<le> n"
  shows "\<exists>t. k_free_unmap vmm a (of_nat i) s = Some (Inr t) \<and> local_step s vmm pml fv t \<and> vmm_lock (mem t) vmm = 0 \<and>
    page_entry t vmm = fold (\<lambda>j. unmap_entry (a + of_nat j * PAGE_SIZE)) [i..<n] (page_entry s vmm)"
  using assms
proof (induction "n - i" arbitrary: i s)
  case (0 i s)
  have sz: "arena_size (mem s) a div PAGE_SIZE = of_nat n"
    using "0.prems"(7) by (simp add: word_unat_eq_iff unat_div) (use unat_bound [of "arena_size (mem s) a"] in simp)
  have "i = n" using 0 by simp
  then show ?case
    using local_step_refl [OF "0.prems"(1)] "0.prems"(2) by (simp add: k_free_unmap.simps [of vmm a "of_nat n" s] sz)
next
  case (Suc k i s)
  have n: "n < 2 ^ 52" using Suc.prems(7) unat_bound [of "arena_size (mem s) a"] by simp
  have sz: "arena_size (mem s) a div PAGE_SIZE = of_nat n"
    using Suc.prems(7) n by (simp add: word_unat_eq_iff unat_div)
  have i: "i < n" "of_nat i < (of_nat n :: u64)" using Suc.hyps(2) n by (simp_all add: word_less_nat_alt)
  have ok: "vmm_ok s vmm" using Suc.prems(1,2) by (auto simp: vmm_ok_def)
  obtain b t where t: "vmm_unmap_page vmm (a + of_nat i * PAGE_SIZE) True s = Inr (b, t)" "vmm_ok t vmm"
    "page_entry t vmm = unmap_entry (a + of_nat i * PAGE_SIZE) (page_entry s vmm)"
    using vmm_unmap_page_refines [OF ok] by blast
  have st: "local_step s vmm pml fv t" by (rule vmm_unmap_page_local [OF Suc.prems(1,2) t(1)])
  have at: "vmm_at t vmm pml fv" and top: "bitmap_top_index t = bitmap_top_index s" and fr: "frame_addr t g = frame_addr s g"
    and tab: "is_table t pml g = is_table s pml g"
    using st by (simp_all add: local_step_def same_geometry_def frame_addr_def)
  have "\<exists>u. k_free_unmap vmm a (of_nat (Suc i)) t = Some (Inr u) \<and> local_step t vmm pml fv u \<and> vmm_lock (mem u) vmm = 0 \<and>
      page_entry u vmm = fold (\<lambda>j. unmap_entry (a + of_nat j * PAGE_SIZE)) [Suc i..<n] (page_entry t vmm)"
    using Suc.prems t(2) local_step_size [OF st Suc.prems(3-5)] Suc.hyps(2)
    by (intro Suc.hyps(1)) (simp_all add: at top fr tab vmm_ok_def)
  then obtain u where u: "k_free_unmap vmm a (of_nat i + 1) t = Some (Inr u)" "local_step t vmm pml fv u" "vmm_lock (mem u) vmm = 0"
      "page_entry u vmm = fold (\<lambda>j. unmap_entry (a + of_nat j * PAGE_SIZE)) [Suc i..<n] (page_entry t vmm)"
    by (auto simp: add.commute)
  then show ?case
    using t(1,3) i local_step_trans [OF st u(2)]
    by (simp add: k_free_unmap.simps [of vmm a "of_nat i" s] sz upt_conv_Cons)
qed

lemma free_keeps:
  assumes at: "vmm_at s vmm pml fv" and post: "free_post s g n t" and n: "0 < n" "g + n \<le> unat (bitmap_top_index s)"
    and o: "\<forall>j<n. other_page s pml fv (g + j)"
  shows "vmm_at t vmm pml fv" and "vmm_lock (mem t) vmm = vmm_lock (mem s) vmm"
    and "vmm_arena (mem t) vmm = vmm_arena (mem s) vmm" and "page_entry t vmm = page_entry s vmm"
    and "is_table t pml f = is_table s pml f" and "own_page s f \<Longrightarrow> x \<in> page_bytes s f \<Longrightarrow> mem t x = mem s x"
proof -
  have inv: "pmm_inv s" using at by (simp add: vmm_at_def)
  have geo: "same_geometry s t" using post by (simp add: free_post_def)
  have range: "other_page s pml fv f" if "g \<le> f" "f < g + n" for f
    using o that by (metis le_add_diff_inverse nat_add_left_cancel_less)
  have inv_t: "pmm_inv t"
    by (rule free_post_inv [OF inv post _ n(2,1)]) (use range in \<open>fastforce simp: pinned_pages_def other_page_def own_page_def\<close>)
  show keep: "mem t x = mem s x" if "own_page s f" "x \<in> page_bytes s f" for f x
    using post that unfolding free_post_def own_page_def by blast
  have own: "own_page t f" if "own_page s f" "is_table s pml f \<or> f = fv" for f
  proof -
    have "\<not> (g \<le> f \<and> f < g + n)" using range [of f] that(2) by (auto simp: other_page_def)
    then show ?thesis
      using that(1) post same_geometry_areas [OF geo] by (simp add: free_post_def own_page_def same_geometry_def)
  qed
  note k = vmm_at_keep [OF at inv_t geo own keep]
  show "vmm_at t vmm pml fv" "vmm_lock (mem t) vmm = vmm_lock (mem s) vmm" "vmm_arena (mem t) vmm = vmm_arena (mem s) vmm"
    "page_entry t vmm = page_entry s vmm" "is_table t pml f = is_table s pml f"
    by (rule k; assumption)+
qed

lemma free_kept:
  assumes "vmm_at s vmm pml fv" and "free_post s g n t" and "0 < n" and "g + n \<le> unat (bitmap_top_index s)"
    and "\<forall>j<n. other_page s pml fv (g + j)" and f: "other_page s pml fv f" "\<not> (g \<le> f \<and> f < g + n)"
  shows "page_kept s pml fv f t"
proof -
  have geo: "same_geometry s t" using assms(2) by (simp add: free_post_def)
  have "own_page t f"
    using f assms(2) same_geometry_areas [OF geo] by (simp add: free_post_def own_page_def other_page_def same_geometry_def)
  moreover have "\<forall>x \<in> page_bytes s f. mem t x = mem s x"
    using free_keeps(6) [OF assms(1-5)] f(1) by (auto simp: other_page_def)
  ultimately show ?thesis
    using free_keeps(5) [OF assms(1-5)] f(1) same_geometry_areas(1) [OF geo] by (simp add: page_kept_def other_page_def)
qed

lemma local_step_used:
  assumes "local_step s vmm pml fv t" and f: "f < unat (bitmap_top_index s)"
  shows "page_used t f = page_used s f"
proof -
  have "unat (of_nat f :: u64) < unat (bitmap_top_index s)" using f unat_bound [of "bitmap_top_index s"] by simp
  then have "bitmap_get (mem t) (bitmap s) (of_nat f) = bitmap_get (mem s) (bitmap s) (of_nat f)"
    using assms(1) by (intro bitmap_get_cong) (simp_all add: local_step_def bitmap_area_def)
  then show ?thesis using assms(1) by (simp add: page_used_def local_step_def same_geometry_def)
qed

lemma local_step_kept:
  assumes st: "local_step s vmm pml fv t" and f: "other_page s pml fv f"
  shows "page_kept s pml fv f t"
proof -
  have geo: "same_geometry s t" using st by (simp add: local_step_def)
  have top: "f < unat (bitmap_top_index s)" using f by (simp add: other_page_def own_page_def)
  have "other_page t pml fv f"
    using f st local_step_used [OF st top] same_geometry_areas [OF geo] geo
    by (simp add: other_page_def own_page_def local_step_def same_geometry_def)
  then show ?thesis
    using st f top same_geometry_areas(1) [OF geo] unfolding page_kept_def local_step_def other_page_def by blast
qed

lemma k_free_cases:
  fixes s :: "'a vmm_state_scheme"
  assumes at: "vmm_at s (vmm_kernel s) pml fv" and lock: "vmm_lock (mem s) (vmm_kernel s) = 0"
    and n: "0 < n" "g + n \<le> unat (bitmap_top_index s)" and o: "\<forall>j<n. other_page s pml fv (g + j)"
    and a: "a = frame_addr s g" and meta: "load64 (mem s) (addr - 8) = a" and base: "arena_base (mem s) a = a"
    and sz: "unat (arena_size (mem s) a) = 4096 * n" and cnt: "arena_allocated (mem s) a = 1"
  shows "\<exists>t. k_free addr s = Inr t \<and> vmm_at t (vmm_kernel s) pml fv \<and> vmm_lock (mem t) (vmm_kernel s) = 0 \<and>
    vmm_arena (mem t) (vmm_kernel s) = vmm_arena (mem s) (vmm_kernel s) \<and> static_part t = static_part s \<and>
    used_pages t = used_pages s - {g..<g + n} \<and>
    (\<forall>f. other_page s pml fv f \<and> \<not> (g \<le> f \<and> f < g + n) \<longrightarrow> page_kept s pml fv f t) \<and>
    page_entry t (vmm_kernel s) = fold (\<lambda>j. unmap_entry (a + of_nat j * PAGE_SIZE)) [0..<n] (page_entry s (vmm_kernel s))"
proof -
  let ?k = "vmm_kernel s" and ?m = "store64 (mem s) (a + 32) 0"
  have og: "other_page s pml fv g" using o n(1) by (metis add_0_right)
  have inv: "pmm_inv s" using at by (simp add: vmm_at_def)
  have "bytes_of (a + 32) 8 \<subseteq> bytes_of a 48"
  proof
    fix y assume "y \<in> bytes_of (a + 32) 8"
    then obtain j where "j < 8" "y = a + of_nat (32 + j)" by (auto simp: bytes_of_iff add.assoc)
    then show "y \<in> bytes_of a 48" unfolding bytes_of_iff by (intro exI [of _ "32 + j"]) simp
  qed
  then have m: "\<forall>x. x \<notin> page_bytes s g \<longrightarrow> ?m x = mem s x" using arena_bytes [of s g] a by (auto intro!: store64_other)
  let ?s1 = "s\<lparr>mem := ?m\<rparr>"
  note w = other_page_write [OF at og m]
  have f1: "arena_size ?m a = arena_size (mem s) a" "arena_base ?m a = a" "arena_allocated ?m a = 0"
    using base by (simp_all add: arena_size_def arena_base_def arena_allocated_def arena_field_simps)
  have o1: "\<forall>j<n. other_page ?s1 pml fv (g + j)" using o w(5,6) by (simp add: other_page_def)
  have n64: "n \<le> 2 ^ 40" using n pmm_invD(3) [OF inv] by simp
  have pages: "DIV_ROUNDUP (arena_size (mem s) a) PAGE_SIZE = of_nat n"
    using sz n64 by (simp add: word_unat_eq_iff unat_DIV_ROUNDUP)
  have un: "unat (of_nat n :: u64) = n" "(of_nat n :: u64) \<noteq> 0" using n(1) n64 by (simp_all add: word_unat_eq_iff)
  have "\<exists>t. pmm_free (of_nat g * PAGE_SIZE) (of_nat n) ?s1 = Inr t \<and> free_post ?s1 g (unat (of_nat n :: u64)) t"
  proof (rule pmm_free_ok)
    show "pmm_inv ?s1" using w(1) by (simp add: vmm_at_def)
    show "g + unat (of_nat n :: u64) \<le> unat (bitmap_top_index ?s1)" using n un by simp
    show "page_used ?s1 f" if "g \<le> f" "f < g + unat (of_nat n :: u64)" for f
      using o1 that un by (metis le_add_diff_inverse nat_add_left_cancel_less other_page_def own_page_def)
  qed (rule un)
  then obtain t1 where r1: "pmm_free (of_nat g * PAGE_SIZE) (of_nat n) ?s1 = Inr t1" and post: "free_post ?s1 g n t1"
    unfolding un by blast
  have n1: "g + n \<le> unat (bitmap_top_index ?s1)" using n by simp
  note k1 = free_keeps [OF w(1) post n(1) n1 o1]
  have t1: "vmm_kernel t1 = ?k" "static_part t1 = static_part s" "frame_addr t1 = frame_addr s" "bitmap_top_index t1 = bitmap_top_index s"
    using post by (auto simp: free_post_def static_part_def frame_addr_def fun_eq_iff)
  have og1: "own_page ?s1 g" "\<not> is_table t1 pml g" "g \<noteq> fv" "g < unat (bitmap_top_index t1)"
    using og k1(5) t1(4) by (simp_all add: other_page_def w(5,6)) (simp add: own_page_def)
  have sz1: "unat (arena_size (mem t1) a) = 4096 * n"
  proof -
    have "mem t1 x = mem ?s1 x" if "x \<in> page_bytes s g" for x
      using k1(6) [OF og1(1)] that by (simp add: page_bytes_def)
    then have "arena_size (mem t1) a = arena_size ?m a"
      unfolding arena_size_def a using vmm_fields_bytes(3) [of _ s g] by (intro load64_cong) simp
    then show ?thesis using f1(1) sz by simp
  qed
  have lock1: "vmm_lock (mem t1) ?k = 0" using k1(2) w(2) lock by simp
  obtain t where t: "k_free_unmap ?k a 0 t1 = Some (Inr t)" "local_step t1 ?k pml fv t" "vmm_lock (mem t) ?k = 0"
    "page_entry t ?k = fold (\<lambda>j. unmap_entry (a + of_nat j * PAGE_SIZE)) [0..<n] (page_entry t1 ?k)"
    using k_free_unmap_run [OF k1(1) lock1 og1(4,3,2) _ sz1, of 0] by (auto simp: a t1(3))
  have "page_used t f = page_used t1 f" if "f < unat (bitmap_top_index t1)" for f
    using local_step_used [OF t(2) that] .
  then have "used_pages t = used_pages t1" using t(2) by (auto simp: used_pages_def local_step_def same_geometry_def)
  also have "\<dots> = used_pages ?s1 - {g..<g + n}"
    using post by (auto simp: used_pages_def free_post_def same_geometry_def)
  also have "used_pages ?s1 = used_pages s"
    using page_used_clear [of s ?m] m og by (auto simp: used_pages_def other_page_def own_page_def)
  finally have "used_pages t = used_pages s - {g..<g + n}" .
  moreover have "page_kept s pml fv f t" if f: "other_page s pml fv f" "\<not> (g \<le> f \<and> f < g + n)" for f
  proof -
    have "f \<noteq> g" using f(2) n(1) by auto
    then have k0: "page_kept s pml fv f ?s1" by (rule w(8) [OF f(1)])
    then have o0: "other_page ?s1 pml fv f" by (simp add: page_kept_def)
    have k01: "page_kept s pml fv f t1" by (rule page_kept_trans [OF k0 free_kept [OF w(1) post n(1) n1 o1 o0 f(2)]])
    then have "other_page t1 pml fv f" by (simp add: page_kept_def)
    then show ?thesis by (rule page_kept_trans [OF k01 local_step_kept [OF t(2)]])
  qed
  moreover have "k_free addr s = Inr t"
    using f1 r1 t(1) t1(1)
    by (simp add: k_free_def meta sizeof_metadata_def cnt pages get_hhdm_def) (simp add: a frame_addr_def)
  ultimately show ?thesis
    using t k1(3,4) w(3,4) t1(2) by (auto simp: local_step_def)
qed

subsection \<open>Properties\<close>

lemma page_of_offset:
  assumes "m < 4096 * n"
  shows "frame_addr s g + of_nat m \<in> page_bytes s (g + m div 4096)" and "m div 4096 < n"
proof -
  have "m = 4096 * (m div 4096) + m mod 4096" by simp
  then have "(of_nat m :: u64) = of_nat (m div 4096) * PAGE_SIZE + of_nat (m mod 4096)"
    by (metis PAGE_SIZE_def mult.commute of_nat_add of_nat_mult of_nat_numeral)
  then have "frame_addr s g + of_nat m = (of_nat (g + m div 4096) * PAGE_SIZE + hhdm_offset s) + of_nat (m mod 4096)"
    by (simp add: frame_addr_def algebra_simps)
  moreover have "m mod 4096 < 4096" by simp
  ultimately show "frame_addr s g + of_nat m \<in> page_bytes s (g + m div 4096)"
    unfolding page_bytes_def bytes_of_iff by blast
  show "m div 4096 < n" using assms by (simp add: less_mult_imp_div_less mult.commute)
qed

lemma fold_unmap_absent:
  "E w AND PTE_PRESENT = 0 \<or> (\<exists>v \<in> set vs. same_page w v) \<Longrightarrow> fold unmap_entry vs E w AND PTE_PRESENT = 0"
proof (induction vs arbitrary: E)
  case (Cons v vs)
  then have "unmap_entry v E w AND PTE_PRESENT = 0 \<or> (\<exists>v \<in> set vs. same_page w v)" by (auto simp: unmap_entry_def)
  then show ?case using Cons.IH by simp
qed simp

text \<open>
  C6. \<open>k_alloc\<close> on a well-formed kernel address space without arenas: either the page allocator
  has no run of pages or too few pages for the tables, and it panics; or it returns a block of
  zeroed bytes after a 48 byte header, in pages that were free before and are in use after, all
  other pages in use stay in use, and the address space stays well formed. The list of arenas
  is still empty afterwards, so every allocation takes whole pages of its own.
\<close>

theorem k_alloc_correct:
  fixes s :: "'a vmm_state_scheme"
  assumes "vmm_ok s (vmm_kernel s)" and "vmm_arena (mem s) (vmm_kernel s) = 0" and "unat sz + 48 + 4095 < 2 ^ 64"
  defines "n \<equiv> (unat sz + 48 + 4095) div 4096"
  shows "(\<exists>g t. k_alloc sz s = Inr (frame_addr s g + 48, t) \<and> vmm_kernel t = vmm_kernel s \<and> vmm_ok t (vmm_kernel s) \<and>
      vmm_arena (mem t) (vmm_kernel s) = 0 \<and> {g..<g + n} \<inter> used_pages s = {} \<and> {g..<g + n} \<subseteq> used_pages t \<and>
      (\<forall>i < unat sz. mem t (frame_addr s g + 48 + of_nat i) = 0)) \<or>
    k_alloc sz s = Inl (Panic ''PMM_ALLOC: failed to allocate memory'') \<and> (alloc_choice s n = None \<or> free_count s < 4 * n)"
proof -
  obtain pml fv where at: "vmm_at s (vmm_kernel s) pml fv" "vmm_lock (mem s) (vmm_kernel s) = 0"
    using assms(1) by (auto simp: vmm_ok_def)
  note n = arena_pages_unat [OF assms(3), folded n_def]
  from k_alloc_cases [OF at assms(2,3), unfolded n(1)] show ?thesis
  proof (elim disjE exE conjE)
    fix g t assume r: "k_alloc sz s = Inr (frame_addr s g + 48, t)" and post: "k_alloc_post s pml fv sz g t"
    have st: "static_part t = static_part s" and own: "\<forall>j<n. other_page t pml fv (g + j) \<and> \<not> page_used s (g + j)"
      and z: "\<forall>j<n. \<forall>x \<in> page_bytes s (g + j). x \<notin> bytes_of (frame_addr s g) 48 \<longrightarrow> mem t x = 0"
      using post by (simp_all add: k_alloc_post_def Let_def n(1))
    have "mem t (frame_addr s g + 48 + of_nat i) = 0" if "i < unat sz" for i
    proof -
      have "unat sz + 48 \<le> 4096 * n" unfolding n_def by linarith
      then have "48 + i < 4096 * n" using that by simp
      note p = page_of_offset(1) [OF this, of s g] page_of_offset(2) [OF this]
      have "frame_addr s g + of_nat (48 + i) \<notin> bytes_of (frame_addr s g) 48"
        using that assms(3) by (subst bytes_of_offset) (simp_all del: of_nat_add)
      then show ?thesis using z p by (metis add.assoc of_nat_add of_nat_numeral)
    qed
    moreover have "f \<notin> used_pages s \<and> f \<in> used_pages t" if "g \<le> f" "f < g + n" for f
    proof -
      have "f - g < n" "g + (f - g) = f" using that by simp_all
      then have "other_page t pml fv f \<and> \<not> page_used s f" using own by metis
      then show ?thesis by (simp add: used_pages_def other_page_def own_page_def)
    qed
    ultimately have "(\<forall>i < unat sz. mem t (frame_addr s g + 48 + of_nat i) = 0) \<and> {g..<g + n} \<inter> used_pages s = {} \<and>
        {g..<g + n} \<subseteq> used_pages t" by auto
    moreover have "vmm_ok t (vmm_kernel s)" "vmm_arena (mem t) (vmm_kernel s) = 0" "vmm_kernel t = vmm_kernel s"
      using post st more_vmm_kernel [of t s] by (auto simp: k_alloc_post_def Let_def vmm_ok_def static_part_def)
    ultimately show ?thesis using r by blast
  qed simp_all
qed

lemma vmm_demo_arena: "vmm_arena (mem vmm_demo) (vmm_kernel vmm_demo) = 0"
  unfolding vmm_arena_def
proof (rule load64_zero)
  fix x assume "x \<in> bytes_of (vmm_kernel vmm_demo + 16) 8"
  then show "mem vmm_demo x = 0" by (intro vmm_demo_bytes) (auto simp: bytes_of_8 vmm_demo_fields)
qed

theorem k_alloc_correct_witness:
  "\<exists>g t. k_alloc 100 vmm_demo = Inr (frame_addr vmm_demo g + 48, t) \<and> {g..<g + 1} \<inter> used_pages vmm_demo = {} \<and>
     (\<forall>i<100. mem t (frame_addr vmm_demo g + 48 + of_nat i) = 0)"
proof -
  have inv: "pmm_inv vmm_demo" by (rule vmm_demo_inv)
  have "alloc_choice vmm_demo 1 \<noteq> None" using alloc_choice_1 [OF inv] vmm_demo_free by simp
  then show ?thesis
    using k_alloc_correct [of vmm_demo 100] vmm_demo_ok vmm_demo_arena vmm_demo_free by (auto simp: vmm_demo_fields)
qed

text \<open>
  C24. Freeing a block that \<open>k_alloc\<close> returned gives its pages back to the page allocator and keeps
  the address space well formed; but it also unmaps their direct-map addresses, through which
  the allocator clears a page when it hands it out again.
\<close>

theorem k_alloc_free:
  fixes s :: "'a vmm_state_scheme"
  assumes "vmm_ok s (vmm_kernel s)" and "vmm_arena (mem s) (vmm_kernel s) = 0" and "unat sz + 48 + 4095 < 2 ^ 64"
    and "k_alloc sz s = Inr (p, t)"
  defines "n \<equiv> (unat sz + 48 + 4095) div 4096"
  shows "\<exists>g u. p = frame_addr s g + 48 \<and> k_free p t = Inr u \<and> vmm_ok u (vmm_kernel s) \<and> vmm_arena (mem u) (vmm_kernel s) = 0 \<and>
    used_pages u = used_pages t - {g..<g + n} \<and> (\<forall>j<n. translate u (vmm_kernel s) (frame_addr s (g + j)) = None)"
proof -
  obtain pml fv where at: "vmm_at s (vmm_kernel s) pml fv" "vmm_lock (mem s) (vmm_kernel s) = 0"
    using assms(1) by (auto simp: vmm_ok_def)
  note n = arena_pages_unat [OF assms(3), folded n_def]
  obtain g where p: "p = frame_addr s g + 48" and post: "k_alloc_post s pml fv sz g t"
    using k_alloc_cases [OF at assms(2,3)] assms(4) by auto
  let ?a = "frame_addr s g"
  have t: "vmm_at t (vmm_kernel s) pml fv" "vmm_lock (mem t) (vmm_kernel s) = 0" "vmm_arena (mem t) (vmm_kernel s) = 0"
    "static_part t = static_part s" "g + n \<le> unat (bitmap_top_index s)" "\<forall>j<n. other_page t pml fv (g + j)"
    "arena_base (mem t) ?a = ?a" "arena_size (mem t) ?a = ALIGN_UP (sz + 48) PAGE_SIZE" "arena_allocated (mem t) ?a = 1"
    "load64 (mem t) (?a + 40) = ?a"
    using post by (simp_all add: k_alloc_post_def Let_def n(1))
  have s: "vmm_kernel t = vmm_kernel s" "bitmap_top_index t = bitmap_top_index s" "frame_addr t = frame_addr s"
    using t(4) more_vmm_kernel [of t s] by (simp_all add: static_part_def frame_addr_def fun_eq_iff)
  have "0 < n" using n(1,2) by (metis gr0I unat_eq_zero)
  moreover have "p - 8 = ?a + 40" by (simp add: p)
  then have "load64 (mem t) (p - 8) = ?a" using t(10) by metis
  moreover have "unat (arena_size (mem t) ?a) = 4096 * n" using t(8) n by simp
  ultimately obtain u where u: "k_free p t = Inr u" "vmm_at u (vmm_kernel s) pml fv" "vmm_lock (mem u) (vmm_kernel s) = 0"
    "vmm_arena (mem u) (vmm_kernel s) = 0" "static_part u = static_part t" "used_pages u = used_pages t - {g..<g + n}"
    "page_entry u (vmm_kernel s) = fold (\<lambda>j. unmap_entry (?a + of_nat j * PAGE_SIZE)) [0..<n] (page_entry t (vmm_kernel s))"
    using k_free_cases [of t pml fv n g ?a p] t s by auto
  have "translate u (vmm_kernel s) (frame_addr s (g + j)) = None" if "j < n" for j
  proof -
    have "frame_addr s (g + j) = ?a + of_nat j * PAGE_SIZE" by (simp add: frame_addr_def algebra_simps)
    then have "\<exists>v \<in> set (map (\<lambda>j. ?a + of_nat j * PAGE_SIZE) [0..<n]). same_page (frame_addr s (g + j)) v"
      using that by (auto intro!: bexI [of _ j])
    then show ?thesis
      using fold_unmap_absent [of "page_entry t (vmm_kernel s)" "frame_addr s (g + j)" "map (\<lambda>j. ?a + of_nat j * PAGE_SIZE) [0..<n]"]
      by (simp add: translate_None_iff u(7) fold_map comp_def)
  qed
  then show ?thesis using u p by (auto simp: vmm_ok_def)
qed

theorem k_alloc_free_witness:
  "\<exists>p t g u. k_alloc 100 vmm_demo = Inr (p, t) \<and> k_free p t = Inr u \<and> g \<notin> used_pages u \<and>
     translate u (vmm_kernel vmm_demo) (frame_addr vmm_demo g) = None"
proof -
  have inv: "pmm_inv vmm_demo" by (rule vmm_demo_inv)
  have ok: "vmm_ok vmm_demo (vmm_kernel vmm_demo)" using vmm_demo_ok by (simp add: vmm_demo_fields)
  then obtain pml fv where at: "vmm_at vmm_demo (vmm_kernel vmm_demo) pml fv" "vmm_lock (mem vmm_demo) (vmm_kernel vmm_demo) = 0"
    by (auto simp: vmm_ok_def)
  have "alloc_choice vmm_demo 1 \<noteq> None" using alloc_choice_1 [OF inv] vmm_demo_free by simp
  then obtain p t where r: "k_alloc 100 vmm_demo = Inr (p, t)"
    using k_alloc_cases [OF at vmm_demo_arena, of 100] vmm_demo_free arena_pages_unat(1) [of 100] by auto
  have "unat (100 :: u64) + 48 + 4095 < 2 ^ 64" by simp
  from k_alloc_free [OF ok vmm_demo_arena this r] obtain g u where
    u: "k_free p t = Inr u" "used_pages u = used_pages t - {g..<g + (unat (100 :: u64) + 48 + 4095) div 4096}"
    "\<forall>j<(unat (100 :: u64) + 48 + 4095) div 4096. translate u (vmm_kernel vmm_demo) (frame_addr vmm_demo (g + j)) = None"
    by blast
  have "g \<notin> used_pages u" "translate u (vmm_kernel vmm_demo) (frame_addr vmm_demo g) = None"
    using u(2) u(3) [rule_format, of 0] by simp_all
  then show ?thesis using r u(1) by blast
qed

end
