(* ===== verification/Kheap_Blocks.thy ===== *)
theory Kheap_Blocks
  imports Kheap
begin

text \<open>
  The contract of the kernel heap for its clients: the invariant \<open>heap_inv s B\<close> says that the
  kernel's address space is well formed and that \<open>B\<close> is the set of the allocated blocks, whose
  pages are pairwise disjoint. Allocation adds a block, freeing removes it, and creating an address
  space keeps them all.
\<close>

subsection \<open>Blocks\<close>

definition heap_block :: "'a pmm_state_scheme \<Rightarrow> u64 \<Rightarrow> nat \<Rightarrow> u64 \<Rightarrow> nat \<Rightarrow> nat \<Rightarrow> bool" where
  "heap_block s pml fv p g n \<longleftrightarrow> p = frame_addr s g + 48 \<and> 0 < n \<and> g + n \<le> unat (bitmap_top_index s) \<and>
     (\<forall>j<n. other_page s pml fv (g + j)) \<and> arena_base (mem s) (frame_addr s g) = frame_addr s g \<and>
     unat (arena_size (mem s) (frame_addr s g)) = 4096 * n \<and> arena_allocated (mem s) (frame_addr s g) = 1 \<and>
     load64 (mem s) (frame_addr s g + 40) = frame_addr s g"

definition heap_blocks :: "'a pmm_state_scheme \<Rightarrow> u64 \<Rightarrow> nat \<Rightarrow> u64 set \<Rightarrow> (u64 \<Rightarrow> nat) \<Rightarrow> (u64 \<Rightarrow> nat) \<Rightarrow> bool" where
  "heap_blocks s pml fv B G N \<longleftrightarrow> (\<forall>p \<in> B. heap_block s pml fv p (G p) (N p)) \<and>
     (\<forall>p \<in> B. \<forall>q \<in> B. p \<noteq> q \<longrightarrow> {G p..<G p + N p} \<inter> {G q..<G q + N q} = {})"

definition kernel_at :: "'a vmm_state_scheme \<Rightarrow> u64 \<Rightarrow> nat \<Rightarrow> bool" where
  "kernel_at s pml fv \<longleftrightarrow> vmm_at s (vmm_kernel s) pml fv \<and> vmm_lock (mem s) (vmm_kernel s) = 0 \<and>
     vmm_arena (mem s) (vmm_kernel s) = 0"

definition heap_inv :: "'a vmm_state_scheme \<Rightarrow> u64 set \<Rightarrow> bool" where
  "heap_inv s B \<longleftrightarrow> (\<exists>pml fv G N. kernel_at s pml fv \<and> heap_blocks s pml fv B G N)"

definition heap_rest :: "'a vmm_state_scheme \<Rightarrow> u64 \<times> 'a" where
  "heap_rest s = (cr3 s, vmm_state.more s)"

text \<open>A step of the kernel that keeps its address space and the pages outside \<open>F\<close>.\<close>

definition kernel_step :: "'a vmm_state_scheme \<Rightarrow> u64 \<Rightarrow> nat \<Rightarrow> nat set \<Rightarrow> 'a vmm_state_scheme \<Rightarrow> bool" where
  "kernel_step s pml fv F t \<longleftrightarrow> kernel_at t pml fv \<and> static_part t = static_part s \<and>
     (\<forall>f. other_page s pml fv f \<and> f \<notin> F \<longrightarrow> page_kept s pml fv f t)"

lemma static_part_rest: "static_part t = static_part s \<Longrightarrow> heap_rest t = heap_rest s"
  by (cases t; cases s) (simp add: static_part_def heap_rest_def)

lemma static_part_frame: "static_part t = static_part s \<Longrightarrow> frame_addr t = frame_addr s"
  by (simp add: static_part_def frame_addr_def fun_eq_iff)

lemma static_part_top: "static_part t = static_part s \<Longrightarrow> bitmap_top_index t = bitmap_top_index s"
  by (simp add: static_part_def)

lemma block_header_kept:
  assumes "page_kept s pml fv g t"
  shows "arena_base (mem t) (frame_addr s g) = arena_base (mem s) (frame_addr s g)"
    and "arena_size (mem t) (frame_addr s g) = arena_size (mem s) (frame_addr s g)"
    and "arena_allocated (mem t) (frame_addr s g) = arena_allocated (mem s) (frame_addr s g)"
    and "load64 (mem t) (frame_addr s g + 40) = load64 (mem s) (frame_addr s g + 40)"
proof -
  have "load64 (mem t) (frame_addr s g + of_nat k) = load64 (mem s) (frame_addr s g + of_nat k)" if "k + 8 \<le> 48" for k
  proof (rule load64_cong)
    fix y assume "y \<in> bytes_of (frame_addr s g + of_nat k) 8"
    then obtain j where "j < 8" "y = frame_addr s g + of_nat (k + j)" by (auto simp: bytes_of_iff add.assoc)
    then have "y \<in> bytes_of (frame_addr s g) 48" using that unfolding bytes_of_iff by (intro exI [of _ "k + j"]) simp
    then show "mem t y = mem s y" using assms arena_bytes [of s g] by (auto simp: page_kept_def)
  qed
  from this [of 8] this [of 16] this [of 32] this [of 40] show
    "arena_base (mem t) (frame_addr s g) = arena_base (mem s) (frame_addr s g)"
    "arena_size (mem t) (frame_addr s g) = arena_size (mem s) (frame_addr s g)"
    "arena_allocated (mem t) (frame_addr s g) = arena_allocated (mem s) (frame_addr s g)"
    "load64 (mem t) (frame_addr s g + 40) = load64 (mem s) (frame_addr s g + 40)"
    by (simp_all add: arena_base_def arena_size_def arena_allocated_def)
qed

lemma heap_block_kept:
  assumes b: "heap_block s pml fv p g n" and st: "kernel_step s pml fv F t" and F: "{g..<g + n} \<inter> F = {}"
  shows "heap_block t pml fv p g n"
proof -
  have keep: "page_kept s pml fv (g + j) t" if "j < n" for j
  proof -
    have "g + j \<in> {g..<g + n}" using that by simp
    then have "g + j \<notin> F" using F by blast
    then show ?thesis using b st that by (simp add: heap_block_def kernel_step_def)
  qed
  have "0 < n" using b by (simp add: heap_block_def)
  then have k0: "page_kept s pml fv g t" using keep [of 0] by simp
  have "other_page t pml fv (g + j)" if "j < n" for j using keep [OF that] by (simp add: page_kept_def)
  moreover have "static_part t = static_part s" using st by (simp add: kernel_step_def)
  note static_part_frame [OF this] static_part_top [OF this]
  ultimately show ?thesis using b block_header_kept [OF k0] by (simp add: heap_block_def)
qed

lemma heap_blocks_kept:
  assumes "heap_blocks s pml fv B G N" and "kernel_step s pml fv F t" and "C \<subseteq> B"
    and "\<And>p. p \<in> C \<Longrightarrow> {G p..<G p + N p} \<inter> F = {}"
  shows "heap_blocks t pml fv C G N"
  unfolding heap_blocks_def
proof (intro conjI ballI impI)
  fix p assume "p \<in> C"
  then have "heap_block s pml fv p (G p) (N p)" using assms(1,3) unfolding heap_blocks_def by blast
  then show "heap_block t pml fv p (G p) (N p)" by (rule heap_block_kept [OF _ assms(2) assms(4) [OF \<open>p \<in> C\<close>]])
next
  fix p q assume "p \<in> C" "q \<in> C" "p \<noteq> q"
  then show "{G p..<G p + N p} \<inter> {G q..<G q + N q} = {}" using assms(1,3) unfolding heap_blocks_def by blast
qed

lemma heap_block_address:
  assumes "pmm_inv s" and "heap_block s pml fv p g n"
  shows "p \<noteq> 0" and "heap_block s pml fv p g' n' \<Longrightarrow> g' = g"
proof -
  have g: "g < unat (bitmap_top_index s)" using assms(2) by (simp add: heap_block_def)
  have "unat (hhdm_offset s) + 4096 * unat (bitmap_top_index s) \<le> 2 ^ 64" by (rule pmm_invD(4) [OF assms(1)])
  moreover have "unat (frame_addr s g) = 4096 * g + unat (hhdm_offset s)"
    using unat_page_addr(2) [OF assms(1) g] by (simp add: frame_addr_def)
  ultimately have "unat (frame_addr s g + 48) = unat (frame_addr s g) + 48" using g by (simp add: unat_word_ariths)
  then have "frame_addr s g + 48 \<noteq> 0" by (metis add_is_0 unat_0 zero_neq_numeral)
  then show "p \<noteq> 0" using assms(2) by (simp add: heap_block_def)
  show "g' = g" if "heap_block s pml fv p g' n'"
    using that assms(2) g by (intro frame_addr_inj [OF assms(1)]) (simp_all add: heap_block_def)
qed

subsection \<open>Steps\<close>

lemma kalloc_block:
  fixes s :: "'a vmm_state_scheme"
  assumes k: "kernel_at s pml fv" and sz: "unat sz + 48 + 4095 < 2 ^ 64"
  shows "(\<exists>p t g n. kalloc sz s = Inr (p, t) \<and> kernel_step s pml fv {} t \<and> heap_block t pml fv p g n \<and>
      (\<forall>j<n. \<not> page_used s (g + j))) \<or>
    kalloc sz s = Inl (Panic ''PMM_ALLOC: failed to allocate memory'')"
proof -
  note n = arena_pages_unat [OF sz]
  have n0: "0 < (unat sz + 48 + 4095) div 4096" by (simp add: div_greater_zero_iff)
  have at: "vmm_at s (vmm_kernel s) pml fv" "vmm_lock (mem s) (vmm_kernel s) = 0" "vmm_arena (mem s) (vmm_kernel s) = 0"
    using k by (simp_all add: kernel_at_def)
  from k_alloc_cases [OF at sz] show ?thesis
  proof (elim disjE exE conjE)
    fix g t assume r: "k_alloc sz s = Inr (frame_addr s g + 48, t)" and post: "k_alloc_post s pml fv sz g t"
    have st: "static_part t = static_part s" using post by (simp add: k_alloc_post_def Let_def)
    then have ker: "vmm_kernel t = vmm_kernel s" using more_vmm_kernel [of t s] by (simp add: static_part_def)
    have "kernel_step s pml fv {} t"
      using post ker by (simp add: k_alloc_post_def Let_def kernel_step_def kernel_at_def)
    moreover have "heap_block t pml fv (frame_addr s g + 48) g (unat (arena_pages sz))"
      using post n n0 static_part_frame [OF st] static_part_top [OF st] by (simp add: k_alloc_post_def Let_def heap_block_def)
    moreover have "\<forall>j<unat (arena_pages sz). \<not> page_used s (g + j)" using post by (simp add: k_alloc_post_def Let_def)
    ultimately show ?thesis using r by (auto simp: kalloc_def)
  qed (simp_all add: kalloc_def)
qed

lemma kfree_block:
  fixes s :: "'a vmm_state_scheme"
  assumes k: "kernel_at s pml fv" and b: "heap_block s pml fv p g n"
  shows "\<exists>t. kfree p s = Inr t \<and> kernel_step s pml fv {g..<g + n} t"
proof -
  have "p - 8 = frame_addr s g + 40" using b by (simp add: heap_block_def)
  then have meta: "load64 (mem s) (p - 8) = frame_addr s g" using b unfolding heap_block_def by metis
  have at: "vmm_at s (vmm_kernel s) pml fv" "vmm_lock (mem s) (vmm_kernel s) = 0" using k by (simp_all add: kernel_at_def)
  have n: "0 < n" "g + n \<le> unat (bitmap_top_index s)" and o: "\<forall>j<n. other_page s pml fv (g + j)"
    and h: "arena_base (mem s) (frame_addr s g) = frame_addr s g" "unat (arena_size (mem s) (frame_addr s g)) = 4096 * n"
      "arena_allocated (mem s) (frame_addr s g) = 1"
    using b by (simp_all add: heap_block_def)
  obtain t where t: "k_free p s = Inr t" "vmm_at t (vmm_kernel s) pml fv" "vmm_lock (mem t) (vmm_kernel s) = 0"
    "vmm_arena (mem t) (vmm_kernel s) = vmm_arena (mem s) (vmm_kernel s)" "static_part t = static_part s"
    "\<forall>f. other_page s pml fv f \<and> \<not> (g \<le> f \<and> f < g + n) \<longrightarrow> page_kept s pml fv f t"
    using k_free_cases [OF at n o refl meta h] by blast
  have "vmm_kernel t = vmm_kernel s" using t(5) more_vmm_kernel [of t s] by (simp add: static_part_def)
  then have "kernel_step s pml fv {g..<g + n} t" using t k by (simp add: kernel_step_def kernel_at_def)
  then show ?thesis using t(1) by (simp add: kfree_def)
qed

text \<open>Creating an address space is such a step.\<close>

lemma kernel_step_trans:
  assumes "kernel_step s pml fv {} t" and "kernel_step t pml fv {} u"
  shows "kernel_step s pml fv {} u"
proof -
  have "page_kept s pml fv f u" if "other_page s pml fv f" for f
  proof -
    have k: "page_kept s pml fv f t" using assms(1) that by (simp add: kernel_step_def)
    then have "other_page t pml fv f" by (simp add: page_kept_def)
    then show ?thesis using page_kept_trans [OF k] assms(2) by (simp add: kernel_step_def)
  qed
  then show ?thesis using assms by (simp add: kernel_step_def)
qed

lemma kernel_step_map:
  fixes s :: "'a vmm_state_scheme"
  assumes k: "kernel_at s pml fv" and r: "vmm_map_page (vmm_kernel s) v p f s = Inr (b, t)"
  shows "kernel_step s pml fv {} t"
proof -
  have at: "vmm_at s (vmm_kernel s) pml fv" "vmm_lock (mem s) (vmm_kernel s) = 0" using k by (simp_all add: kernel_at_def)
  have ok: "vmm_ok s (vmm_kernel s)" using at by (auto simp: vmm_ok_def)
  have t: "vmm_ok t (vmm_kernel s)" "static_part t = static_part s"
    using vmm_map_page_refines [OF ok, of v p f] r by auto
  then have "vmm_kernel t = vmm_kernel s" using more_vmm_kernel [of t s] by (simp add: static_part_def)
  then show ?thesis
    using t k vmm_map_page_kept [OF at r] vmm_map_page_arena [OF at r] by (simp add: kernel_step_def kernel_at_def vmm_ok_def)
qed

lemma vmm_new_step:
  fixes s :: "'a vmm_state_scheme"
  assumes k: "kernel_at s pml fv" and r: "vmm_new s = Inr (new, t)"
  shows "kernel_step s pml fv {} t"
proof -
  have at: "vmm_at s (vmm_kernel s) pml fv" "vmm_lock (mem s) (vmm_kernel s) = 0" "vmm_arena (mem s) (vmm_kernel s) = 0"
    using k by (simp_all add: kernel_at_def)
  have inv: "pmm_inv s" using at(1) by (simp add: vmm_at_def)
  obtain g1 g2 t1 where r1: "vmm_fresh s = Inr (frame_addr s g1, t1)" and post: "fresh_post s g1 g2 t1"
    using vmm_fresh_cases [OF inv] r by (auto simp: vmm_new_def)
  let ?new = "frame_addr s g1"
  note fk = fresh_keeps [OF post at(1)] and f1 = fresh_post_ok [OF post]
  have st1: "static_part t1 = static_part s" "vmm_kernel t1 = vmm_kernel s" "g1 \<noteq> g2"
    using post by (auto simp: fresh_post_def static_part_def)
  have s1: "kernel_step s pml fv {} t1" using fk st1 at by (simp add: kernel_step_def kernel_at_def)
  obtain b2 t2 b3 t3 where r2: "vmm_map_page (vmm_kernel t1) (?new + get_hhdm t1) ?new (PTE_PRESENT OR PTE_WRITABLE) t1 = Inr (b2, t2)"
    and r3: "vmm_map_page (vmm_kernel t2) (vmm_pml (mem t2) ?new + get_hhdm t2) (vmm_pml (mem t2) ?new)
      (PTE_PRESENT OR PTE_WRITABLE) t2 = Inr (b3, t3)"
    and t: "t = t3\<lparr>mem := copy_pml_loop 0 ?new (vmm_kernel t3) (mem t3)\<rparr>"
    using r by (auto simp: vmm_new_def r1 bindE_eq_Inr)
  have k1: "kernel_at t1 pml fv" using s1 by (simp add: kernel_step_def)
  have s2: "kernel_step t1 pml fv {} t2" by (rule kernel_step_map [OF k1 r2])
  then have k2: "kernel_at t2 pml fv" by (simp add: kernel_step_def)
  have s13: "kernel_step t1 pml fv {} t3" by (rule kernel_step_trans [OF s2 kernel_step_map [OF k2 r3]])
  then have at3: "vmm_at t3 (vmm_kernel t3) pml fv" "vmm_lock (mem t3) (vmm_kernel t3) = 0" and ks: "static_part t3 = static_part t1"
    by (simp_all add: kernel_step_def kernel_at_def)
  have kg: "page_kept t1 pml fv g1 t3" "page_kept t1 pml fv g2 t3" using s13 fk(4,5) by (simp_all add: kernel_step_def)
  have fr: "frame_addr t1 = frame_addr s" "frame_addr t3 = frame_addr s"
    using static_part_frame [OF st1(1)] static_part_frame [OF ks] by simp_all
  have o: "other_page t3 pml fv g1" "other_page t3 pml fv g2" using kg by (simp_all add: page_kept_def)
  have root: "vmm_pml (mem t3) (frame_addr t3 g1) = frame_addr t3 g2" and lk: "vmm_lock (mem t3) (frame_addr t3 g1) = 0"
    using page_kept_pml [OF kg(1)] vmm_at_pml [OF f1(3)] page_kept_lock_word [OF kg(1)] f1(1) by (simp_all add: fr vmm_ok_def)
  note m = copy_pml_shares(5) [OF at3 lk o st1(3) root, unfolded fr]
  have m': "\<forall>x. x \<notin> page_bytes t3 g2 \<longrightarrow> copy_pml_loop 0 ?new (vmm_kernel t3) (mem t3) x = mem t3 x" using m by simp
  note w = other_page_write [OF at3(1) o(2) m']
  note s03 = kernel_step_trans [OF s1 s13]
  have "page_kept s pml fv f t" if f: "other_page s pml fv f" for f
  proof -
    have k: "page_kept s pml fv f t3" using s03 f by (simp add: kernel_step_def)
    have "\<not> own_page s g2" using post by (simp add: fresh_post_def)
    then have "f \<noteq> g2" using f by (auto simp: other_page_def)
    moreover have "other_page t3 pml fv f" using k by (simp add: page_kept_def)
    ultimately show ?thesis unfolding t by (intro page_kept_trans [OF k] w(8))
  qed
  moreover have "kernel_at t pml fv" using s03 w(1-3) by (simp add: t kernel_step_def kernel_at_def)
  moreover have "static_part t = static_part s" using s03 by (simp add: t kernel_step_def)
  ultimately show ?thesis by (simp add: kernel_step_def)
qed

subsection \<open>The contract\<close>

locale heap =
  fixes alloc :: "u64 \<Rightarrow> 's \<Rightarrow> (u64 \<times> 's) result" and free :: "u64 \<Rightarrow> 's \<Rightarrow> 's result"
    and new_space :: "'s \<Rightarrow> (u64 \<times> 's) result"
    and inv :: "'s \<Rightarrow> u64 set \<Rightarrow> bool" and rest :: "'s \<Rightarrow> 'r"
  assumes alloc_contract: "inv s B \<Longrightarrow> unat sz + 48 + 4095 < 2 ^ 64 \<Longrightarrow>
      (\<exists>p t. alloc sz s = Inr (p, t) \<and> inv t (insert p B) \<and> p \<notin> B \<and> p \<noteq> 0 \<and> rest t = rest s) \<or>
      alloc sz s = Inl (Panic ''PMM_ALLOC: failed to allocate memory'')"
    and free_contract: "inv s B \<Longrightarrow> p \<in> B \<Longrightarrow> \<exists>t. free p s = Inr t \<and> inv t (B - {p}) \<and> rest t = rest s"
    and space_contract: "inv s B \<Longrightarrow> (\<exists>v t. new_space s = Inr (v, t) \<and> inv t B \<and> rest t = rest s) \<or>
      new_space s = Inl (Panic ''PMM_ALLOC: failed to allocate memory'')"
begin

text \<open>A block allocated and freed leaves the same blocks, and two allocations in a row are distinct.\<close>

lemma alloc_free_blocks:
  assumes "inv s B" and "unat sz + 48 + 4095 < 2 ^ 64" and "alloc sz s = Inr (p, t)"
  shows "\<exists>u. free p t = Inr u \<and> inv u B \<and> rest u = rest s"
proof -
  have t: "inv t (insert p B)" "p \<notin> B" "rest t = rest s" using alloc_contract [OF assms(1,2)] assms(3) by auto
  have "p \<in> insert p B" by simp
  from free_contract [OF t(1) this] obtain u where "free p t = Inr u" "inv u (insert p B - {p})" "rest u = rest t" by blast
  moreover have "insert p B - {p} = B" using t(2) by blast
  ultimately show ?thesis using t(3) by auto
qed

lemma alloc_twice:
  assumes "inv s B" and "unat sz + 48 + 4095 < 2 ^ 64" and "unat sz' + 48 + 4095 < 2 ^ 64"
  shows "(\<exists>p q t u. alloc sz s = Inr (p, t) \<and> alloc sz' t = Inr (q, u) \<and> inv u (insert q (insert p B)) \<and>
      p \<notin> B \<and> q \<notin> insert p B \<and> p \<noteq> 0 \<and> q \<noteq> 0 \<and> rest u = rest s) \<or>
    bindE (alloc sz s) (\<lambda>(p, t). alloc sz' t) = Inl (Panic ''PMM_ALLOC: failed to allocate memory'')"
  using alloc_contract [OF assms(1,2)]
proof (elim disjE exE conjE)
  fix p t assume p: "alloc sz s = Inr (p, t)" "inv t (insert p B)" "p \<notin> B" "p \<noteq> 0" "rest t = rest s"
  show ?thesis using alloc_contract [OF p(2) assms(3)] p(1,3-5) by fastforce
qed simp

end

text \<open>A block in pages that were free adds to the blocks.\<close>

lemma heap_inv_extend:
  fixes s :: "'a vmm_state_scheme"
  assumes b: "heap_blocks s pml fv B G N" and st: "kernel_step s pml fv {} t"
    and h: "heap_block t pml fv p g n" and free: "\<forall>j<n. \<not> page_used s (g + j)"
  shows "heap_inv t (insert p B)" and "p \<notin> B" and "p \<noteq> 0"
proof -
  have kt: "kernel_at t pml fv" using st by (simp add: kernel_step_def)
  then have inv_t: "pmm_inv t" by (simp add: kernel_at_def vmm_at_def)
  show "p \<noteq> 0" by (rule heap_block_address(1) [OF inv_t h])
  have bt: "heap_blocks t pml fv B G N" by (rule heap_blocks_kept [OF b st]) simp_all
  have dis: "{g..<g + n} \<inter> {G q..<G q + N q} = {}" if "q \<in> B" for q
  proof -
    have "page_used s f" if f: "f \<in> {G q..<G q + N q}" for f
    proof -
      have "\<forall>j<N q. other_page s pml fv (G q + j)" using b \<open>q \<in> B\<close> by (simp add: heap_blocks_def heap_block_def)
      moreover have "f - G q < N q" "G q + (f - G q) = f" using f by auto
      ultimately have "other_page s pml fv f" by metis
      then show ?thesis by (simp add: other_page_def own_page_def)
    qed
    moreover have "\<not> page_used s f" if "f \<in> {g..<g + n}" for f
      using free that by (metis atLeastLessThan_iff le_add_diff_inverse nat_add_left_cancel_less)
    ultimately show ?thesis by blast
  qed
  show p: "p \<notin> B"
  proof
    assume "p \<in> B"
    then have "G p = g" using heap_block_address(2) [OF inv_t h] bt by (auto simp: heap_blocks_def)
    moreover have "0 < N p" "0 < n" using bt h \<open>p \<in> B\<close> by (auto simp: heap_blocks_def heap_block_def)
    ultimately show False using dis [OF \<open>p \<in> B\<close>] by auto
  qed
  have "heap_blocks t pml fv (insert p B) (G(p := g)) (N(p := n))"
    using bt h dis p unfolding heap_blocks_def by (auto simp: Int_commute)
  then show "heap_inv t (insert p B)" using kt unfolding heap_inv_def by blast
qed

lemma heap_inv_alloc:
  fixes s :: "'a vmm_state_scheme"
  assumes inv: "heap_inv s B" and sz: "unat sz + 48 + 4095 < 2 ^ 64"
  shows "(\<exists>p t. kalloc sz s = Inr (p, t) \<and> heap_inv t (insert p B) \<and> p \<notin> B \<and> p \<noteq> 0 \<and> heap_rest t = heap_rest s) \<or>
    kalloc sz s = Inl (Panic ''PMM_ALLOC: failed to allocate memory'')"
proof -
  obtain pml fv G N where k: "kernel_at s pml fv" and b: "heap_blocks s pml fv B G N" using inv by (auto simp: heap_inv_def)
  from kalloc_block [OF k sz] show ?thesis
  proof (elim disjE exE conjE)
    fix p t g n assume r: "kalloc sz s = Inr (p, t)" and st: "kernel_step s pml fv {} t" and h: "heap_block t pml fv p g n"
      and free: "\<forall>j<n. \<not> page_used s (g + j)"
    have "static_part t = static_part s" using st by (simp add: kernel_step_def)
    then show ?thesis using r heap_inv_extend [OF b st h free] static_part_rest by blast
  qed simp
qed

lemma heap_inv_free:
  fixes s :: "'a vmm_state_scheme"
  assumes inv: "heap_inv s B" and p: "p \<in> B"
  shows "\<exists>t. kfree p s = Inr t \<and> heap_inv t (B - {p}) \<and> heap_rest t = heap_rest s"
proof -
  obtain pml fv G N where k: "kernel_at s pml fv" and b: "heap_blocks s pml fv B G N" using inv by (auto simp: heap_inv_def)
  have "heap_block s pml fv p (G p) (N p)" using b p by (simp add: heap_blocks_def)
  from kfree_block [OF k this] obtain t where r: "kfree p s = Inr t" and st: "kernel_step s pml fv {G p..<G p + N p} t" by blast
  have "heap_blocks t pml fv (B - {p}) G N"
  proof (rule heap_blocks_kept [OF b st])
    show "{G q..<G q + N q} \<inter> {G p..<G p + N p} = {}" if "q \<in> B - {p}" for q
      using b p that unfolding heap_blocks_def by blast
  qed blast
  moreover have "kernel_at t pml fv" "static_part t = static_part s" using st by (simp_all add: kernel_step_def)
  ultimately show ?thesis using r static_part_rest [of t s] unfolding heap_inv_def by blast
qed

lemma heap_inv_space:
  fixes s :: "'a vmm_state_scheme"
  assumes inv: "heap_inv s B"
  shows "(\<exists>v t. vmm_new s = Inr (v, t) \<and> heap_inv t B \<and> heap_rest t = heap_rest s) \<or>
    vmm_new s = Inl (Panic ''PMM_ALLOC: failed to allocate memory'')"
proof -
  obtain pml fv G N where k: "kernel_at s pml fv" and b: "heap_blocks s pml fv B G N" using inv by (auto simp: heap_inv_def)
  have "vmm_ok s (vmm_kernel s)" using k by (auto simp: kernel_at_def vmm_ok_def)
  from vmm_new_cases [OF this] show ?thesis
  proof (elim disjE exE conjE)
    fix v t assume r: "vmm_new s = Inr (v, t)"
    note st = vmm_new_step [OF k r]
    have "heap_blocks t pml fv B G N" by (rule heap_blocks_kept [OF b st]) simp_all
    moreover have "kernel_at t pml fv" "static_part t = static_part s" using st by (simp_all add: kernel_step_def)
    ultimately show ?thesis using r static_part_rest [of t s] unfolding heap_inv_def by blast
  qed simp
qed

interpretation kh: heap kalloc kfree vmm_new heap_inv heap_rest
  by unfold_locales (rule heap_inv_alloc heap_inv_free heap_inv_space; assumption)+

text \<open>With a free page there is a state with one block more, as an allocation without mapping would make it.\<close>

lemma one_page_block:
  fixes s :: "'a vmm_state_scheme"
  assumes k: "kernel_at s pml fv" and free: "free_count s \<noteq> 0"
  shows "\<exists>t p g. kernel_step s pml fv {} t \<and> heap_block t pml fv p g 1 \<and> \<not> page_used s g \<and> free_count s = Suc (free_count t)"
proof -
  have at: "vmm_at s (vmm_kernel s) pml fv" "vmm_lock (mem s) (vmm_kernel s) = 0" "vmm_arena (mem s) (vmm_kernel s) = 0"
    using k by (simp_all add: kernel_at_def)
  have inv: "pmm_inv s" using at(1) by (simp add: vmm_at_def)
  obtain g where "alloc_choice s (unat (1 :: u64)) = Some g" using alloc_choice_1 [OF inv] free by auto
  from alloc_post_intro [OF inv _ this] obtain t1 where post: "alloc_post s g 1 t1" by auto
  note k1 = alloc_keeps [OF at(1) post]
  have g1: "other_page t1 pml fv g" using k1(5) [of 0] by simp
  have st1: "static_part t1 = static_part s" using post by (auto simp: alloc_post_def static_part_def)
  then have ker: "vmm_kernel t1 = vmm_kernel s" using more_vmm_kernel [of t1 s] by (simp add: static_part_def)
  let ?a = "frame_addr t1 g"
  let ?t = "t1\<lparr>mem := snd (arena_take 1 ?a (arena_new 1 ?a (mem t1)))\<rparr>"
  note w = other_page_write [OF k1(1) g1 arena_writes_page(1) [where sz = 1 and m = "mem t1"]]
  have fr: "frame_addr ?t g = ?a" by (simp add: frame_addr_def)
  have og: "other_page ?t pml fv g" using g1 w(5,6) by (simp add: other_page_def)
  have top: "g + 1 \<le> unat (bitmap_top_index ?t)" using g1 by (simp add: other_page_def own_page_def)
  have "unat (ALIGN_UP (1 + 48) PAGE_SIZE :: u64) = 4096" by (simp add: ALIGN_UP_def DIV_ROUNDUP_def PAGE_SIZE_def)
  then have "heap_block ?t pml fv (?a + 48) g 1"
    unfolding heap_block_def fr using arena_new_take [of 1 ?a "mem t1"] og top by simp
  moreover have free: "\<not> page_used s g" using post by (simp add: alloc_post_def free_run_def)
  moreover have "page_kept s pml fv f ?t" if f: "other_page s pml fv f" for f
  proof -
    have "f \<noteq> g" using f free by (auto simp: other_page_def own_page_def)
    moreover have "other_page t1 pml fv f" using k1(6) [OF f] by (simp add: page_kept_def)
    ultimately show ?thesis by (intro page_kept_trans [OF k1(6) [OF f]] w(8))
  qed
  then have "kernel_step s pml fv {} ?t"
    using w(1-3) k1(2,3) at st1 ker by (simp add: kernel_step_def kernel_at_def)
  moreover have "free_count s = Suc (free_count ?t)" using alloc_post_free_count_n [OF post] w(7) by simp
  ultimately show ?thesis by blast
qed

text \<open>
  The bytes that the memory manager leaves alone: those of pages that are in use and belong
  neither to the kernel's page tables nor to its \<open>vmm_t\<close>.
\<close>

definition stable_bytes :: "'a vmm_state_scheme \<Rightarrow> u64 set" where
  "stable_bytes s = {x. \<exists>pml fv f. kernel_at s pml fv \<and> other_page s pml fv f \<and> x \<in> page_bytes s f}"

lemma kernel_step_stable:
  assumes st: "\<And>pml fv. kernel_at s pml fv \<Longrightarrow> kernel_step s pml fv {} t" and x: "x \<in> stable_bytes s"
  shows "mem t x = mem s x" and "x \<in> stable_bytes t"
proof -
  obtain pml fv f where f: "kernel_at s pml fv" "other_page s pml fv f" "x \<in> page_bytes s f" using x by (auto simp: stable_bytes_def)
  note k = st [OF f(1)]
  then have p: "page_kept s pml fv f t" using f(2) by (simp add: kernel_step_def)
  then show "mem t x = mem s x" using f(3) by (simp add: page_kept_def)
  have "kernel_at t pml fv" using k by (simp add: kernel_step_def)
  moreover have "other_page t pml fv f" "x \<in> page_bytes t f" using p f(3) by (simp_all add: page_kept_def)
  ultimately show "x \<in> stable_bytes t" unfolding stable_bytes_def by blast
qed

lemma kalloc_stable:
  assumes "kalloc sz s = Inr (p, t)" and "unat sz + 48 + 4095 < 2 ^ 64" and "x \<in> stable_bytes s"
  shows "mem t x = mem s x" and "x \<in> stable_bytes t"
proof -
  have "kernel_step s pml fv {} t" if "kernel_at s pml fv" for pml fv using kalloc_block [OF that assms(2)] assms(1) by auto
  from kernel_step_stable [OF this assms(3)] show "mem t x = mem s x" "x \<in> stable_bytes t" by simp_all
qed

end
