(* ===== verification/Digits.thy ===== *)
theory Digits
  imports Util
begin

text \<open>
  Reference text of numbers, against which the number formatters of \<open>formatter.c\<close>, \<open>cpu.c\<close> and
  \<open>limine_term.c\<close> are judged: the digits of a number in a base, least significant first, and
  the text that shows them most significant first. The text reads back as the number.
\<close>

function digits :: "nat \<Rightarrow> nat \<Rightarrow> nat list" where
  "digits b n = (if n = 0 \<or> b < 2 then [] else n mod b # digits b (n div b))"
  by pat_completeness auto
termination
  by (relation "measure snd") auto

declare digits.simps [simp del]

lemma digits_0 [simp]: "digits b 0 = []"
  by (simp add: digits.simps)

lemma digits_pos: "n \<noteq> 0 \<Longrightarrow> 2 \<le> b \<Longrightarrow> digits b n = n mod b # digits b (n div b)"
  by (simp add: digits.simps [of b n])

lemma digits_eq_Nil [simp]: "2 \<le> b \<Longrightarrow> digits b n = [] \<longleftrightarrow> n = 0"
  by (simp add: digits.simps [of b n])

lemma digits_less: "d \<in> set (digits b n) \<Longrightarrow> d < b"
proof (induction b n rule: digits.induct)
  case (1 b n)
  then show ?case by (cases "n = 0 \<or> b < 2") (auto simp: digits.simps [of b n])
qed

lemma digits_length: "2 \<le> b \<Longrightarrow> n < b ^ k \<Longrightarrow> length (digits b n) \<le> k"
proof (induction k arbitrary: n)
  case 0
  then show ?case by simp
next
  case (Suc k)
  have "n div b < b ^ k" using Suc.prems by (simp add: less_mult_imp_div_less mult.commute)
  then show ?case using Suc by (cases "n = 0") (simp_all add: digits_pos)
qed

text \<open>The value that a list of digits, least significant first, stands for.\<close>

definition digits_value :: "nat \<Rightarrow> nat list \<Rightarrow> nat" where
  "digits_value b ds = foldr (\<lambda>d v. d + b * v) ds 0"

lemma digits_value_digits: "2 \<le> b \<Longrightarrow> digits_value b (digits b n) = n"
proof (induction b n rule: digits.induct)
  case (1 b n)
  then show ?case by (cases "n = 0") (simp_all add: digits_value_def digits_pos)
qed

definition digit_char :: "nat \<Rightarrow> u8" where
  "digit_char d = (if d < 10 then of_nat (48 + d) else of_nat (87 + d))"

definition char_digit :: "u8 \<Rightarrow> nat" where
  "char_digit c = (if unat c < 58 then unat c - 48 else unat c - 87)"

lemma char_digit_char [simp]: "d < 16 \<Longrightarrow> char_digit (digit_char d) = d"
  by (simp add: char_digit_def digit_char_def del: of_nat_add)

lemma digit_char_nonzero [simp]: "d < 16 \<Longrightarrow> digit_char d \<noteq> 0"
  by (auto simp: digit_char_def word_unat_eq_iff simp del: of_nat_add)

definition number_text :: "nat \<Rightarrow> nat \<Rightarrow> u8 list" where
  "number_text b n = (if n = 0 then [digit_char 0] else rev (map digit_char (digits b n)))"

definition text_value :: "nat \<Rightarrow> u8 list \<Rightarrow> nat" where
  "text_value b t = digits_value b (map char_digit (rev t))"

lemma text_value_number_text: "2 \<le> b \<Longrightarrow> b \<le> 16 \<Longrightarrow> text_value b (number_text b n) = n"
proof -
  assume b: "2 \<le> b" "b \<le> 16"
  then have "map (char_digit \<circ> digit_char) (digits b n) = digits b n"
    by (intro map_idI) (auto dest: digits_less)
  then show ?thesis
    using b by (simp add: text_value_def number_text_def digits_value_digits)
      (simp add: digits_value_def)
qed

lemma number_text_nonzero: "b \<le> 16 \<Longrightarrow> c \<in> set (number_text b n) \<Longrightarrow> c \<noteq> 0"
  by (auto simp: number_text_def split: if_splits dest: digits_less)

lemma number_text_length: "2 \<le> b \<Longrightarrow> n < b ^ k \<Longrightarrow> 0 < k \<Longrightarrow> length (number_text b n) \<le> k"
  by (simp add: number_text_def digits_length)

end
