(* ===== verification/Formatter.thy ===== *)
theory Formatter
  imports Digits "HOL-Library.Signed_Division"
begin

text \<open>
  The conversions of \<open>formatter.c\<close>. A conversion appends text to a 1024 byte buffer at an
  offset and returns the new offset. Buffers are byte lists; the offset and the indices, which
  the code keeps between 0 and 1024, are natural numbers. An argument list (\<open>va_list\<close>) is the
  list of the 64-bit argument slots not yet consumed; taking an argument from an empty list is
  a \<open>Fault\<close>. A string argument is the address of its first byte in memory.

  The reference is \<open>emit\<close>: as much of a text as fits is appended. Every conversion is shown to
  emit the reference text of its argument.
\<close>

subsection \<open>Conversions\<close>

definition MAX_STRING_FORMATTER_BUFFER_SIZE :: nat where [kernel_defs]:
  "MAX_STRING_FORMATTER_BUFFER_SIZE = 1024"

definition MAX_HEX_HANDLER_BUFFER_SIZE :: nat where [kernel_defs]:
  "MAX_HEX_HANDLER_BUFFER_SIZE = 64"

type_synonym buffer = "u8 list"

definition hex_chars :: "u8 list" where
  "hex_chars = [0x30, 0x31, 0x32, 0x33, 0x34, 0x35, 0x36, 0x37, 0x38, 0x39,
                0x61, 0x62, 0x63, 0x64, 0x65, 0x66]"

function hex_digits_loop :: "u64 \<Rightarrow> nat \<Rightarrow> buffer \<Rightarrow> nat \<times> buffer" where
  "hex_digits_loop num index buffer =
     (if num \<noteq> 0 \<and> index < MAX_HEX_HANDLER_BUFFER_SIZE
      then hex_digits_loop (num div 16) (Suc index) (buffer[index := hex_chars ! unat (num mod 16)])
      else (index, buffer))"
  by pat_completeness auto
termination
  by (relation "measure (\<lambda>(num, index, buffer). 64 - index)") (auto simp: kernel_defs)

function swap_loop :: "nat \<Rightarrow> nat \<Rightarrow> buffer \<Rightarrow> buffer" where
  "swap_loop k j buffer =
     (if k < j then swap_loop (Suc k) (j - 1) (buffer[k := buffer ! j, j := buffer ! k]) else buffer)"
  by pat_completeness auto
termination
  by (relation "measure (\<lambda>(k, j, buffer). j - k)") auto

definition int_to_hex :: "u64 \<Rightarrow> buffer \<Rightarrow> buffer" where
  "int_to_hex i buffer =
     (if i = 0 then buffer[0 := 0x30]
      else let (index, buffer) = hex_digits_loop i 0 buffer
           in swap_loop 0 (index - 1) buffer)"

function format_string :: "cstring \<Rightarrow> buffer \<Rightarrow> nat \<Rightarrow> nat \<times> buffer" where
  "format_string s buffer buffer_offset =
     (if s 0 \<noteq> 0 \<and> buffer_offset < MAX_STRING_FORMATTER_BUFFER_SIZE
      then format_string (shift s 1) (buffer[buffer_offset := s 0]) (Suc buffer_offset)
      else (buffer_offset, buffer))"
  by pat_completeness auto
termination
  by (relation "measure (\<lambda>(s, buffer, off). 1024 - off)") (auto simp: kernel_defs)

definition format_char :: "u32 \<Rightarrow> buffer \<Rightarrow> nat \<Rightarrow> nat \<times> buffer" where
  "format_char c buffer buffer_offset =
     (if buffer_offset < MAX_STRING_FORMATTER_BUFFER_SIZE
      then (Suc buffer_offset, buffer[buffer_offset := ucast c])
      else (buffer_offset, buffer))"

function uint_len_loop :: "u64 \<Rightarrow> nat \<Rightarrow> nat" where
  "uint_len_loop remainder len = (if remainder \<noteq> 0 then uint_len_loop (remainder div 10) (Suc len) else len)"
  by pat_completeness auto
termination
  by (relation "measure (\<lambda>(r, len). unat r)") (auto simp: unat_div word_neq_0_conv word_less_nat_alt)

function uint_fill_loop :: "nat \<Rightarrow> nat \<Rightarrow> u64 \<Rightarrow> buffer \<Rightarrow> buffer" where
  "uint_fill_loop i len num number =
     (if i < len then uint_fill_loop (Suc i) len (num div 10) (number[i := ucast (num mod 10 + 0x30)])
      else number)"
  by pat_completeness auto
termination
  by (relation "measure (\<lambda>(i, len, num, number). len - i)") auto

text \<open>\<open>for (int i = len - 1; i >= 0; i--)\<close>, with \<open>i + 1\<close> as the argument.\<close>

fun put_number :: "buffer \<Rightarrow> nat \<Rightarrow> buffer \<Rightarrow> nat \<Rightarrow> nat \<times> buffer" where
  "put_number number 0 buffer buffer_offset = (buffer_offset, buffer)"
| "put_number number (Suc i) buffer buffer_offset =
     (if buffer_offset < MAX_STRING_FORMATTER_BUFFER_SIZE
      then put_number number i (buffer[buffer_offset := number ! i]) (Suc buffer_offset)
      else (buffer_offset, buffer))"

definition format_zero :: "buffer \<Rightarrow> nat \<Rightarrow> nat \<times> buffer" where
  "format_zero buffer buffer_offset =
     (if buffer_offset < MAX_STRING_FORMATTER_BUFFER_SIZE
      then (Suc buffer_offset, buffer[buffer_offset := 0x30])
      else (buffer_offset, buffer))"

definition format_uint :: "u64 \<Rightarrow> buffer \<Rightarrow> nat \<Rightarrow> nat \<times> buffer" where
  "format_uint num buffer buffer_offset =
     (if num = 0 then format_zero buffer buffer_offset
      else let len = uint_len_loop num 0;
               number = uint_fill_loop 0 len num (replicate len 0)
           in put_number number len buffer buffer_offset)"

text \<open>C's \<open>/\<close> and \<open>%\<close> on \<open>int64_t\<close> round towards zero: \<open>sdiv\<close> and \<open>smod\<close> on \<open>int\<close>.\<close>

function int_len_loop :: "int \<Rightarrow> nat \<Rightarrow> nat" where
  "int_len_loop remainder len = (if remainder \<noteq> 0 then int_len_loop (remainder sdiv 10) (Suc len) else len)"
  by pat_completeness auto
termination
  by (relation "measure (\<lambda>(r, len). nat \<bar>r\<bar>)") (auto simp: signed_divide_int_def abs_mult)

function int_fill_loop :: "nat \<Rightarrow> nat \<Rightarrow> int \<Rightarrow> buffer \<Rightarrow> buffer" where
  "int_fill_loop i len integer number =
     (if i < len then int_fill_loop (Suc i) len (integer sdiv 10) (number[i := word_of_int (integer smod 10 + 0x30)])
      else number)"
  by pat_completeness auto
termination
  by (relation "measure (\<lambda>(i, len, integer, number). len - i)") auto

definition format_int :: "u64 \<Rightarrow> buffer \<Rightarrow> nat \<Rightarrow> nat \<times> buffer" where
  "format_int arg buffer buffer_offset =
     (let integer = sint arg
      in if integer = 0 then format_zero buffer buffer_offset
         else let len = int_len_loop integer 0;
                  number = int_fill_loop 0 len integer (replicate len 0)
              in put_number number len buffer buffer_offset)"

text \<open>A byte array read as a string; reading past its end is excluded by a terminator.\<close>

definition list_cstr :: "u8 list \<Rightarrow> cstring" where
  "list_cstr bs i = (if i < length bs then bs ! i else 0)"

definition format_hex :: "u64 \<Rightarrow> buffer \<Rightarrow> nat \<Rightarrow> nat \<times> buffer" where
  "format_hex hex_int buffer buffer_offset =
     format_string (list_cstr (int_to_hex hex_int (replicate MAX_HEX_HANDLER_BUFFER_SIZE 0))) buffer buffer_offset"

definition va_arg :: "u64 list \<Rightarrow> (u64 \<times> u64 list) result" where
  "va_arg args = (case args of [] \<Rightarrow> Inl Fault | a # rest \<Rightarrow> Inr (a, rest))"

definition format_handler ::
  "memory \<Rightarrow> u8 \<Rightarrow> buffer \<Rightarrow> nat \<Rightarrow> u64 list \<Rightarrow> (nat \<times> buffer \<times> u64 list) result" where
  "format_handler m format buffer off args =
     (if format = of_char CHR ''d'' \<or> format = of_char CHR ''i'' then
        bindE (va_arg args) (\<lambda>(a, args). let (off, buffer) = format_int a buffer off in Inr (off, buffer, args))
      else if format = of_char CHR ''u'' then
        bindE (va_arg args) (\<lambda>(a, args). let (off, buffer) = format_uint a buffer off in Inr (off, buffer, args))
      else if format = of_char CHR ''X'' \<or> format = of_char CHR ''p'' \<or> format = of_char CHR ''x'' then
        if off + 2 < MAX_STRING_FORMATTER_BUFFER_SIZE then
          let buffer = buffer[off := 0x30, off + 1 := 0x78] in
          bindE (va_arg args) (\<lambda>(a, args). let (off, buffer) = format_hex a buffer (off + 2) in Inr (off, buffer, args))
        else Inr (off, buffer, args)
      else if format = of_char CHR ''c'' then
        bindE (va_arg args) (\<lambda>(a, args). let (off, buffer) = format_char (ucast a) buffer off in Inr (off, buffer, args))
      else if format = of_char CHR ''s'' then
        bindE (va_arg args) (\<lambda>(a, args). let (off, buffer) = format_string (mem_cstr m a) buffer off in Inr (off, buffer, args))
      else Inr (off, buffer, args))"

declare hex_digits_loop.simps [simp del] swap_loop.simps [simp del] format_string.simps [simp del]
  uint_len_loop.simps [simp del] uint_fill_loop.simps [simp del] int_len_loop.simps [simp del]
  int_fill_loop.simps [simp del]

subsection \<open>Appending text to the buffer\<close>

fun emit :: "u8 list \<Rightarrow> nat \<Rightarrow> buffer \<Rightarrow> nat \<times> buffer" where
  "emit [] off buffer = (off, buffer)"
| "emit (b # bs) off buffer = (if off < 1024 then emit bs (Suc off) (buffer[off := b]) else (off, buffer))"

lemma emit_full [simp]: "1024 \<le> off \<Longrightarrow> emit bs off buffer = (off, buffer)"
  by (cases bs) simp_all

lemma emit_append: "emit (as @ bs) off buffer = (let (o', b') = emit as off buffer in emit bs o' b')"
  by (induction as arbitrary: off buffer) auto

text \<open>What appending does to the array: the text goes after the first \<open>off\<close> bytes, cut at 1024.\<close>

lemma emit_eq:
  assumes "length buffer = 1024" and "off \<le> 1024"
  shows "emit bs off buffer =
    (let k = min (length bs) (1024 - off)
     in (off + k, take off buffer @ take k bs @ drop (off + k) buffer))"
  using assms
proof (induction bs arbitrary: off buffer)
  case (Cons b bs)
  show ?case
  proof (cases "off < 1024")
    case True
    then have "take (Suc off) (buffer[off := b]) = take off buffer @ [b]"
      using Cons.prems by (simp add: take_Suc_conv_app_nth)
    moreover have "min (length (b # bs)) (1024 - off) = Suc (min (length bs) (1024 - Suc off))"
      using True by simp
    ultimately show ?thesis
      using Cons.IH [of "buffer[off := b]" "Suc off"] Cons.prems True by (simp add: Let_def)
  next
    case False
    then show ?thesis using Cons.prems by simp
  qed
qed simp

subsection \<open>Digit loops\<close>

lemma list_write_step:
  assumes "i < length xs"
  shows "take (Suc i) (xs[i := x]) @ ys @ drop (Suc i + k) (xs[i := x]) = take i xs @ (x # ys) @ drop (i + Suc k) xs"
  using assms by (simp add: take_Suc_conv_app_nth)

lemma hex_chars_nth: "d < 16 \<Longrightarrow> hex_chars ! d = digit_char d"
proof -
  assume "d < 16"
  then have "d \<in> set [0..<16]" by simp
  moreover have "\<forall>d\<in>set [0..<16]. hex_chars ! d = digit_char d" by code_simp
  ultimately show ?thesis by blast
qed

lemma unat_mod_16: "unat (x mod 16 :: u64) = unat x mod 16" and unat_div_16: "unat (x div 16 :: u64) = unat x div 16"
  and unat_mod_10: "unat (x mod 10 :: u64) = unat x mod 10" and unat_div_10: "unat (x div 10 :: u64) = unat x div 10"
  by (simp_all add: unat_mod unat_div)

lemma hex_digits_loop_eq:
  assumes "length buffer = 64" and "index + length (digits 16 (unat num)) \<le> 64"
  shows "hex_digits_loop num index buffer =
    (index + length (digits 16 (unat num)),
     take index buffer @ map digit_char (digits 16 (unat num)) @ drop (index + length (digits 16 (unat num))) buffer)"
  using assms
proof (induction num index buffer rule: hex_digits_loop.induct)
  case (1 num index buffer)
  show ?case
  proof (cases "num = 0")
    case True
    then show ?thesis by (simp add: hex_digits_loop.simps [of 0])
  next
    case False
    then have d: "digits 16 (unat num) = unat num mod 16 # digits 16 (unat (num div 16))"
      by (simp add: digits_pos unat_eq_zero unat_div_16)
    then have i: "index < MAX_HEX_HANDLER_BUFFER_SIZE" "index < length buffer"
      using "1.prems" by (simp_all add: kernel_defs)
    have h: "hex_chars ! unat (num mod 16) = digit_char (unat num mod 16)"
      by (simp add: hex_chars_nth unat_mod_16)
    have "hex_digits_loop num index buffer =
        hex_digits_loop (num div 16) (Suc index) (buffer[index := digit_char (unat num mod 16)])"
      using False i by (simp add: hex_digits_loop.simps [of num] h)
    also have "\<dots> = (Suc index + length (digits 16 (unat (num div 16))),
        take (Suc index) (buffer[index := digit_char (unat num mod 16)]) @ map digit_char (digits 16 (unat (num div 16))) @
        drop (Suc index + length (digits 16 (unat (num div 16)))) (buffer[index := digit_char (unat num mod 16)]))"
      using "1.IH" False i "1.prems" d by (simp add: h)
    finally show ?thesis unfolding list_write_step [OF i(2)] d by simp
  qed
qed

lemma swap_loop_length [simp]: "length (swap_loop k j buffer) = length buffer"
  by (induction k j buffer rule: swap_loop.induct) (simp add: swap_loop.simps)

lemma swap_loop_nth:
  assumes "j < length buffer" and "i < length buffer"
  shows "swap_loop k j buffer ! i = (if k \<le> i \<and> i \<le> j then buffer ! (k + j - i) else buffer ! i)"
  using assms
proof (induction k j buffer rule: swap_loop.induct)
  case (1 k j buffer)
  show ?case
  proof (cases "k < j")
    case True
    then have "swap_loop k j buffer ! i = (if Suc k \<le> i \<and> i \<le> j - 1
        then buffer[k := buffer ! j, j := buffer ! k] ! (k + j - i) else buffer[k := buffer ! j, j := buffer ! k] ! i)"
      using "1.IH" "1.prems" by (simp add: swap_loop.simps [of k])
    then show ?thesis using True "1.prems" by (auto simp: nth_list_update)
  next
    case False
    then have "k + j - i = i" if "k \<le> i" "i \<le> j" using that by simp
    then show ?thesis using False by (auto simp: swap_loop.simps [of k])
  qed
qed

lemma swap_loop_rev:
  assumes "xs \<noteq> []"
  shows "swap_loop 0 (length xs - 1) (xs @ ys) = rev xs @ ys"
proof (rule nth_equalityI)
  fix i assume "i < length (swap_loop 0 (length xs - 1) (xs @ ys))"
  moreover obtain n where "length xs = Suc n" using assms by (cases xs) auto
  ultimately show "swap_loop 0 (length xs - 1) (xs @ ys) ! i = (rev xs @ ys) ! i"
    by (cases "i < length xs") (auto simp: swap_loop_nth nth_append rev_nth)
qed simp

lemma digits_16_length: "length (digits 16 (unat (x :: u64))) \<le> 16"
  using unat_bound [of x] by (intro digits_length) simp_all

lemma int_to_hex_eq:
  "int_to_hex i (replicate 64 0) =
     number_text 16 (unat i) @ replicate (64 - length (number_text 16 (unat i))) 0"
proof (cases "i = 0")
  case True
  have "replicate 64 (0 :: u8) = 0 # replicate 63 0" by (simp add: numeral_eq_Suc)
  then show ?thesis using True by (simp add: int_to_hex_def number_text_def digit_char_def)
next
  case False
  let ?ds = "digits 16 (unat i)"
  have l: "length ?ds \<le> 16" by (rule digits_16_length)
  have "map digit_char ?ds \<noteq> []" using False by (simp add: unat_eq_zero)
  note r = swap_loop_rev [OF this, of "replicate (64 - length ?ds) 0"]
  show ?thesis
    using False l r hex_digits_loop_eq [of "replicate 64 0" 0 i]
    by (simp add: int_to_hex_def number_text_def unat_eq_zero)
qed

lemma uint_len_loop_eq: "uint_len_loop r len = len + length (digits 10 (unat r))"
proof (induction r len rule: uint_len_loop.induct)
  case (1 r len)
  then show ?case
    by (cases "r = 0") (simp_all add: uint_len_loop.simps [of r] uint_len_loop.simps [of 0] digits_pos unat_eq_zero unat_div_10)
qed

lemma digit_char_10: "ucast (num mod 10 + 0x30 :: u64) = digit_char (unat num mod 10)"
proof -
  have b: "unat num mod 10 < 10" by simp
  have "unat (num mod 10 + 0x30) = unat num mod 10 + 48"
    using b by (subst unat_add_small) (simp_all add: unat_mod_10)
  then have "unat (ucast (num mod 10 + 0x30 :: u64) :: u8) = unat num mod 10 + 48"
    using b by (simp add: unsigned_ucast_eq take_bit_nat_eq_self)
  moreover have "unat (digit_char (unat num mod 10)) = unat num mod 10 + 48"
    by (simp add: digit_char_def add.commute del: of_nat_add)
  ultimately show ?thesis by (simp add: word_unat_eq_iff)
qed

lemma uint_fill_loop_eq:
  assumes "len = i + length (digits 10 (unat num))" and "length number = len"
  shows "uint_fill_loop i len num number = take i number @ map digit_char (digits 10 (unat num))"
  using assms
proof (induction i len num number rule: uint_fill_loop.induct)
  case (1 i len num number)
  show ?case
  proof (cases "num = 0")
    case True
    then show ?thesis using "1.prems" by (simp add: uint_fill_loop.simps [of i])
  next
    case False
    then have d: "digits 10 (unat num) = unat num mod 10 # digits 10 (unat (num div 10))"
      by (simp add: digits_pos unat_eq_zero unat_div_10)
    then have i: "i < len" using "1.prems" by simp
    have "uint_fill_loop i len num number =
        take (Suc i) (number[i := digit_char (unat num mod 10)]) @ map digit_char (digits 10 (unat (num div 10)))"
      using "1.IH" [OF i] "1.prems" d i by (simp add: uint_fill_loop.simps [of i] digit_char_10)
    then show ?thesis using i "1.prems" d by (simp add: take_Suc_conv_app_nth)
  qed
qed

lemma put_number_emit: "n \<le> length number \<Longrightarrow> put_number number n buffer off = emit (rev (take n number)) off buffer"
  by (induction n arbitrary: buffer off) (simp_all add: take_Suc_conv_app_nth kernel_defs)

lemma format_zero_emit: "format_zero buffer off = emit [digit_char 0] off buffer"
  by (simp add: format_zero_def kernel_defs digit_char_def)

lemma format_uint_emit: "format_uint num buffer off = emit (number_text 10 (unat num)) off buffer"
proof (cases "num = 0")
  case True
  then show ?thesis by (simp add: format_uint_def format_zero_emit number_text_def)
next
  case False
  then show ?thesis
    by (simp add: format_uint_def uint_len_loop_eq uint_fill_loop_eq put_number_emit number_text_def unat_eq_zero)
qed

text \<open>
  The signed conversion. A negative number's digits are its remainders, which C makes negative,
  so the characters go down from \<open>'0'\<close> and there is no sign.
\<close>

definition signed_digit_char :: "int \<Rightarrow> nat \<Rightarrow> u8" where
  "signed_digit_char n d = word_of_int (48 + sgn n * int d)"

definition signed_text :: "int \<Rightarrow> u8 list" where
  "signed_text n = (if n = 0 then [digit_char 0] else rev (map (signed_digit_char n) (digits 10 (nat \<bar>n\<bar>))))"

lemma sdiv_10: "nat \<bar>n sdiv 10\<bar> = nat \<bar>n\<bar> div 10"
  by (simp add: signed_divide_int_def abs_mult nat_div_distrib sgn_if)

lemma sdiv_10_sgn: "n sdiv 10 = 0 \<or> sgn (n sdiv 10) = sgn n" for n :: int
  by (auto simp: signed_divide_int_def sgn_if zero_less_mult_iff mult_less_0_iff pos_imp_zdiv_pos_iff split: if_splits)

lemma smod_10: "n smod 10 = sgn n * int (nat \<bar>n\<bar> mod 10)"
proof -
  have e: "n mod 10 = n - n div 10 * 10" for n :: int by (simp add: minus_div_mult_eq_mod)
  show ?thesis
    by (cases n "0 :: int" rule: linorder_cases)
      (simp_all add: signed_modulo_int_def signed_divide_int_def zmod_int e)
qed

lemma int_len_loop_eq: "int_len_loop r len = len + length (digits 10 (nat \<bar>r\<bar>))"
proof (induction r len rule: int_len_loop.induct)
  case (1 r len)
  then show ?case
    by (cases "r = 0") (simp_all add: int_len_loop.simps [of r] int_len_loop.simps [of 0] digits_pos sdiv_10)
qed

lemma signed_digit_char_cong: "sgn m = sgn n \<Longrightarrow> signed_digit_char m = signed_digit_char n"
  by (simp add: signed_digit_char_def fun_eq_iff)

lemma int_fill_loop_eq:
  assumes "len = i + length (digits 10 (nat \<bar>n\<bar>))" and "length number = len"
  shows "int_fill_loop i len n number = take i number @ map (signed_digit_char n) (digits 10 (nat \<bar>n\<bar>))"
  using assms
proof (induction i len n number rule: int_fill_loop.induct)
  case (1 i len n number)
  show ?case
  proof (cases "n = 0")
    case True
    then show ?thesis using "1.prems" by (simp add: int_fill_loop.simps [of i])
  next
    case False
    then have d: "digits 10 (nat \<bar>n\<bar>) = nat \<bar>n\<bar> mod 10 # digits 10 (nat \<bar>n sdiv 10\<bar>)"
      by (simp add: digits_pos sdiv_10)
    then have i: "i < len" using "1.prems" by simp
    have c: "word_of_int (n smod 10) + 0x30 = signed_digit_char n (nat \<bar>n\<bar> mod 10)"
      by (simp add: signed_digit_char_def smod_10 add.commute)
    have "map (signed_digit_char (n sdiv 10)) (digits 10 (nat \<bar>n sdiv 10\<bar>)) =
        map (signed_digit_char n) (digits 10 (nat \<bar>n sdiv 10\<bar>))"
      using sdiv_10_sgn [of n] by (auto simp: signed_digit_char_def)
    then have "int_fill_loop i len n number =
        take (Suc i) (number[i := signed_digit_char n (nat \<bar>n\<bar> mod 10)]) @ map (signed_digit_char n) (digits 10 (nat \<bar>n sdiv 10\<bar>))"
      using "1.IH" [OF i] "1.prems" d i by (simp add: int_fill_loop.simps [of i] c)
    then show ?thesis using i "1.prems" d by (simp add: take_Suc_conv_app_nth)
  qed
qed

lemma format_int_emit: "format_int arg buffer off = emit (signed_text (sint arg)) off buffer"
proof (cases "sint arg = 0")
  case True
  then show ?thesis by (simp add: format_int_def format_zero_emit signed_text_def)
next
  case False
  then show ?thesis
    by (simp add: format_int_def Let_def int_len_loop_eq int_fill_loop_eq put_number_emit signed_text_def)
qed

lemma signed_text_nonneg: "0 \<le> n \<Longrightarrow> signed_text n = number_text 10 (nat n)"
proof -
  assume n: "0 \<le> n"
  have "signed_digit_char n d = digit_char d" if "n \<noteq> 0" "d \<in> set (digits 10 (nat n))" for d
    using n that digits_less [OF that(2)] by (simp add: signed_digit_char_def digit_char_def)
  then show ?thesis using n by (simp add: signed_text_def number_text_def)
qed

subsection \<open>Strings and the conversion specifiers\<close>

text \<open>A character pointer to the terminated text \<open>cs\<close>, and the text at a character pointer.\<close>

definition is_cstr :: "cstring \<Rightarrow> u8 list \<Rightarrow> bool" where
  "is_cstr s cs \<longleftrightarrow> (\<forall>i<length cs. s i = cs ! i) \<and> s (length cs) = 0 \<and> 0 \<notin> set cs"

lemma is_cstr_Nil [simp]: "is_cstr s [] \<longleftrightarrow> s 0 = 0"
  by (simp add: is_cstr_def)

lemma is_cstr_Cons: "is_cstr s (c # cs) \<longleftrightarrow> s 0 = c \<and> c \<noteq> 0 \<and> is_cstr (shift s 1) cs"
  by (auto simp: is_cstr_def All_less_Suc2)

lemma is_cstr_unique: "is_cstr s as \<Longrightarrow> is_cstr s bs \<Longrightarrow> as = bs"
proof (induction "as" arbitrary: s bs)
  case Nil
  then show ?case by (cases bs) (auto simp: is_cstr_Cons)
next
  case (Cons a "as")
  then show ?case by (cases bs) (auto simp: is_cstr_Cons)
qed

definition cstr_text :: "cstring \<Rightarrow> u8 list" where
  "cstr_text s = map s [0..<LEAST n. s n = 0]"

lemma is_cstr_text:
  assumes "s n = 0"
  shows "is_cstr s (cstr_text s)"
proof -
  define k where "k = (LEAST n. s n = 0)"
  have "s k = 0" unfolding k_def using assms by (rule LeastI)
  moreover have "s i \<noteq> 0" if "i < k" for i using not_less_Least that unfolding k_def by blast
  ultimately show ?thesis by (auto simp: is_cstr_def cstr_text_def k_def [symmetric])
qed

lemma cstr_text_eq:
  assumes "is_cstr s cs"
  shows "cstr_text s = cs"
proof -
  have "s (length cs) = 0" using assms by (simp add: is_cstr_def)
  from is_cstr_unique [OF is_cstr_text [of s, OF this] assms] show ?thesis .
qed

lemma is_cstr_list:
  "0 \<notin> set cs \<Longrightarrow> rest = [] \<or> hd rest = 0 \<Longrightarrow> is_cstr (list_cstr (cs @ rest)) cs"
  by (auto simp: is_cstr_def list_cstr_def nth_append hd_conv_nth)

lemma format_string_emit: "is_cstr s cs \<Longrightarrow> format_string s buffer off = emit cs off buffer"
proof (induction cs arbitrary: s buffer off)
  case Nil
  then show ?case by (simp add: format_string.simps [of s])
next
  case (Cons c cs)
  then have "s 0 = c" "c \<noteq> 0" "is_cstr (shift s 1) cs" by (simp_all add: is_cstr_Cons)
  then show ?case using Cons.IH [of "shift s 1"]
    by (simp add: format_string.simps [of s] kernel_defs del: shift_apply)
qed

lemma format_hex_emit: "format_hex i buffer off = emit (number_text 16 (unat i)) off buffer"
proof -
  have "0 \<notin> set (number_text 16 (unat i))" using number_text_nonzero [of 16] by auto
  moreover have "replicate k (0 :: u8) = [] \<or> hd (replicate k (0 :: u8)) = 0" for k by (cases k) simp_all
  ultimately show ?thesis
    unfolding format_hex_def MAX_HEX_HANDLER_BUFFER_SIZE_def int_to_hex_eq
    by (intro format_string_emit is_cstr_list)
qed

definition signed_spec :: "u8 \<Rightarrow> bool" where
  "signed_spec f \<longleftrightarrow> f = of_char CHR ''d'' \<or> f = of_char CHR ''i''"

definition hex_spec :: "u8 \<Rightarrow> bool" where
  "hex_spec f \<longleftrightarrow> f = of_char CHR ''X'' \<or> f = of_char CHR ''p'' \<or> f = of_char CHR ''x''"

definition takes_arg :: "u8 \<Rightarrow> bool" where
  "takes_arg f \<longleftrightarrow> signed_spec f \<or> f = of_char CHR ''u'' \<or> hex_spec f \<or> f = of_char CHR ''c'' \<or> f = of_char CHR ''s''"

text \<open>The reference text of a conversion, and the condition on its argument.\<close>

definition conv_text :: "memory \<Rightarrow> u8 \<Rightarrow> u64 \<Rightarrow> u8 list" where
  "conv_text m f a =
     (if signed_spec f then signed_text (sint a)
      else if f = of_char CHR ''u'' then number_text 10 (unat a)
      else if hex_spec f then [0x30, 0x78] @ number_text 16 (unat a)
      else if f = of_char CHR ''c'' then [ucast (ucast a :: u32)]
      else cstr_text (mem_cstr m a))"

definition conv_ok :: "memory \<Rightarrow> u8 \<Rightarrow> u64 \<Rightarrow> bool" where
  "conv_ok m f a \<longleftrightarrow> f = of_char CHR ''s'' \<longrightarrow> (\<exists>n. mem_cstr m a n = 0)"

lemma format_handler_no_arg: "\<not> takes_arg f \<Longrightarrow> format_handler m f buffer off args = Inr (off, buffer, args)"
  by (simp add: format_handler_def takes_arg_def signed_spec_def hex_spec_def)

lemma format_handler_missing_arg:
  "takes_arg f \<Longrightarrow> \<not> hex_spec f \<Longrightarrow> format_handler m f buffer off [] = Inl Fault"
  by (auto simp: format_handler_def takes_arg_def signed_spec_def hex_spec_def va_arg_def)

lemma format_handler_emit:
  assumes "takes_arg f" and "conv_ok m f a" and "hex_spec f \<longrightarrow> off + 2 < 1024"
  shows "format_handler m f buffer off (a # args) =
    (let (off, buffer) = emit (conv_text m f a) off buffer in Inr (off, buffer, args))"
proof -
  consider "signed_spec f" | "f = of_char CHR ''u''" | "hex_spec f" | "f = of_char CHR ''c''" | "f = of_char CHR ''s''"
    using assms(1) by (auto simp: takes_arg_def)
  then show ?thesis
  proof cases
    case 3
    then show ?thesis using assms(3)
      by (auto simp: format_handler_def conv_text_def signed_spec_def hex_spec_def va_arg_def format_hex_emit kernel_defs)
  next
    case 5
    then obtain n where "mem_cstr m a n = 0" using assms(2) by (auto simp: conv_ok_def)
    with 5 show ?thesis
      by (simp add: format_handler_def conv_text_def signed_spec_def hex_spec_def va_arg_def
          format_string_emit [OF is_cstr_text])
  qed (auto simp: format_handler_def conv_text_def signed_spec_def hex_spec_def va_arg_def
      format_int_emit format_uint_emit format_char_def kernel_defs)
qed

subsection \<open>Properties\<close>

text \<open>
  The unsigned and hexadecimal conversions are correct for all 64-bit numbers: the bytes
  after the old offset are the number's digits, most significant first and cut at the end of
  the buffer, the bytes around them are unchanged, and when they fit they read back as the
  number.
\<close>

theorem format_number_correct:
  assumes "length buffer = 1024" and "off \<le> 1024" and "b = 10 \<and> fmt = format_uint \<or> b = 16 \<and> fmt = format_hex"
  shows "\<exists>k \<le> 20. fst (fmt num buffer off) = min 1024 (off + k) \<and>
    snd (fmt num buffer off) = take off buffer @ take (1024 - off) (number_text b (unat num)) @ drop (off + k) buffer \<and>
    (off + k \<le> 1024 \<longrightarrow> text_value b (take k (drop off (snd (fmt num buffer off)))) = unat num)"
proof -
  let ?t = "number_text b (unat num)"
  have b: "2 \<le> b" "b \<le> 16" using assms(3) by auto
  have "unat num < 10 ^ 20" using unat_bound [of num] by simp
  also have "(10 :: nat) ^ 20 \<le> b ^ 20" using assms(3) by (intro power_mono) auto
  finally have "length ?t \<le> 20" using b by (intro number_text_length) simp_all
  moreover have e: "fmt num buffer off = emit ?t off buffer"
    using assms(3) by (auto simp: format_uint_emit format_hex_emit)
  moreover have "drop (off + min (length ?t) (1024 - off)) buffer = drop (off + length ?t) buffer"
    using assms(1,2) by (simp add: min_def)
  moreover have "take (min (length ?t) (1024 - off)) ?t = take (1024 - off) ?t" by (simp add: min_def)
  ultimately show ?thesis
    using assms(1,2) text_value_number_text [OF b, of "unat num"]
    by (intro exI [of _ "length ?t"]) (auto simp: emit_eq Let_def min_def)
qed

theorem format_number_correct_witness:
  "\<exists>k \<le> 20. fst (format_uint 1984 (replicate 1024 0) 1000) = min 1024 (1000 + k) \<and>
    (1000 + k \<le> 1024 \<longrightarrow> text_value 10 (take k (drop 1000 (snd (format_uint 1984 (replicate 1024 0) 1000)))) = 1984)"
  using format_number_correct [of "replicate 1024 0" 1000 10 format_uint 1984] by auto

text \<open>
  The signed conversion prints a non-negative number as its decimal digits, and a negative
  number without a sign and with the characters \<open>48 - d\<close> in place of its digits \<open>d\<close>.
\<close>

theorem format_int_correct:
  "format_int arg buffer off =
     emit (if 0 \<le> sint arg then number_text 10 (nat (sint arg))
           else map (\<lambda>d. 48 - of_nat d) (rev (digits 10 (nat (- sint arg))))) off buffer"
proof (cases "0 \<le> sint arg")
  case True
  then show ?thesis by (simp add: format_int_emit signed_text_nonneg)
next
  case False
  then have "signed_digit_char (sint arg) = (\<lambda>d. 48 - of_nat d)"
    by (simp add: signed_digit_char_def fun_eq_iff)
  then show ?thesis using False by (simp add: format_int_emit signed_text_def rev_map)
qed

end
