(* ===== verification/Cpu.thy ===== *)
theory Cpu
  imports Digits
begin

text \<open>
  Port input and output, the serial line, the interrupt controller and the register frame of
  \<open>cpu.h\<close>, \<open>cpu.c\<close> and \<open>pic.c\<close>.

  A run of port instructions is a trace, newest first. The devices are outside the program: a
  \<open>device\<close> gives the byte that a read of a port returns after a trace. Waiting for the serial
  line is a loop on device reads, so it is a partial function; the hypothesis under which it
  ends is \<open>uart_drains\<close>, that polling the line status register (port 5 of the UART) sees the
  transmitter-empty bit after finitely many reads.
\<close>

subsection \<open>Ports\<close>

datatype io_event = In u16 u8 | Out u16 u8

type_synonym io_trace = "io_event list"
type_synonym device = "io_trace \<Rightarrow> u16 \<Rightarrow> u8"

definition inb :: "device \<Rightarrow> u16 \<Rightarrow> io_trace \<Rightarrow> u8 \<times> io_trace" where
  "inb dev portnum tr = (dev tr portnum, In portnum (dev tr portnum) # tr)"

definition outb :: "u16 \<Rightarrow> u8 \<Rightarrow> io_trace \<Rightarrow> io_trace" where
  "outb portnum v tr = Out portnum v # tr"

text \<open>\<open>hcf\<close> disables interrupts and halts for ever.\<close>

definition hcf :: "'a result" where
  "hcf = Inl Hang"

definition rdmsr :: "(u32 \<Rightarrow> u32 \<times> u32) \<Rightarrow> u32 \<Rightarrow> u64" where
  "rdmsr msrs msr = (let (low, high) = msrs msr in push_bit 32 (ucast high) OR ucast low)"

record execution_context =
  rbp :: u64
  r15 :: u64
  r14 :: u64
  r13 :: u64
  r12 :: u64
  r11 :: u64
  r10 :: u64
  r9 :: u64
  r8 :: u64
  rsi :: u64
  rdi :: u64
  rdx :: u64
  rcx :: u64
  rbx :: u64
  rax :: u64
  int_number :: u64
  error_code :: u64
  iret_rip :: u64
  iret_cs :: u64
  iret_flags :: u64
  iret_rsp :: u64
  iret_ss :: u64

subsection \<open>The serial line\<close>

definition PORT :: u16 where
  "PORT = 0x3f8"

definition serial_init :: "device \<Rightarrow> io_trace \<Rightarrow> u32 \<times> io_trace" where
  "serial_init dev tr =
     (let tr = outb (PORT + 1) 0x00 tr;
          tr = outb (PORT + 3) 0x80 tr;
          tr = outb (PORT + 0) 0x03 tr;
          tr = outb (PORT + 1) 0x00 tr;
          tr = outb (PORT + 3) 0x03 tr;
          tr = outb (PORT + 2) 0xC7 tr;
          tr = outb (PORT + 4) 0x0B tr;
          tr = outb (PORT + 4) 0x1E tr;
          tr = outb (PORT + 0) 0xAE tr;
          (v, tr) = inb dev (PORT + 0) tr
      in if v \<noteq> 0xAE then (1, tr)
         else (0, outb (PORT + 4) 0x0F tr))"

partial_function (option) serial_wait :: "device \<Rightarrow> io_trace \<Rightarrow> io_trace option" where
  "serial_wait dev tr =
     (let (v, tr) = inb dev (PORT + 5) tr
      in if v AND 0x20 = 0 then serial_wait dev tr else Some tr)"

text \<open>The string is a byte array; running off its end is a \<open>Fault\<close>.\<close>

fun log_to_serial_loop :: "device \<Rightarrow> u8 list \<Rightarrow> io_trace \<Rightarrow> io_trace result" where
  "log_to_serial_loop dev [] tr = Inl Fault"
| "log_to_serial_loop dev (c # string) tr =
     (if c \<noteq> 0 then
        bindE (of_loop (serial_wait dev tr)) (\<lambda>tr. log_to_serial_loop dev string (outb PORT c tr))
      else Inr tr)"

definition log_to_serial :: "device \<Rightarrow> u8 list \<Rightarrow> io_trace \<Rightarrow> io_trace result" where
  "log_to_serial dev string tr =
     bindE (log_to_serial_loop dev string tr) (\<lambda>tr.
     bindE (of_loop (serial_wait dev tr)) (\<lambda>tr.
     Inr (outb PORT 0x0A tr)))"

subsection \<open>Numbers on the serial line and on the terminal\<close>

text \<open>
  \<open>log_to_serial_digit\<close> and \<open>limine_write_digit\<close> build the same string. The number is cut to
  eight bits; the length, at most three, and the indices are natural numbers.
\<close>

definition decimal_to_str :: "u64 \<Rightarrow> u8 list" where
  "decimal_to_str digit = [0x30, 0]"

function digit_len_loop :: "u8 \<Rightarrow> nat \<Rightarrow> nat" where
  "digit_len_loop dig len = (if dig > 0 then digit_len_loop (dig div 10) (Suc len) else len)"
  by pat_completeness auto
termination
  by (relation "measure (\<lambda>(d, len). unat d)") (auto simp: unat_div word_less_nat_alt)

function digit_fill_loop :: "nat \<Rightarrow> nat \<Rightarrow> u8 \<Rightarrow> u8 list \<Rightarrow> u8 list" where
  "digit_fill_loop i len dig str =
     (if i < len then digit_fill_loop (Suc i) len (dig div 10) (str[i := dig mod 10 + 0x30]) else str)"
  by pat_completeness auto
termination
  by (relation "measure (\<lambda>(i, len, dig, str). len - i)") auto

function digit_reverse_loop :: "nat \<Rightarrow> nat \<Rightarrow> u8 list \<Rightarrow> u8 list" where
  "digit_reverse_loop i len str =
     (if i < len div 2
      then digit_reverse_loop (Suc i) len (str[i := str ! (len - i - 1), len - i - 1 := str ! i])
      else str)"
  by pat_completeness auto
termination
  by (relation "measure (\<lambda>(i, len, str). len div 2 - i)") auto

definition digit_string :: "u64 \<Rightarrow> u8 list" where
  "digit_string digit =
     (let dig = ucast digit;
          len = digit_len_loop dig 0;
          str = digit_fill_loop 0 len dig (replicate (len + 1) 0);
          str = str[len := 0]
      in digit_reverse_loop 0 len str)"

definition log_to_serial_digit :: "device \<Rightarrow> u64 \<Rightarrow> io_trace \<Rightarrow> io_trace result" where
  "log_to_serial_digit dev digit tr = log_to_serial dev (digit_string digit) tr"

subsection \<open>The interrupt controller\<close>

definition PIC1_COMMAND :: u16 where "PIC1_COMMAND = 0x20"
definition PIC1_DATA :: u16 where "PIC1_DATA = 0x20 + 1"
definition PIC2_COMMAND :: u16 where "PIC2_COMMAND = 0xA0"
definition PIC2_DATA :: u16 where "PIC2_DATA = 0xA0 + 1"
definition PIC_EOI :: u8 where "PIC_EOI = 0x20"
definition ICW1 :: u8 where "ICW1 = 0x11"
definition ICW4 :: u8 where "ICW4 = 0x01"

definition pic_init :: "io_trace \<Rightarrow> io_trace" where
  "pic_init tr =
     (let tr = outb PIC1_COMMAND ICW1 tr;
          tr = outb PIC2_COMMAND ICW1 tr;
          tr = outb PIC1_DATA 0x20 tr;
          tr = outb PIC2_DATA 0x28 tr;
          tr = outb PIC1_DATA 4 tr;
          tr = outb PIC2_DATA 2 tr;
          tr = outb PIC1_DATA ICW4 tr;
          tr = outb PIC2_DATA ICW4 tr;
          tr = outb PIC1_DATA 0x0 tr
      in outb PIC2_DATA 0x0 tr)"

definition pic_eoi :: "u8 \<Rightarrow> io_trace \<Rightarrow> io_trace" where
  "pic_eoi offset tr =
     (let tr = (if offset \<ge> 40 then outb PIC2_COMMAND PIC_EOI tr else tr)
      in outb PIC1_COMMAND PIC_EOI tr)"

declare digit_len_loop.simps [simp del] digit_fill_loop.simps [simp del] digit_reverse_loop.simps [simp del]

subsection \<open>The waiting loop\<close>

text \<open>The trace after polling the line status register \<open>n\<close> times.\<close>

primrec polls :: "device \<Rightarrow> nat \<Rightarrow> io_trace \<Rightarrow> io_trace" where
  "polls dev 0 tr = tr"
| "polls dev (Suc n) tr = polls dev n (In (PORT + 5) (dev tr (PORT + 5)) # tr)"

definition uart_drains :: "device \<Rightarrow> bool" where
  "uart_drains dev \<longleftrightarrow> (\<forall>tr. \<exists>n. dev (polls dev n tr) (PORT + 5) AND 0x20 \<noteq> 0)"

lemma serial_wait_polls:
  assumes "dev (polls dev n tr) (PORT + 5) AND 0x20 \<noteq> 0"
  shows "\<exists>k. serial_wait dev tr = Some (polls dev (Suc k) tr) \<and> dev (polls dev k tr) (PORT + 5) AND 0x20 \<noteq> 0"
  using assms
proof (induction n arbitrary: tr)
  case 0
  then show ?case by (intro exI [of _ 0]) (simp add: serial_wait.simps [of dev tr] inb_def)
next
  case (Suc n)
  show ?case
  proof (cases "dev tr (PORT + 5) AND 0x20 = 0")
    case True
    from Suc obtain k where "serial_wait dev (polls dev (Suc 0) tr) = Some (polls dev (Suc k) (polls dev (Suc 0) tr))"
      "dev (polls dev k (polls dev (Suc 0) tr)) (PORT + 5) AND 0x20 \<noteq> 0"
      by (metis polls.simps)
    then show ?thesis
      using True by (intro exI [of _ "Suc k"]) (simp add: serial_wait.simps [of dev tr] inb_def)
  next
    case False
    then show ?thesis by (intro exI [of _ 0]) (simp add: serial_wait.simps [of dev tr] inb_def)
  qed
qed

text \<open>The bytes sent on the line, oldest first.\<close>

primrec sent :: "io_trace \<Rightarrow> u8 list" where
  "sent [] = []"
| "sent (e # tr) = sent tr @ (case e of Out p v \<Rightarrow> if p = PORT then [v] else [] | In p v \<Rightarrow> [])"

text \<open>Every byte is sent right after the transmitter was seen empty.\<close>

definition saw_empty :: "io_trace \<Rightarrow> bool" where
  "saw_empty tr \<longleftrightarrow> (case tr of In p v # _ \<Rightarrow> p = PORT + 5 \<and> v AND 0x20 \<noteq> 0 | _ \<Rightarrow> False)"

primrec paced :: "io_trace \<Rightarrow> bool" where
  "paced [] = True"
| "paced (e # tr) = (paced tr \<and> (case e of Out p v \<Rightarrow> p = PORT \<longrightarrow> saw_empty tr | In p v \<Rightarrow> True))"

lemma sent_polls [simp]: "sent (polls dev n tr) = sent tr"
  by (induction n arbitrary: tr) simp_all

lemma paced_polls [simp]: "paced (polls dev n tr) = paced tr"
  by (induction n arbitrary: tr) simp_all

lemma polls_Suc: "polls dev (Suc n) tr = In (PORT + 5) (dev (polls dev n tr) (PORT + 5)) # polls dev n tr"
  by (induction n arbitrary: tr) simp_all

lemma serial_wait_drained:
  assumes "uart_drains dev"
  obtains t where "serial_wait dev tr = Some t" "sent t = sent tr" "paced t = paced tr" "saw_empty t"
proof -
  from assms obtain n where "dev (polls dev n tr) (PORT + 5) AND 0x20 \<noteq> 0" by (auto simp: uart_drains_def)
  from serial_wait_polls [of dev n tr, OF this] obtain k where
    k: "serial_wait dev tr = Some (polls dev (Suc k) tr)" "dev (polls dev k tr) (PORT + 5) AND 0x20 \<noteq> 0" by blast
  show ?thesis
    by (rule that [OF k(1) sent_polls paced_polls]) (use k(2) in \<open>simp add: polls_Suc saw_empty_def del: polls.simps\<close>)
qed

lemma sent_outb [simp]: "sent (outb p v tr) = sent tr @ (if p = PORT then [v] else [])"
  by (simp add: outb_def)

lemma paced_outb [simp]: "paced (outb p v tr) \<longleftrightarrow> paced tr \<and> (p = PORT \<longrightarrow> saw_empty tr)"
  by (simp add: outb_def)

lemma log_to_serial_loop_sends:
  assumes "uart_drains dev" and "0 \<notin> set cs"
  shows "\<exists>t. log_to_serial_loop dev (cs @ 0 # rest) tr = Inr t \<and> sent t = sent tr @ cs \<and> (paced tr \<longrightarrow> paced t)"
  using assms(2)
proof (induction cs arbitrary: tr)
  case (Cons c cs)
  from assms(1) obtain t where t: "serial_wait dev tr = Some t" "sent t = sent tr" "paced t = paced tr" "saw_empty t"
    by (rule serial_wait_drained)
  have "0 \<notin> set cs" using Cons.prems by simp
  from Cons.IH [OF this, of "outb PORT c t"] obtain u where "log_to_serial_loop dev (cs @ 0 # rest) (outb PORT c t) = Inr u"
    "sent u = sent (outb PORT c t) @ cs" "paced (outb PORT c t) \<longrightarrow> paced u" by blast
  then show ?case using t Cons.prems by auto
qed simp

lemma log_to_serial_sends_aux:
  assumes "uart_drains dev" and "0 \<notin> set cs"
  shows "\<exists>t. log_to_serial dev (cs @ 0 # rest) tr = Inr t \<and> sent t = sent tr @ cs @ [0x0A] \<and> (paced tr \<longrightarrow> paced t)"
proof -
  from log_to_serial_loop_sends [OF assms] obtain t where
    t: "log_to_serial_loop dev (cs @ 0 # rest) tr = Inr t" "sent t = sent tr @ cs" "paced tr \<longrightarrow> paced t" by blast
  from assms(1) obtain u where u: "serial_wait dev t = Some u" "sent u = sent t" "paced u = paced t" "saw_empty u"
    by (rule serial_wait_drained)
  then show ?thesis using t by (simp add: log_to_serial_def)
qed

subsection \<open>The decimal string of a byte\<close>

lemma unat_u8_div_10: "unat (x div 10 :: u8) = unat x div 10"
  by (simp add: unat_div)

lemma digit_len_loop_eq: "digit_len_loop d len = len + length (digits 10 (unat d))"
proof (induction d len rule: digit_len_loop.induct)
  case (1 d len)
  show ?case
  proof (cases "d = 0")
    case True
    then show ?thesis by (simp add: digit_len_loop.simps [of 0])
  next
    case False
    then show ?thesis
      using 1 by (simp add: digit_len_loop.simps [of d] digits_pos unat_eq_zero unat_u8_div_10 word_neq_0_conv)
  qed
qed

lemma digit_char_u8: "(d mod 10 + 0x30 :: u8) = digit_char (unat d mod 10)"
proof -
  have b: "unat d mod 10 < 10" by simp
  have "unat (d mod 10 + 0x30) = unat d mod 10 + 48"
    using b by (subst unat_add_small) (simp_all add: unat_mod)
  moreover have "unat (digit_char (unat d mod 10)) = unat d mod 10 + 48"
    by (simp add: digit_char_def add.commute del: of_nat_add)
  ultimately show ?thesis by (simp add: word_unat_eq_iff)
qed

lemma digit_fill_loop_eq:
  assumes "len = i + length (digits 10 (unat d))" and "len \<le> length str"
  shows "digit_fill_loop i len d str = take i str @ map digit_char (digits 10 (unat d)) @ drop len str"
  using assms
proof (induction i len d str rule: digit_fill_loop.induct)
  case (1 i len d str)
  show ?case
  proof (cases "d = 0")
    case True
    then show ?thesis using "1.prems" by (simp add: digit_fill_loop.simps [of i])
  next
    case False
    then have d: "digits 10 (unat d) = unat d mod 10 # digits 10 (unat (d div 10))"
      by (simp add: digits_pos unat_eq_zero unat_u8_div_10)
    then have i: "i < len" using "1.prems" by simp
    have "digit_fill_loop i len d str = take (Suc i) (str[i := digit_char (unat d mod 10)]) @
        map digit_char (digits 10 (unat (d div 10))) @ drop len (str[i := digit_char (unat d mod 10)])"
      using "1.IH" [OF i] "1.prems" d i by (simp add: digit_fill_loop.simps [of i] digit_char_u8)
    then show ?thesis using i "1.prems" d by (simp add: take_Suc_conv_app_nth)
  qed
qed

lemma digit_reverse_loop_length [simp]: "length (digit_reverse_loop i len str) = length str"
  by (induction i len str rule: digit_reverse_loop.induct) (simp add: digit_reverse_loop.simps)

lemma digit_reverse_loop_nth:
  assumes "len \<le> length str" and "k < length str"
  shows "digit_reverse_loop i len str ! k = (if i \<le> k \<and> k < len - i then str ! (len - 1 - k) else str ! k)"
  using assms
proof (induction i len str rule: digit_reverse_loop.induct)
  case (1 i len str)
  show ?case
  proof (cases "i < len div 2")
    case True
    then have l: "i < length str" "len - i - 1 < length str" "i < len - i - 1" using "1.prems" by linarith+
    have "digit_reverse_loop i len str ! k = (if Suc i \<le> k \<and> k < len - Suc i
        then str[i := str ! (len - i - 1), len - i - 1 := str ! i] ! (len - 1 - k)
        else str[i := str ! (len - i - 1), len - i - 1 := str ! i] ! k)"
      using "1.IH" "1.prems" True by (simp add: digit_reverse_loop.simps [of i])
    note e = this
    consider "k = i" | "k = len - i - 1" | "k < i" | "len - i - 1 < k" | "i < k \<and> k < len - i - 1"
      by linarith
    then show ?thesis
    proof cases
      case 5
      then have "len - 1 - k \<noteq> i" "len - 1 - k \<noteq> len - i - 1" "k < len - i" "k < len - Suc i" using l by linarith+
      then show ?thesis unfolding e using 5 l by simp
    qed (unfold e, use l in \<open>auto simp: nth_list_update\<close>)
  next
    case False
    have "len - 1 - k = k" if "i \<le> k" "k < len - i" using that False by linarith
    then show ?thesis using False by (auto simp: digit_reverse_loop.simps [of i])
  qed
qed

lemma digit_reverse_loop_rev: "digit_reverse_loop 0 (length xs) (xs @ ys) = rev xs @ ys"
proof (rule nth_equalityI)
  fix k assume "k < length (digit_reverse_loop 0 (length xs) (xs @ ys))"
  then show "digit_reverse_loop 0 (length xs) (xs @ ys) ! k = (rev xs @ ys) ! k"
    by (cases "k < length xs") (auto simp: digit_reverse_loop_nth nth_append rev_nth)
qed simp

lemma digit_string_byte:
  "digit_string d = (if unat d mod 256 = 0 then [0] else number_text 10 (unat d mod 256) @ [0])"
proof -
  let ?ds = "digits 10 (unat d mod 256)"
  have u: "unat (ucast d :: u8) = unat d mod 256"
    by (simp add: unsigned_ucast_eq take_bit_eq_mod)
  have "drop n (replicate (n + 1) 0) = [0 :: u8]" for n by (simp del: replicate_Suc) simp
  then have "digit_string d = rev (map digit_char ?ds) @ [0]"
    using digit_reverse_loop_rev [of "map digit_char ?ds" "[0]"]
    by (simp add: digit_string_def Let_def digit_len_loop_eq u digit_fill_loop_eq list_update_append del: replicate_Suc)
  then show ?thesis by (simp add: number_text_def)
qed

subsection \<open>Properties\<close>

text \<open>
  On a serial line whose transmitter always becomes empty again, \<open>log_to_serial\<close> returns
  after having sent exactly the characters of the string and a newline, and every byte goes out
  right after the transmitter was read as empty.
\<close>

theorem log_to_serial_sends:
  assumes "uart_drains dev" and "0 \<notin> set cs"
  shows "\<exists>t. log_to_serial dev (cs @ 0 # rest) tr = Inr t \<and> sent t = sent tr @ cs @ [0x0A] \<and> (paced tr \<longrightarrow> paced t)"
  by (rule log_to_serial_sends_aux [OF assms])

theorem log_to_serial_sends_witness:
  "\<exists>t. log_to_serial (\<lambda>tr p. 0x20) ([0x6f, 0x6b] @ 0 # []) [] = Inr t \<and> sent t = [0x6f, 0x6b, 0x0A] \<and> paced t"
proof -
  have "uart_drains (\<lambda>tr p. 0x20)" by (simp add: uart_drains_def)
  from log_to_serial_sends [OF this, of "[0x6f, 0x6b]" "[]" "[]"] show ?thesis by simp
qed

text \<open>
  \<open>log_to_serial_digit\<close> sends the decimal digits of the number modulo 256, and for the
  multiples of 256 (0 included) an empty line.
\<close>

theorem log_to_serial_digit_sends:
  assumes "uart_drains dev"
  shows "\<exists>t. log_to_serial_digit dev digit tr = Inr t \<and>
    sent t = sent tr @ (if unat digit mod 256 = 0 then [] else number_text 10 (unat digit mod 256)) @ [0x0A]"
proof -
  let ?cs = "if unat digit mod 256 = 0 then [] else number_text 10 (unat digit mod 256)"
  have "0 \<notin> set ?cs" using number_text_nonzero [of 10] by auto
  moreover have "digit_string digit = ?cs @ 0 # []" by (simp add: digit_string_byte)
  ultimately show ?thesis
    unfolding log_to_serial_digit_def using log_to_serial_sends_aux [OF assms, of ?cs "[]" tr] by auto
qed

theorem log_to_serial_digit_sends_witness:
  "\<exists>t. log_to_serial_digit (\<lambda>tr p. 0x20) 300 [] = Inr t \<and> sent t = number_text 10 44 @ [0x0A]"
proof -
  have "uart_drains (\<lambda>tr p. 0x20)" by (simp add: uart_drains_def)
  from log_to_serial_digit_sends [OF this, of 300 "[]"] show ?thesis by simp
qed

end
