(* ===== verification/Console.thy ===== *)
theory Console
  imports Formatter Cpu
begin

text \<open>
  Formatted output: \<open>limine_term.c\<close>, \<open>print.c\<close>, \<open>logger.c\<close> and \<open>panic.c\<close>. The terminal is a
  service of the boot loader; the console state records whether it is there and what was
  written to it, in order, next to the trace of the serial line and the logger's prefix. The
  build flag \<open>PROD_MODE\<close> and the serial device are arguments.

  A format string is a character pointer. The formatting loop, which \<open>vkprintf\<close>, \<open>vklog\<close> and
  \<open>panic\<close> share, is a partial function: a format that never reaches a terminator and never
  fills the buffer keeps it running. The reference is \<open>render\<close>, the text that a format and its
  arguments stand for.
\<close>

subsection \<open>Definitions\<close>

record console =
  term_ready :: bool
  term_writes :: "u8 list list"
  serial_line :: io_trace
  log_prefix :: "u8 list"

text \<open>\<open>while (str[len] != 0) len++\<close> on an array; no terminator in the array is a \<open>Fault\<close>.\<close>

fun strlen_loop :: "u8 list \<Rightarrow> nat \<Rightarrow> nat result" where
  "strlen_loop [] len = Inl Fault"
| "strlen_loop (c # str) len = (if c \<noteq> 0 then strlen_loop str (Suc len) else Inr len)"

definition limine_write :: "u8 list \<Rightarrow> console \<Rightarrow> console result" where
  "limine_write str con =
     (if \<not> term_ready con then hcf
      else bindE (strlen_loop str 0) (\<lambda>len.
        Inr (con\<lparr>term_writes := term_writes con @ [take len str]\<rparr>)))"

definition limine_write_digit :: "u64 \<Rightarrow> console \<Rightarrow> console result" where
  "limine_write_digit digit con = limine_write (digit_string digit) con"

partial_function (option) format_loop ::
  "memory \<Rightarrow> cstring \<Rightarrow> nat \<Rightarrow> buffer \<Rightarrow> u64 list \<Rightarrow> (nat \<times> buffer \<times> u64 list) result option" where
  "format_loop m fmt i buffer args =
     (if fmt 0 \<noteq> 0 \<and> i < MAX_STRING_FORMATTER_BUFFER_SIZE then
        if fmt 0 = of_char CHR ''%'' then
          case format_handler m (fmt 1) buffer i args of
            Inl e \<Rightarrow> Some (Inl e)
          | Inr (i, buffer, args) \<Rightarrow> format_loop m (shift fmt 2) i buffer args
        else format_loop m (shift fmt 1) (Suc i) (buffer[i := fmt 0]) args
      else Some (Inr (i, buffer, args)))"

definition vkprintf :: "memory \<Rightarrow> cstring \<Rightarrow> u64 list \<Rightarrow> console \<Rightarrow> console result" where
  "vkprintf m fmt args con =
     bindE (run_loop (format_loop m fmt 0 (replicate MAX_STRING_FORMATTER_BUFFER_SIZE 0) args))
       (\<lambda>(i, buffer, args). limine_write buffer con)"

definition kprintf :: "memory \<Rightarrow> cstring \<Rightarrow> u64 list \<Rightarrow> console \<Rightarrow> console result" where
  "kprintf m fmt args con = vkprintf m fmt args con"

text \<open>The system call passes no arguments on; a conversion in the string takes one that is not there.\<close>

definition print_syscall :: "memory \<Rightarrow> u64 \<Rightarrow> u64 \<Rightarrow> console \<Rightarrow> console result" where
  "print_syscall m frame str con = kprintf m (mem_cstr m str) [] con"

definition LOGGER_PREFIX_LENGTH :: nat where
  "LOGGER_PREFIX_LENGTH = 32"

function prefix_loop :: "cstring \<Rightarrow> nat \<Rightarrow> u8 list \<Rightarrow> nat \<times> u8 list" where
  "prefix_loop new_prefix i prefix =
     (if new_prefix 0 \<noteq> 0 \<and> i < LOGGER_PREFIX_LENGTH - 2
      then prefix_loop (shift new_prefix 1) (Suc i) (prefix[i := new_prefix 0])
      else (i, prefix))"
  by pat_completeness auto
termination
  by (relation "measure (\<lambda>(p, i, prefix). 30 - i)") (auto simp: LOGGER_PREFIX_LENGTH_def)

declare prefix_loop.simps [simp del]

definition set_prefix :: "cstring option \<Rightarrow> u8 list \<Rightarrow> u8 list" where
  "set_prefix new_prefix prefix =
     (case new_prefix of
        None \<Rightarrow> prefix
      | Some p \<Rightarrow> let (i, prefix) = prefix_loop p 0 prefix;
                      prefix = prefix[i := of_char CHR '' '']
                  in prefix[Suc i := 0])"

definition vklog :: "device \<Rightarrow> memory \<Rightarrow> cstring option \<Rightarrow> cstring \<Rightarrow> u64 list \<Rightarrow> console \<Rightarrow> console result" where
  "vklog dev m new_prefix fmt args con =
     (let con = con\<lparr>log_prefix := set_prefix new_prefix (log_prefix con)\<rparr>;
          (i, buffer) = format_string (list_cstr (log_prefix con)) (replicate MAX_STRING_FORMATTER_BUFFER_SIZE 0) 0
      in bindE (run_loop (format_loop m fmt i buffer args)) (\<lambda>(i, buffer, args).
         bindE (log_to_serial dev buffer (serial_line con)) (\<lambda>tr.
         Inr (con\<lparr>serial_line := tr\<rparr>))))"

definition klog ::
  "bool \<Rightarrow> device \<Rightarrow> memory \<Rightarrow> cstring option \<Rightarrow> cstring \<Rightarrow> u64 list \<Rightarrow> console \<Rightarrow> console result" where
  "klog PROD_MODE dev m new_prefix fmt args con =
     (if PROD_MODE then Inr con else vklog dev m new_prefix fmt args con)"

text \<open>
  \<open>panic\<close> ends in \<open>hcf\<close> and does not return; the value of the model is the console at that
  point. The message is formatted once and the result used as a format again. (A buffer with
  no terminator is a \<open>Fault\<close> when it is read as a string.)
\<close>

definition buffer_cstr :: "buffer \<Rightarrow> cstring result" where
  "buffer_cstr buffer = (if 0 \<in> set buffer then Inr (list_cstr buffer) else Inl Fault)"

definition panic :: "bool \<Rightarrow> device \<Rightarrow> memory \<Rightarrow> cstring \<Rightarrow> u64 list \<Rightarrow> console \<Rightarrow> console result" where
  "panic PROD_MODE dev m fmt args con =
     bindE (run_loop (format_loop m fmt 0 (replicate MAX_STRING_FORMATTER_BUFFER_SIZE 0) args))
       (\<lambda>(i, buffer, args).
     bindE (buffer_cstr buffer) (\<lambda>text.
     bindE (kprintf m text [] con) (\<lambda>con.
     klog PROD_MODE dev m None text [] con)))"

subsection \<open>The text of a format\<close>

fun render :: "memory \<Rightarrow> u8 list \<Rightarrow> u64 list \<Rightarrow> u8 list" where
  "render m [] args = []"
| "render m (c # fmt) args =
     (if c \<noteq> of_char CHR ''%'' then c # render m fmt args
      else case fmt of
        [] \<Rightarrow> []
      | f # fmt' \<Rightarrow>
          if takes_arg f then (case args of [] \<Rightarrow> [] | a # rest \<Rightarrow> conv_text m f a @ render m fmt' rest)
          else render m fmt' args)"

text \<open>Every conversion has its specifier and its argument, and string arguments are terminated.\<close>

fun fmt_ok :: "memory \<Rightarrow> u8 list \<Rightarrow> u64 list \<Rightarrow> bool" where
  "fmt_ok m [] args \<longleftrightarrow> True"
| "fmt_ok m (c # fmt) args \<longleftrightarrow>
     (if c \<noteq> of_char CHR ''%'' then fmt_ok m fmt args
      else case fmt of
        [] \<Rightarrow> False
      | f # fmt' \<Rightarrow>
          if takes_arg f then (case args of [] \<Rightarrow> False | a # rest \<Rightarrow> conv_ok m f a \<and> fmt_ok m fmt' rest)
          else fmt_ok m fmt' args)"

lemma emit_fits:
  assumes "off + length bs \<le> 1024"
  shows "fst (emit bs off buffer) = off + length bs"
  using assms by (induction bs arbitrary: off buffer) auto

lemma shift_shift [simp]: "shift (shift s a) b = shift s (a + b)"
  by (simp add: fun_eq_iff shift_def add.assoc)

lemma conv_text_hex_length: "takes_arg f \<Longrightarrow> hex_spec f \<Longrightarrow> 2 < length (conv_text m f a)"
proof -
  assume "hex_spec f"
  then have "conv_text m f a = [0x30, 0x78] @ number_text 16 (unat a)"
    by (auto simp: conv_text_def hex_spec_def signed_spec_def)
  moreover have "number_text 16 (unat a) \<noteq> []" by (simp add: number_text_def)
  ultimately show ?thesis by (cases "number_text 16 (unat a)") simp_all
qed

lemma format_loop_full: "1024 \<le> i \<Longrightarrow> format_loop m s i buffer args = Some (Inr (i, buffer, args))"
  by (simp add: format_loop.simps [of m s] MAX_STRING_FORMATTER_BUFFER_SIZE_def)

lemma format_loop_plain:
  "s 0 \<noteq> 0 \<Longrightarrow> s 0 \<noteq> of_char CHR ''%'' \<Longrightarrow> i < 1024 \<Longrightarrow>
   format_loop m s i buffer args = format_loop m (shift s 1) (Suc i) (buffer[i := s 0]) args"
  by (subst format_loop.simps) (simp add: MAX_STRING_FORMATTER_BUFFER_SIZE_def)

lemma format_loop_conv:
  "s 0 = of_char CHR ''%'' \<Longrightarrow> i < 1024 \<Longrightarrow> format_handler m (s 1) buffer i args = Inr (j, buffer', args') \<Longrightarrow>
   format_loop m s i buffer args = format_loop m (shift s 2) j buffer' args'"
  by (subst format_loop.simps) (simp add: MAX_STRING_FORMATTER_BUFFER_SIZE_def)

lemma format_loop_conv_arg:
  assumes "s 0 = of_char CHR ''%''" and "i < 1024" and "takes_arg (s 1)" and "conv_ok m (s 1) a"
    and "i + length (conv_text m (s 1) a) \<le> 1024"
  shows "format_loop m s i buffer (a # args) =
    format_loop m (shift s 2) (fst (emit (conv_text m (s 1) a) i buffer)) (snd (emit (conv_text m (s 1) a) i buffer)) args"
proof -
  have "hex_spec (s 1) \<longrightarrow> i + 2 < 1024" using conv_text_hex_length [OF assms(3), of m a] assms(5) by linarith
  from format_handler_emit [OF assms(3,4) this, of buffer args] show ?thesis
    by (intro format_loop_conv [of s, OF assms(1,2)]) (simp add: case_prod_beta)
qed

text \<open>The loop appends the reference text whenever that fits.\<close>

lemma format_loop_render:
  assumes "is_cstr s fmt" and "fmt_ok m fmt args" and "i + length (render m fmt args) \<le> 1024"
  shows "\<exists>rest. format_loop m s i buffer args =
    Some (Inr (fst (emit (render m fmt args) i buffer), snd (emit (render m fmt args) i buffer), rest))"
  using assms
proof (induction m fmt args arbitrary: s i buffer rule: render.induct)
  case (1 m args)
  then show ?case by (simp add: format_loop.simps [of m s])
next
  case (2 m c fmt args)
  have s: "s 0 = c" "c \<noteq> 0" "is_cstr (shift s 1) fmt" using "2.prems"(1) by (simp_all add: is_cstr_Cons)
  consider "1024 \<le> i" | "i < 1024" "c \<noteq> of_char CHR ''%''" | "i < 1024" "c = of_char CHR ''%''" by linarith
  then show ?case
  proof cases
    case 1
    then show ?thesis by (simp add: format_loop_full)
  next
    case 2
    have "\<exists>rest. format_loop m (shift s 1) (Suc i) (buffer[i := c]) args =
        Some (Inr (fst (emit (render m fmt args) (Suc i) (buffer[i := c])), snd (emit (render m fmt args) (Suc i) (buffer[i := c])), rest))"
      using "2.prems" 2 by (intro "2.IH"(1) s(3)) simp_all
    then show ?thesis using 2 s(1,2) format_loop_plain [of s i m buffer args] by simp
  next
    case 3
    then obtain f fmt' where f: "fmt = f # fmt'" using "2.prems"(2) by (cases fmt) auto
    then have s': "s 1 = f" "is_cstr (shift s 2) fmt'" using s(3) by (simp_all add: is_cstr_Cons numeral_2_eq_2)
    have c: "\<not> c \<noteq> of_char CHR ''%''" using 3 by simp
    show ?thesis
    proof (cases "takes_arg f")
      case True
      then obtain a rest where a: "args = a # rest" "conv_ok m f a" "fmt_ok m fmt' rest"
        using "2.prems"(2) f 3 by (cases args) auto
      then have r: "render m (c # fmt) args = conv_text m f a @ render m fmt' rest" using True f 3 by simp
      let ?e = "emit (conv_text m f a) i buffer"
      have l: "i + length (conv_text m f a) + length (render m fmt' rest) \<le> 1024"
        using "2.prems"(3) unfolding r by simp
      then have "format_loop m s i buffer args = format_loop m (shift s 2) (fst ?e) (snd ?e) rest"
        using format_loop_conv_arg [of s i m a buffer rest] s s' a True 3 by simp
      moreover have "fst ?e + length (render m fmt' rest) \<le> 1024" using l by (simp add: emit_fits)
      from "2.IH"(2) [OF c f True a(1) s'(2) a(3) this]
      have "\<exists>r. format_loop m (shift s 2) (fst ?e) (snd ?e) rest =
        Some (Inr (fst (emit (render m fmt' rest) (fst ?e) (snd ?e)), snd (emit (render m fmt' rest) (fst ?e) (snd ?e)), r))" .
      ultimately show ?thesis unfolding r emit_append by (simp add: case_prod_beta)
    next
      case False
      then have r: "render m (c # fmt) args = render m fmt' args" "fmt_ok m fmt' args" using f 3 "2.prems"(2) by simp_all
      have "format_loop m s i buffer args = format_loop m (shift s 2) i buffer args"
        using False 3 s s' by (intro format_loop_conv) (simp_all add: format_handler_no_arg)
      then show ?thesis
        using "2.IH"(3) [OF c f False s'(2) r(2), of i buffer] "2.prems"(3) unfolding r(1)
        by (simp del: shift_apply)
    qed
  qed
qed

subsection \<open>Writing a formatted buffer\<close>

lemma strlen_loop_eq: "0 \<notin> set cs \<Longrightarrow> strlen_loop (cs @ 0 # rest) n = Inr (n + length cs)"
  by (induction cs arbitrary: n) auto

lemma strlen_loop_fault: "0 \<notin> set cs \<Longrightarrow> strlen_loop cs n = Inl Fault"
  by (induction cs arbitrary: n) auto

lemma limine_write_eq:
  "term_ready con \<Longrightarrow> 0 \<notin> set cs \<Longrightarrow>
   limine_write (cs @ 0 # rest) con = Inr (con\<lparr>term_writes := term_writes con @ [cs]\<rparr>)"
  by (simp add: limine_write_def strlen_loop_eq)

text \<open>A zeroed buffer that a short text was appended to is that text and zeros.\<close>

lemma emit_zeroed:
  assumes "length bs < 1024"
  shows "snd (emit bs 0 (replicate 1024 0)) = bs @ 0 # replicate (1023 - length bs) 0"
proof -
  have "1024 - length bs = Suc (1023 - length bs)" using assms by simp
  then show ?thesis using assms by (simp add: emit_eq Let_def)
qed

lemma vkprintf_eq:
  assumes "is_cstr s fmt" and "fmt_ok m fmt args" and "length (render m fmt args) < 1024"
    and "0 \<notin> set (render m fmt args)" and "term_ready con"
  shows "vkprintf m s args con = Inr (con\<lparr>term_writes := term_writes con @ [render m fmt args]\<rparr>)"
proof -
  have "0 + length (render m fmt args) \<le> 1024" using assms(3) by simp
  from format_loop_render [OF assms(1,2) this, of "replicate 1024 0"] obtain rest where
    "format_loop m s 0 (replicate 1024 0) args = Some (Inr (fst (emit (render m fmt args) 0 (replicate 1024 0)),
       render m fmt args @ 0 # replicate (1023 - length (render m fmt args)) 0, rest))"
    unfolding emit_zeroed [OF assms(3)] by blast
  then show ?thesis
    using assms by (simp add: vkprintf_def MAX_STRING_FORMATTER_BUFFER_SIZE_def limine_write_eq)
qed

lemma render_plain: "of_char CHR ''%'' \<notin> set fmt \<Longrightarrow> render m fmt args = fmt"
  by (induction fmt) auto

lemma fmt_ok_plain: "of_char CHR ''%'' \<notin> set fmt \<Longrightarrow> fmt_ok m fmt args"
  by (induction fmt) auto

text \<open>A plain text longer than the buffer fills it and leaves no terminator.\<close>

lemma format_loop_overflow:
  assumes "0 \<notin> set cs" and "of_char CHR ''%'' \<notin> set cs" and "\<forall>k<length cs. s k = cs ! k"
    and "i + length cs = 1024"
  shows "format_loop m s i buffer args = Some (Inr (1024, snd (emit cs i buffer), args))"
  using assms
proof (induction cs arbitrary: s i buffer)
  case Nil
  then show ?case by (simp add: format_loop_full)
next
  case (Cons c cs)
  then have s: "s 0 = c" "c \<noteq> 0" "c \<noteq> of_char CHR ''%''" "i < 1024" by auto
  have "format_loop m (shift s 1) (Suc i) (buffer[i := c]) args =
      Some (Inr (1024, snd (emit cs (Suc i) (buffer[i := c])), args))"
    using Cons.prems by (intro Cons.IH) auto
  then show ?case using format_loop_plain [of s i m buffer args] s by simp
qed

lemma vkprintf_overflow_aux:
  assumes "0 \<notin> set cs" and "of_char CHR ''%'' \<notin> set cs" and "1024 \<le> length cs"
    and "\<forall>k<length cs. s k = cs ! k" and "term_ready con"
  shows "vkprintf m s args con = Inl Fault"
proof -
  have "0 \<notin> set (take 1024 cs)" "of_char CHR ''%'' \<notin> set (take 1024 cs)"
    using assms(1,2) by (auto dest: in_set_takeD)
  moreover have "snd (emit (take 1024 cs) 0 (replicate 1024 0)) = take 1024 cs"
    using assms(3) by (simp add: emit_eq Let_def min_def)
  ultimately show ?thesis
    using format_loop_overflow [of "take 1024 cs" s 0 m "replicate 1024 0" args] assms(3-5)
    by (simp add: vkprintf_def MAX_STRING_FORMATTER_BUFFER_SIZE_def limine_write_def strlen_loop_fault)
qed

subsection \<open>Logging\<close>

lemma prefix_loop_eq:
  assumes "is_cstr s cs" and "length prefix = 32" and "i \<le> 30"
  shows "prefix_loop s i prefix =
    (let k = min (length cs) (30 - i) in (i + k, take i prefix @ take k cs @ drop (i + k) prefix))"
  using assms
proof (induction cs arbitrary: s i prefix)
  case Nil
  then show ?case by (simp add: prefix_loop.simps [of s])
next
  case (Cons c cs)
  have s: "s 0 = c" "c \<noteq> 0" "is_cstr (shift s 1) cs" using Cons.prems(1) by (simp_all add: is_cstr_Cons)
  show ?case
  proof (cases "i < 30")
    case True
    then have "take (Suc i) (prefix[i := c]) = take i prefix @ [c]"
      using Cons.prems by (simp add: take_Suc_conv_app_nth)
    moreover have "min (length (c # cs)) (30 - i) = Suc (min (length cs) (30 - Suc i))" using True by simp
    moreover have "prefix_loop s i prefix = prefix_loop (shift s 1) (Suc i) (prefix[i := c])"
      using True s by (simp add: prefix_loop.simps [of s] LOGGER_PREFIX_LENGTH_def)
    ultimately show ?thesis
      using Cons.IH [OF s(3), of "prefix[i := c]" "Suc i"] Cons.prems True
      by (simp add: Let_def del: shift_apply)
  next
    case False
    then show ?thesis using Cons.prems s by (simp add: prefix_loop.simps [of s] LOGGER_PREFIX_LENGTH_def)
  qed
qed

lemma set_prefix_eq:
  assumes "is_cstr s cs" and "length prefix = 32"
  shows "\<exists>rest. set_prefix (Some s) prefix = (take 30 cs @ [of_char CHR '' '']) @ 0 # rest"
proof -
  define k where "k = min (length cs) 30"
  obtain a b rest where "drop k prefix = a # b # rest"
  proof -
    have "2 \<le> length (drop k prefix)" using assms(2) by (simp add: k_def)
    then show ?thesis using that by (cases "drop k prefix"; cases "tl (drop k prefix)") auto
  qed
  moreover have "prefix_loop s 0 prefix = (k, take k cs @ drop k prefix)"
    using prefix_loop_eq [OF assms, of 0] by (simp add: Let_def k_def)
  moreover have "take k cs = take 30 cs" "length (take 30 cs) = k" by (simp_all add: k_def min_def)
  ultimately show ?thesis by (auto simp: set_prefix_def list_update_append)
qed

lemma vklog_sends:
  assumes "is_cstr (list_cstr (set_prefix np (log_prefix con))) p" and "is_cstr s fmt" and "fmt_ok m fmt args"
    and "length p + length (render m fmt args) < 1024" and "0 \<notin> set (render m fmt args)" and "uart_drains dev"
  shows "\<exists>tr. vklog dev m np s args con = Inr (con\<lparr>log_prefix := set_prefix np (log_prefix con), serial_line := tr\<rparr>) \<and>
    sent tr = sent (serial_line con) @ p @ render m fmt args @ [0x0A]"
proof -
  let ?r = "render m fmt args" and ?z = "replicate 1024 0 :: u8 list"
  have e: "emit ?r (fst (emit p 0 ?z)) (snd (emit p 0 ?z)) = emit (p @ ?r) 0 ?z"
    by (simp add: emit_append case_prod_beta)
  have "fst (emit p 0 ?z) + length ?r \<le> 1024" using assms(4) by (simp add: emit_fits)
  from format_loop_render [OF assms(2,3) this, of "snd (emit p 0 ?z)"] obtain rest where
    f: "format_loop m s (fst (emit p 0 ?z)) (snd (emit p 0 ?z)) args =
      Some (Inr (fst (emit (p @ ?r) 0 ?z), snd (emit (p @ ?r) 0 ?z), rest))"
    unfolding e by blast
  have "0 \<notin> set (p @ ?r)" using assms(1,5) by (simp add: is_cstr_def)
  from log_to_serial_sends_aux [OF assms(6) this, of "replicate (1023 - length (p @ ?r)) 0" "serial_line con"]
  obtain tr where "log_to_serial dev (snd (emit (p @ ?r) 0 ?z)) (serial_line con) = Inr tr"
    "sent tr = sent (serial_line con) @ (p @ ?r) @ [0x0A]"
    using emit_zeroed [of "p @ ?r"] assms(4) by auto
  then show ?thesis
    using f by (intro exI [of _ tr]) (simp add: vklog_def Let_def MAX_STRING_FORMATTER_BUFFER_SIZE_def format_string_emit [OF assms(1)] case_prod_beta)
qed

subsection \<open>Properties\<close>


definition console_demo :: console where
  "console_demo = \<lparr>term_ready = True, term_writes = [], serial_line = [], log_prefix = replicate 32 0\<rparr>"

definition memory_demo :: memory where
  "memory_demo a = (if a = 0x1000 then 0x68 else if a = 0x1001 then 0x69 else 0)"


text \<open>
  A text without conversions of 1024 bytes or more fills the whole buffer of \<open>vkprintf\<close>,
  which is then read as a string with no terminator: the access runs past the array.
\<close>

theorem vkprintf_overflow:
  assumes "0 \<notin> set cs" and "of_char CHR ''%'' \<notin> set cs" and "1024 \<le> length cs"
    and "\<forall>k<length cs. s k = cs ! k" and "term_ready con"
  shows "vkprintf m s args con = Inl Fault"
  by (rule vkprintf_overflow_aux [OF assms])

theorem vkprintf_overflow_witness: "vkprintf memory_demo (\<lambda>k. 0x61) [] console_demo = Inl Fault"
  using vkprintf_overflow [of "replicate 1024 0x61" "\<lambda>k. 0x61" console_demo memory_demo "[]"]
  by (simp add: console_demo_def)

text \<open>
  A panic message with no conversion in its rendered text reaches the terminal as it is, and
  in a development build the serial line too, after the logger's current prefix. A \<open>%\<close> in the
  rendered text is read as a conversion by the second formatting; this theorem excludes it.
\<close>

theorem panic_prints:
  assumes "is_cstr s fmt" and "fmt_ok m fmt args" and "length (render m fmt args) < 900"
    and "0 \<notin> set (render m fmt args)" and "of_char CHR ''%'' \<notin> set (render m fmt args)"
    and "term_ready con" and "uart_drains dev" and "is_cstr (list_cstr (log_prefix con)) p" and "length p \<le> 32"
  shows "\<exists>tr. panic PROD_MODE dev m s args con =
      Inr (con\<lparr>term_writes := term_writes con @ [render m fmt args], serial_line := tr\<rparr>) \<and>
    sent tr = sent (serial_line con) @ (if PROD_MODE then [] else p @ render m fmt args @ [0x0A])"
proof -
  let ?t = "render m fmt args" and ?z = "replicate 1024 0 :: u8 list"
  let ?b = "?t @ 0 # replicate (1023 - length ?t) 0"
  have l: "length ?t < 1024" "length p + length ?t < 1024" using assms(3,9) by simp_all
  have "0 + length ?t \<le> 1024" using l by simp
  from format_loop_render [OF assms(1,2) this, of ?z] obtain i rest where
    f: "format_loop m s 0 ?z args = Some (Inr (i, ?b, rest))"
    unfolding emit_zeroed [OF l(1)] by blast
  have b: "is_cstr (list_cstr ?b) ?t" using assms(4) by (intro is_cstr_list) simp_all
  let ?con = "con\<lparr>term_writes := term_writes con @ [?t]\<rparr>"
  have k: "kprintf m (list_cstr ?b) [] con = Inr ?con"
    using vkprintf_eq [OF b fmt_ok_plain, of m "[]" con] assms(4-6) l by (simp add: kprintf_def render_plain)
  obtain tr where "vklog dev m None (list_cstr ?b) [] ?con = Inr (?con\<lparr>serial_line := tr\<rparr>)"
    "sent tr = sent (serial_line con) @ p @ ?t @ [0x0A]"
    using vklog_sends [of None ?con p "list_cstr ?b" ?t m "[]" dev, OF _ b fmt_ok_plain] assms(4,5,7,8) l
    by (auto simp: set_prefix_def render_plain)
  then show ?thesis
    using f k
    by (intro exI [of _ "if PROD_MODE then serial_line con else tr"])
      (simp add: panic_def MAX_STRING_FORMATTER_BUFFER_SIZE_def buffer_cstr_def klog_def)
qed

theorem panic_prints_witness:
  "\<exists>tr. panic False (\<lambda>tr p. 0x20) memory_demo (cstr ''bad %u'') [7] console_demo =
      Inr (console_demo\<lparr>term_writes := [map of_char ''bad 7''], serial_line := tr\<rparr>) \<and>
    sent tr = map of_char ''bad 7'' @ [0x0A]"
proof -
  let ?fmt = "map of_char ''bad %u'' :: u8 list"
  have "number_text 10 7 = [0x37]" by (simp add: number_text_def digits_pos digit_char_def)
  then have "render memory_demo ?fmt [7] = map of_char ''bad 7''" "fmt_ok memory_demo ?fmt [7]"
    by (simp_all add: takes_arg_def signed_spec_def hex_spec_def conv_text_def conv_ok_def)
  moreover have "is_cstr (cstr ''bad %u'') ?fmt" by (simp add: is_cstr_Cons) (simp add: cstr_def shift_def)
  moreover have "uart_drains (\<lambda>tr p. 0x20)" by (simp add: uart_drains_def)
  moreover have "is_cstr (list_cstr (log_prefix console_demo)) []" by (simp add: console_demo_def list_cstr_def)
  moreover have "term_ready console_demo" "term_writes console_demo = []" "serial_line console_demo = []"
    by (simp_all add: console_demo_def)
  ultimately show ?thesis
    using panic_prints [of "cstr ''bad %u''" ?fmt memory_demo "[7]" console_demo "\<lambda>tr p. 0x20" "[]" False] by simp
qed

end
