(* ===== verification/Gdt.thy ===== *)
theory Gdt
  imports Prelude
begin

text \<open>
  The segment table and the task state segment of \<open>gdt.c\<close> and \<open>gdt.h\<close>. The state is the table,
  the table register, the task state segment and the registers that loading them sets. The
  addresses of the two static objects are arguments.

  The decoders say what the processor reads from a descriptor: the base address, the privilege
  level and the kind of the segment. The byte image of the task state segment is that of the
  packed C structure.
\<close>

subsection \<open>Descriptors\<close>

record gdt_descriptor =
  gd_limit :: u16
  gd_base_low16 :: u16
  gd_base_mid8 :: u8
  gd_access :: u8
  gd_granularity :: u8
  gd_base_high8 :: u8

record tss_descriptor =
  td_length :: u16
  td_base_low16 :: u16
  td_base_mid8 :: u8
  td_flags1 :: u8
  td_flags2 :: u8
  td_base_high8 :: u8
  td_base_upper32 :: u32
  td_reserved :: u32

record tss_t =
  reserved0 :: u32
  rsp0 :: u64
  rsp1 :: u64
  rsp2 :: u64
  reserved1 :: u64
  reserved2 :: u64
  ist1 :: u64
  ist2 :: u64
  ist3 :: u64
  ist4 :: u64
  ist5 :: u64
  ist6 :: u64
  ist7 :: u64
  reserved3 :: u64
  reserved4 :: u16
  iomap_offset :: u16

record gdt_state =
  descriptors :: "gdt_descriptor list"
  tss_desc :: tss_descriptor
  gdtr_limit :: u16
  gdtr_address :: u64
  tss_instance :: tss_t
  code_segment :: u16
  data_segments :: u16
  task_register :: u16

definition gdt_load :: "gdt_state \<Rightarrow> gdt_state" where
  "gdt_load s = s\<lparr>code_segment := 0x28, data_segments := 0x30\<rparr>"

definition tss_load :: "gdt_state \<Rightarrow> gdt_state" where
  "tss_load s = s\<lparr>task_register := 0x48\<rparr>"

definition tss_set_rsp0 :: "u64 \<Rightarrow> gdt_state \<Rightarrow> gdt_state" where
  "tss_set_rsp0 v s = s\<lparr>tss_instance := (tss_instance s)\<lparr>rsp0 := v\<rparr>\<rparr>"

definition tss_init :: "gdt_state \<Rightarrow> gdt_state" where
  "tss_init s = tss_load (s\<lparr>tss_instance :=
     \<lparr>reserved0 = 0, rsp0 = 0, rsp1 = 0, rsp2 = 0, reserved1 = 0, reserved2 = 0, ist1 = 0, ist2 = 0, ist3 = 0,
      ist4 = 0, ist5 = 0, ist6 = 0, ist7 = 0, reserved3 = 0, reserved4 = 0, iomap_offset = 0\<rparr>\<rparr>)"

text \<open>The nine descriptors that \<open>gdt_init\<close> fills in, all with base address 0.\<close>

definition segment :: "u16 \<Rightarrow> u8 \<Rightarrow> u8 \<Rightarrow> gdt_descriptor" where
  "segment limit access granularity =
     \<lparr>gd_limit = limit, gd_base_low16 = 0, gd_base_mid8 = 0, gd_access = access, gd_granularity = granularity,
      gd_base_high8 = 0\<rparr>"

definition gdt_segments :: "gdt_descriptor list" where
  "gdt_segments =
     [segment 0 0 0,
      segment 0xffff 0x9A 0x00,
      segment 0xffff 0x92 0x00,
      segment 0xffff 0x9A 0xCF,
      segment 0xffff 0x92 0xCF,
      segment 0 0x9A 0x20,
      segment 0 0x92 0,
      segment 0 0xFA 0x20,
      segment 0 0xF2 0]"

definition tss_segment :: "u64 \<Rightarrow> tss_descriptor" where
  "tss_segment addr =
     \<lparr>td_length = 104,
      td_base_low16 = ucast (addr AND 0xffff),
      td_base_mid8 = ucast (drop_bit 16 addr AND 0xff),
      td_flags1 = 0x89,
      td_flags2 = 0,
      td_base_high8 = ucast (drop_bit 24 addr AND 0xff),
      td_base_upper32 = ucast (drop_bit 32 addr AND 0xffffffff),
      td_reserved = 0\<rparr>"

text \<open>\<open>sizeof(struct gdt)\<close> is nine descriptors of eight bytes and one of sixteen.\<close>

definition gdt_init :: "u64 \<Rightarrow> u64 \<Rightarrow> gdt_state \<Rightarrow> gdt_state" where
  "gdt_init gdt_addr tss_addr s =
     (let s = s\<lparr>descriptors := gdt_segments, tss_desc := tss_segment tss_addr,
                gdtr_limit := 9 * 8 + 16 - 1, gdtr_address := gdt_addr\<rparr>;
          s = gdt_load s
      in tss_init s)"

subsection \<open>What the processor reads\<close>

definition tss_base :: "tss_descriptor \<Rightarrow> u64" where
  "tss_base d =
     ucast (td_base_low16 d) OR push_bit 16 (ucast (td_base_mid8 d)) OR push_bit 24 (ucast (td_base_high8 d)) OR
     push_bit 32 (ucast (td_base_upper32 d))"

definition seg_present :: "gdt_descriptor \<Rightarrow> bool" where
  "seg_present d \<longleftrightarrow> bit (gd_access d) 7"

definition seg_dpl :: "gdt_descriptor \<Rightarrow> nat" where
  "seg_dpl d = unat (drop_bit 5 (gd_access d) AND 3)"

definition seg_code :: "gdt_descriptor \<Rightarrow> bool" where
  "seg_code d \<longleftrightarrow> bit (gd_access d) 4 \<and> bit (gd_access d) 3"

definition seg_long :: "gdt_descriptor \<Rightarrow> bool" where
  "seg_long d \<longleftrightarrow> bit (gd_granularity d) 5"

text \<open>The descriptor a selector names: its upper thirteen bits are the index.\<close>

definition selected :: "u16 \<Rightarrow> gdt_state \<Rightarrow> gdt_descriptor" where
  "selected sel s = descriptors s ! unat (drop_bit 3 sel)"

lemma tss_base_segment: "tss_base (tss_segment addr) = addr"
proof (rule bit_word_eqI)
  fix n assume "n < LENGTH(64)"
  then have n: "n < 64" by simp
  have m: "(0xffff :: u64) = mask 16" "(0xff :: u64) = mask 8" "(0xffffffff :: u64) = mask 32"
    by (simp_all add: mask_eq_exp_minus_1)
  from n consider "n < 16" | "16 \<le> n \<and> n < 24" | "24 \<le> n \<and> n < 32" | "32 \<le> n" by linarith
  then show "bit (tss_base (tss_segment addr)) n = bit addr n"
    by cases (use n in \<open>auto simp: tss_base_def tss_segment_def m bit_simps\<close>)
qed

text \<open>Little-endian bytes of the packed structure.\<close>

definition le_bytes :: "nat \<Rightarrow> u64 \<Rightarrow> u8 list" where
  "le_bytes n v = map (\<lambda>i. ucast (drop_bit (8 * i) v)) [0..<n]"

lemma le_bytes_length [simp]: "length (le_bytes n v) = n"
  by (simp add: le_bytes_def)

definition tss_image :: "tss_t \<Rightarrow> u8 list" where
  "tss_image t = le_bytes 4 (ucast (reserved0 t)) @ le_bytes 8 (rsp0 t) @ le_bytes 8 (rsp1 t) @ le_bytes 8 (rsp2 t) @
     le_bytes 8 (reserved1 t) @ le_bytes 8 (reserved2 t) @
     le_bytes 8 (ist1 t) @ le_bytes 8 (ist2 t) @ le_bytes 8 (ist3 t) @ le_bytes 8 (ist4 t) @ le_bytes 8 (ist5 t) @
     le_bytes 8 (ist6 t) @ le_bytes 8 (ist7 t) @ le_bytes 8 (reserved3 t) @
     le_bytes 2 (ucast (reserved4 t)) @ le_bytes 2 (ucast (iomap_offset t))"

subsection \<open>Properties\<close>


text \<open>
  The stack pointer that \<open>tss_set_rsp0\<close> stores is at byte 4 of the segment's image, where the
  processor looks for it. The image is 112 bytes although the descriptor's length is 104, and
  the first interrupt stack is at byte 44, eight bytes after the processor's byte 36.
\<close>

theorem tss_set_rsp0_image:
  "take 8 (drop 4 (tss_image (tss_instance (tss_set_rsp0 v s)))) = le_bytes 8 v \<and>
   length (tss_image (tss_instance s)) = 112 \<and> td_length (tss_segment a) = 104 \<and>
   take 8 (drop 44 (tss_image (tss_instance s))) = le_bytes 8 (ist1 (tss_instance s))"
  by (simp add: tss_image_def tss_set_rsp0_def tss_segment_def)

end
