(* ===== verification/Process.thy ===== *)
theory Process
  imports Kheap_Blocks Console Gdt
begin

text \<open>
  Processes, \<open>process.c\<close>. The state extends the memory manager's with the kernel's globals and
  with two typed stores: the process structures and the saved register frames, by address. The
  addresses are those that the heap model returns; fresh heap memory is zero, so a new
  structure starts with all its fields zero. Dereferencing the null pointer is a \<open>Fault\<close>.
  Following the \<open>next\<close> pointers may not end, so those loops are partial functions.

  The reference for the linked list is \<open>chain\<close>, the list of addresses from a head pointer.
\<close>

subsection \<open>State\<close>

datatype status_t = SPAWNED | READY | RUNNING | SLEEPING | DEAD

record process =
  pid :: u64
  status :: status_t
  proc_vmm :: u64
  resources :: "u64 list"
  proc_name :: cstring
  remaining_quantum :: u16
  wake_time :: u64
  next_process :: u64
  proc_context :: u64
  ustack :: u64
  kstack :: u64

record proc_state = vmm_state +
  procs :: "u64 \<Rightarrow> process"
  frames :: "u64 \<Rightarrow> execution_context"
  processes_list :: u64
  current_process :: u64
  next_pid :: u64
  uptime :: u64
  segments :: gdt_state
  interrupts_enabled :: bool
  screen :: console

definition zero_process :: process where
  "zero_process = \<lparr>pid = 0, status = SPAWNED, proc_vmm = 0, resources = replicate 255 0, proc_name = (\<lambda>_. 0),
     remaining_quantum = 0, wake_time = 0, next_process = 0, proc_context = 0, ustack = 0, kstack = 0\<rparr>"

definition zero_context :: execution_context where
  "zero_context = \<lparr>rbp = 0, r15 = 0, r14 = 0, r13 = 0, r12 = 0, r11 = 0, r10 = 0, r9 = 0, r8 = 0, rsi = 0, rdi = 0,
     rdx = 0, rcx = 0, rbx = 0, rax = 0, int_number = 0, error_code = 0, iret_rip = 0, iret_cs = 0, iret_flags = 0,
     iret_rsp = 0, iret_ss = 0\<rparr>"

definition update_process :: "u64 \<Rightarrow> (process \<Rightarrow> process) \<Rightarrow> 'a proc_state_scheme \<Rightarrow> 'a proc_state_scheme" where
  "update_process p f s = s\<lparr>procs := (procs s)(p := f (procs s p))\<rparr>"

subsection \<open>Operations\<close>

definition STACK_SIZE :: u64 where
  "STACK_SIZE = 64 * 1024"

definition PROCESS_NAME_MAX_LEN :: u32 where
  "PROCESS_NAME_MAX_LEN = 64"

definition KERNEL_MODE :: u8 where "KERNEL_MODE = 0"
definition USER_MODE :: u8 where "USER_MODE = 3"

definition alloc_stack :: "u8 \<Rightarrow> 'a proc_state_scheme \<Rightarrow> (u64 \<times> 'a proc_state_scheme) result" where
  "alloc_stack mode s =
     (if mode = KERNEL_MODE then bindE (kalloc STACK_SIZE s) (\<lambda>(p, s). Inr (p + STACK_SIZE, s))
      else if mode = USER_MODE then Inr (0, s)
      else Inl (Panic ''alloc_stack: invalid mode''))"

definition process_get_list :: "'a proc_state_scheme \<Rightarrow> u64" where
  "process_get_list s = processes_list s"

definition process_get_current :: "'a proc_state_scheme \<Rightarrow> u64" where
  "process_get_current s = current_process s"

definition process_get_current_vmm :: "'a proc_state_scheme \<Rightarrow> u64 result" where
  "process_get_current_vmm s =
     (if process_get_current s = 0 then Inl Fault else Inr (proc_vmm (procs s (process_get_current s))))"

definition process_set_current :: "u64 \<Rightarrow> 'a proc_state_scheme \<Rightarrow> 'a proc_state_scheme" where
  "process_set_current p s = s\<lparr>current_process := p\<rparr>"

text \<open>\<open>while (iterator->next != NULL) iterator = iterator->next\<close>\<close>

partial_function (option) last_process :: "(u64 \<Rightarrow> process) \<Rightarrow> u64 \<Rightarrow> u64 option" where
  "last_process h iterator =
     (if next_process (h iterator) \<noteq> 0 then last_process h (next_process (h iterator)) else Some iterator)"

definition process_add :: "u64 \<Rightarrow> 'a proc_state_scheme \<Rightarrow> 'a proc_state_scheme result" where
  "process_add process s =
     (let iterator = processes_list s;
          s = update_process process (status_update (\<lambda>_. READY)) s
      in if iterator = 0 then Inr (s\<lparr>processes_list := process\<rparr>)
         else bindE (of_loop (last_process (procs s) iterator)) (\<lambda>iterator.
           Inr (update_process iterator (next_process_update (\<lambda>_. process)) s)))"

definition log_line ::
  "bool \<Rightarrow> device \<Rightarrow> string \<Rightarrow> string \<Rightarrow> 'a proc_state_scheme \<Rightarrow> 'a proc_state_scheme result" where
  "log_line PROD_MODE dev prefix fmt s =
     bindE (klog PROD_MODE dev (mem s) (Some (cstr prefix)) (cstr fmt) [] (screen s)) (\<lambda>con. Inr (s\<lparr>screen := con\<rparr>))"

text \<open>\<open>sizeof(process_t)\<close> is 2176 and \<open>sizeof(execution_context)\<close> 176; \<open>wrapper\<close> is the address of
  \<open>process_execution_wrapper\<close>.\<close>

definition process_create ::
  "bool \<Rightarrow> device \<Rightarrow> u64 \<Rightarrow> cstring \<Rightarrow> u64 \<Rightarrow> u64 \<Rightarrow> 'a proc_state_scheme \<Rightarrow> (u64 \<times> 'a proc_state_scheme) result" where
  "process_create PROD_MODE dev wrapper name function_ptr arg s =
     bindE (kalloc 2176 s) (\<lambda>(process, s).
     bindE (kalloc 176 s) (\<lambda>(context_ptr, s).
     let s = s\<lparr>procs := (procs s)(process := zero_process\<lparr>proc_context := context_ptr\<rparr>)\<rparr> in
     bindE (alloc_stack KERNEL_MODE s) (\<lambda>(stack, s).
     let s = update_process process (kstack_update (\<lambda>_. stack)) s;
         s = update_process process (ustack_update (\<lambda>_. 0)) s;
         s = s\<lparr>frames := (frames s)(context_ptr :=
               zero_context\<lparr>iret_ss := 0x30, iret_rsp := kstack (procs s process), iret_flags := 0x202, iret_cs := 0x28,
                 iret_rip := wrapper, rdi := function_ptr, rsi := arg, rbp := 0\<rparr>)\<rparr>;
         s = update_process process (proc_name_update (\<lambda>d. kstrcpy d name PROCESS_NAME_MAX_LEN)) s;
         s = update_process process (pid_update (\<lambda>_. next_pid s)) s;
         s = s\<lparr>next_pid := next_pid s + 1\<rparr>;
         s = update_process process (status_update (\<lambda>_. SPAWNED)) s
     in bindE (vmm_new s) (\<lambda>(vmm, s).
     let s = update_process process (proc_vmm_update (\<lambda>_. vmm)) s in
     bindE (process_add process s) (\<lambda>s.
     let s = s\<lparr>interrupts_enabled := True\<rparr> in
     bindE (log_line PROD_MODE dev ''PROCESS::'' ''process created'' s) (\<lambda>s.
     Inr (process, s)))))))"

text \<open>The scan for the predecessor; the head of the list may be null.\<close>

partial_function (option) scan_process :: "(u64 \<Rightarrow> process) \<Rightarrow> u64 \<Rightarrow> u64 \<Rightarrow> u64 result option" where
  "scan_process h process scan =
     (if scan = 0 then Some (Inl Fault)
      else if next_process (h scan) \<noteq> process then
        if next_process (h scan) = 0
        then Some (Inl (Panic ''deleting a process with pid: %d that is not part of linked list''))
        else scan_process h process (next_process (h scan))
      else Some (Inr scan))"

definition process_unlink :: "u64 \<Rightarrow> 'a proc_state_scheme \<Rightarrow> 'a proc_state_scheme result" where
  "process_unlink process s =
     (if processes_list s = process then Inr (s\<lparr>processes_list := next_process (procs s process)\<rparr>)
      else bindE (run_loop (scan_process (procs s) process (processes_list s))) (\<lambda>scan.
        Inr (update_process scan (next_process_update (\<lambda>_. next_process (procs s process))) s)))"

definition process_delete :: "u64 \<Rightarrow> 'a proc_state_scheme \<Rightarrow> 'a proc_state_scheme result" where
  "process_delete process s =
     (if process = 0 then Inr s
      else bindE (spinlock_acquire SPINLOCK_INIT) (\<lambda>lock.
        bindE (process_unlink process s) (\<lambda>s.
        if current_process s = 0 then Inl Fault
        else
          let s = (if next_process (procs s (current_process s)) \<noteq> 0
                   then s\<lparr>current_process := next_process (procs s (current_process s))\<rparr>
                   else s\<lparr>current_process := processes_list s\<rparr>)
          in kfree process s)))"

text \<open>The idle process logs once and halts between interrupts for ever.\<close>

definition process_idle :: "bool \<Rightarrow> device \<Rightarrow> 'a proc_state_scheme \<Rightarrow> 'a proc_state_scheme result" where
  "process_idle PROD_MODE dev s = bindE (log_line PROD_MODE dev ''SCHEDULER::'' ''from idle process'' s) (\<lambda>s. Inl Hang)"

subsection \<open>The list of processes\<close>

fun chain :: "(u64 \<Rightarrow> process) \<Rightarrow> u64 \<Rightarrow> u64 list \<Rightarrow> bool" where
  "chain h p [] \<longleftrightarrow> p = 0"
| "chain h p (a # as) \<longleftrightarrow> p = a \<and> a \<noteq> 0 \<and> chain h (next_process (h a)) as"

lemma chain_unique: "chain h p as \<Longrightarrow> chain h p bs \<Longrightarrow> as = bs"
proof (induction "as" arbitrary: p bs)
  case Nil
  then show ?case by (cases bs) auto
next
  case (Cons a "as")
  then show ?case by (cases bs) auto
qed

lemma chain_nonzero: "chain h p as \<Longrightarrow> 0 \<notin> set as"
  by (induction "as" arbitrary: p) auto

lemma chain_next:
  "chain h p as \<Longrightarrow> i < length as \<Longrightarrow> next_process (h (as ! i)) = (if Suc i < length as then as ! Suc i else 0)"
proof (induction "as" arbitrary: p i)
  case (Cons a "as")
  then show ?case by (cases i; cases "as") auto
qed simp

lemma chain_head: "chain h p as \<Longrightarrow> p = (case as of [] \<Rightarrow> 0 | a # _ \<Rightarrow> a)"
  by (cases "as") auto

lemma chain_cong: "(\<And>a. a \<in> set as \<Longrightarrow> next_process (h a) = next_process (h' a)) \<Longrightarrow> chain h p as = chain h' p as"
  by (induction "as" arbitrary: p) auto

lemma chain_last:
  assumes "chain h p as" and "as \<noteq> []"
  shows "last_process h p = Some (List.last as)"
  using assms
proof (induction "as" arbitrary: p)
  case (Cons a "as")
  have p: "p = a" "chain h (next_process (h a)) as" using Cons.prems by simp_all
  show ?case
  proof (cases "as = []")
    case True
    then show ?thesis using p by (simp add: last_process.simps [of h a])
  next
    case False
    then have "next_process (h a) \<noteq> 0" using p(2) by (cases "as") auto
    then show ?thesis using Cons.IH [OF p(2) False] p False by (simp add: last_process.simps [of h a])
  qed
qed simp

lemma chain_snoc:
  assumes "chain h p as" and "as \<noteq> []" and "distinct as" and "b \<notin> set as" and "b \<noteq> 0" and "next_process (h b) = 0"
  shows "chain (h(List.last as := h (List.last as)\<lparr>next_process := b\<rparr>)) p (as @ [b])"
  using assms
proof (induction "as" arbitrary: p)
  case (Cons a "as")
  show ?case
  proof (cases "as = []")
    case True
    then show ?thesis using Cons.prems by auto
  next
    case False
    then have "List.last as \<in> set as" by simp
    then have "a \<noteq> List.last as" using Cons.prems(3) by auto
    then show ?thesis using Cons.IH [of "next_process (h a)"] Cons.prems False by auto
  qed
qed simp

text \<open>The scan stops at the predecessor, and relinking it removes the process.\<close>

lemma chain_scan:
  assumes "chain h p (as @ a # b # bs)" and "distinct (as @ a # b # bs)"
  shows "scan_process h b p = Some (Inr a)"
  using assms
proof (induction "as" arbitrary: p)
  case Nil
  then show ?case by (simp add: scan_process.simps [of h b a])
next
  case (Cons c "as")
  have p: "p = c" "c \<noteq> 0" "chain h (next_process (h c)) (as @ a # b # bs)" using Cons.prems(1) by simp_all
  have "next_process (h c) = hd (as @ [a])" using p(3) by (cases "as") simp_all
  moreover have "hd (as @ [a]) \<in> set (as @ [a])" by (rule hd_in_set) simp
  ultimately have "next_process (h c) \<noteq> b" "next_process (h c) \<noteq> 0"
    using Cons.prems(2) chain_nonzero [OF p(3)] by auto
  moreover have "scan_process h b (next_process (h c)) = Some (Inr a)" using Cons.IH [OF p(3)] Cons.prems(2) by simp
  ultimately show ?case using p(1,2) by (simp add: scan_process.simps [of h b c])
qed

lemma chain_relink:
  assumes "chain h p (as @ a # b # bs)" and "distinct (as @ a # b # bs)"
  shows "chain (h(a := h a\<lparr>next_process := next_process (h b)\<rparr>)) p (as @ a # bs)"
  using assms
proof (induction "as" arbitrary: p)
  case Nil
  have "chain (h(a := h a\<lparr>next_process := next_process (h b)\<rparr>)) (next_process (h b)) bs = chain h (next_process (h b)) bs"
    using Nil.prems(2) by (intro chain_cong) auto
  then show ?case using Nil.prems by (simp add: fun_upd_def)
next
  case (Cons c "as")
  then show ?case by simp
qed

subsection \<open>Adding and removing\<close>

lemma update_process_simps [simp]:
  "procs (update_process p f s) = (procs s)(p := f (procs s p))" "processes_list (update_process p f s) = processes_list s"
  "current_process (update_process p f s) = current_process s" "next_pid (update_process p f s) = next_pid s"
  "frames (update_process p f s) = frames s" "screen (update_process p f s) = screen s" "mem (update_process p f s) = mem s"
  "uptime (update_process p f s) = uptime s" "segments (update_process p f s) = segments s" "cr3 (update_process p f s) = cr3 s"
  "hhdm_offset (update_process p f s) = hhdm_offset s" "interrupts_enabled (update_process p f s) = interrupts_enabled s"
  by (simp_all add: update_process_def)

definition list_inv :: "'a proc_state_scheme \<Rightarrow> u64 list \<Rightarrow> bool" where
  "list_inv s ps \<longleftrightarrow> chain (procs s) (processes_list s) ps \<and> distinct ps"

lemma process_add_chain:
  assumes inv: "list_inv s ps" and p: "p \<notin> set ps" "p \<noteq> 0" "next_process (procs s p) = 0"
  defines "h \<equiv> (procs s)(p := (procs s p)\<lparr>status := READY\<rparr>)"
  shows "\<exists>h' l. process_add p s = Inr (s\<lparr>procs := h', processes_list := l\<rparr>) \<and> chain h' l (ps @ [p]) \<and>
    (\<forall>a. next_process_update (\<lambda>_. 0) (h' a) = next_process_update (\<lambda>_. 0) (h a))"
proof (cases "ps = []")
  case True
  then show ?thesis
    using inv p by (intro exI [of _ h] exI [of _ p]) (simp add: process_add_def list_inv_def update_process_def h_def)
next
  case False
  have c: "chain h (processes_list s) ps" using inv p(1) chain_cong [of ps h "procs s"] by (auto simp: list_inv_def h_def)
  let ?l = "List.last ps"
  have "processes_list s \<noteq> 0" using False inv by (cases ps) (auto simp: list_inv_def)
  then have r: "process_add p s = Inr (s\<lparr>procs := h(?l := h ?l\<lparr>next_process := p\<rparr>)\<rparr>)"
    using chain_last [OF c False] by (simp add: process_add_def update_process_def h_def of_loop_def)
  moreover have "chain (h(?l := h ?l\<lparr>next_process := p\<rparr>)) (processes_list s) (ps @ [p])"
    using chain_snoc [OF c False] inv p by (simp add: list_inv_def h_def)
  ultimately show ?thesis by (intro exI [of _ "h(?l := h ?l\<lparr>next_process := p\<rparr>)"] exI [of _ "processes_list s"]) simp
qed

lemma split_before:
  assumes "p \<in> set ps" and "ps \<noteq> [] \<Longrightarrow> hd ps \<noteq> p"
  shows "\<exists>as a bs. ps = as @ a # p # bs"
proof -
  obtain xs ys where "ps = xs @ p # ys" using assms(1) by (meson split_list)
  moreover have "xs \<noteq> []" using calculation assms(2) by auto
  ultimately show ?thesis by (metis append_butlast_last_id append.assoc append_Cons append_Nil)
qed

text \<open>Removal is removal from the list; the next pointers elsewhere stay, also the removed one's.\<close>

lemma process_unlink_chain:
  assumes inv: "list_inv s ps" and p: "p \<in> set ps"
  shows "\<exists>h' l. process_unlink p s = Inr (s\<lparr>procs := h', processes_list := l\<rparr>) \<and> chain h' l (remove1 p ps) \<and> h' p = procs s p \<and>
    (\<forall>a. next_process_update (\<lambda>_. 0) (h' a) = next_process_update (\<lambda>_. 0) (procs s a))"
proof (cases "hd ps = p")
  case True
  then obtain qs where ps: "ps = p # qs" using p by (cases ps) auto
  then have "processes_list s = p" "chain (procs s) (next_process (procs s p)) qs" using inv by (auto simp: list_inv_def)
  then show ?thesis
    using ps by (intro exI [of _ "procs s"] exI [of _ "next_process (procs s p)"]) (simp add: process_unlink_def)
next
  case False
  then obtain as' a bs where ps: "ps = as' @ a # p # bs" using split_before [OF p] by blast
  have c: "chain (procs s) (processes_list s) (as' @ a # p # bs)" and d: "distinct (as' @ a # p # bs)"
    using inv by (simp_all add: list_inv_def ps)
  have "processes_list s \<noteq> p" using chain_head [OF c] d by (cases as') auto
  then have "process_unlink p s = Inr (s\<lparr>procs := (procs s)(a := (procs s a)\<lparr>next_process := next_process (procs s p)\<rparr>)\<rparr>)"
    using chain_scan [OF c d] by (simp add: process_unlink_def run_loop_def update_process_def)
  moreover have "remove1 p ps = as' @ a # bs" using d by (auto simp: ps remove1_append)
  moreover have "p \<noteq> a" using d by auto
  ultimately show ?thesis
    using chain_relink [OF c d]
    by (intro exI [of _ "(procs s)(a := (procs s a)\<lparr>next_process := next_process (procs s p)\<rparr>)"] exI [of _ "processes_list s"]) simp
qed

text \<open>The heap's invariant does not see the process structures.\<close>

definition memory_part :: "'a vmm_state_scheme \<Rightarrow> memory \<times> u64 \<times> u64 \<times> u64 \<times> u64 \<times> spinlock_t \<times> u64" where
  "memory_part s = (mem s, hhdm_offset s, bitmap s, bitmap_top_index s, bitmap_prev_index s, spin_lock s, vmm_kernel s)"

lemma heap_inv_cong:
  fixes s :: "'a vmm_state_scheme" and t :: "'b vmm_state_scheme"
  assumes "memory_part t = memory_part s"
  shows "heap_inv t B = heap_inv s B"
proof -
  have e: "mem t = mem s" "hhdm_offset t = hhdm_offset s" "bitmap t = bitmap s" "bitmap_top_index t = bitmap_top_index s"
    "bitmap_prev_index t = bitmap_prev_index s" "spin_lock t = spin_lock s" "vmm_kernel t = vmm_kernel s"
    using assms by (simp_all add: memory_part_def)
  have b: "page_bytes t = page_bytes s" "bitmap_area t = bitmap_area s" "frame_addr t = frame_addr s" "page_used t = page_used s"
    by (simp_all add: page_bytes_def bitmap_area_def frame_addr_def page_used_def fun_eq_iff e)
  have o: "own_page t = own_page s" "pmm_inv t = pmm_inv s" "is_table t = is_table s"
    by (simp_all add: own_page_def pmm_inv_def is_table_def fun_eq_iff e b)
  then have "pt_inv t = pt_inv s" by (simp add: pt_inv_def fun_eq_iff e b)
  then have "vmm_at t = vmm_at s" "other_page t = other_page s"
    by (simp_all add: vmm_at_def other_page_def fun_eq_iff e b o)
  then show ?thesis by (simp add: heap_inv_def kernel_at_def heap_blocks_def heap_block_def e b)
qed

lemma heap_rest_fields:
  fixes s t :: "'a proc_state_scheme"
  assumes "heap_rest t = heap_rest s"
  shows "procs t = procs s" "frames t = frames s" "processes_list t = processes_list s" "current_process t = current_process s"
    "next_pid t = next_pid s" "uptime t = uptime s" "segments t = segments s" "screen t = screen s" "cr3 t = cr3 s"
    "interrupts_enabled t = interrupts_enabled s" "proc_state.more t = proc_state.more s"
  using assms by (cases t; cases s; simp add: heap_rest_def)+

definition proc_inv :: "'a proc_state_scheme \<Rightarrow> u64 list \<Rightarrow> bool" where
  "proc_inv s ps \<longleftrightarrow> list_inv s ps \<and> (\<exists>B. heap_inv s B \<and> set ps \<subseteq> B)"

definition same_fields :: "(u64 \<Rightarrow> process) \<Rightarrow> (u64 \<Rightarrow> process) \<Rightarrow> u64 set \<Rightarrow> bool" where
  "same_fields h h' A \<longleftrightarrow> (\<forall>a \<in> A. next_process_update (\<lambda>_. 0) (h' a) = next_process_update (\<lambda>_. 0) (h a))"

lemma same_fields_status:
  "same_fields h h' A \<Longrightarrow> a \<in> A \<Longrightarrow> pid (h' a) = pid (h a)" "same_fields h h' A \<Longrightarrow> a \<in> A \<Longrightarrow> status (h' a) = status (h a)"
  unfolding same_fields_def by (metis process.select_convs process.update_convs process.surjective)+

lemma process_delete_eq:
  fixes s :: "'a proc_state_scheme"
  assumes inv: "proc_inv s ps" and p: "p \<in> set ps" and c: "current_process s \<noteq> 0"
  shows "\<exists>t. process_delete p s = Inr t \<and> proc_inv t (remove1 p ps) \<and> same_fields (procs s) (procs t) UNIV \<and> procs t p = procs s p \<and>
    current_process t = (if next_process (procs t (current_process s)) \<noteq> 0 then next_process (procs t (current_process s))
      else processes_list t) \<and> frames t = frames s \<and> uptime t = uptime s \<and> segments t = segments s"
proof -
  have l: "list_inv s ps" using inv by (simp add: proc_inv_def)
  obtain B where B: "heap_inv s B" "set ps \<subseteq> B" using inv by (auto simp: proc_inv_def)
  have p0: "p \<noteq> 0" using l chain_nonzero p by (fastforce simp: list_inv_def)
  from process_unlink_chain [OF l p] obtain h' l' where u: "process_unlink p s = Inr (s\<lparr>procs := h', processes_list := l'\<rparr>)"
    and ch: "chain h' l' (remove1 p ps)" "h' p = procs s p" "same_fields (procs s) h' UNIV" by (auto simp: same_fields_def)
  let ?c = "if next_process (h' (current_process s)) \<noteq> 0 then next_process (h' (current_process s)) else l'"
  let ?s = "s\<lparr>procs := h', processes_list := l', current_process := ?c\<rparr>"
  have "heap_inv ?s B" using B(1) heap_inv_cong [of ?s s] by (simp add: memory_part_def)
  then obtain t where t: "kfree p ?s = Inr t" "heap_inv t (B - {p})" "heap_rest t = heap_rest ?s"
    using kh.free_contract [of ?s B p] B(2) p by blast
  note f = heap_rest_fields [OF t(3)]
  have "process_delete p s = Inr t"
    using p0 c u t(1) by (auto simp: process_delete_def SPINLOCK_INIT_def)
  moreover have "set (remove1 p ps) \<subseteq> B - {p}" using l B(2) by (auto simp: list_inv_def set_remove1_eq)
  then have "proc_inv t (remove1 p ps)" using t(2) ch(1) l f by (auto simp: proc_inv_def list_inv_def)
  ultimately show ?thesis using f ch by (intro exI [of _ t]) simp
qed

lemma is_cstr_literal: "0 \<notin> set (map of_char x :: u8 list) \<Longrightarrow> is_cstr (cstr x) (map of_char x)"
  by (simp add: is_cstr_def cstr_def)

lemma prefix_loop_length [simp]: "length (snd (prefix_loop np i prefix)) = length prefix"
proof (induction np i prefix rule: prefix_loop.induct)
  case (1 np i prefix)
  then show ?case by (subst prefix_loop.simps) (simp del: shift_apply)
qed

lemma set_prefix_length [simp]: "length (set_prefix np prefix) = length prefix"
  by (simp add: set_prefix_def case_prod_beta split: option.split)

text \<open>What logging keeps of the console.\<close>

definition same_console :: "console \<Rightarrow> console \<Rightarrow> bool" where
  "same_console con con' \<longleftrightarrow> term_ready con' = term_ready con \<and> term_writes con' = term_writes con \<and>
     length (log_prefix con') = length (log_prefix con)"

lemma log_line_ok:
  assumes "length (log_prefix (screen s)) = 32" and "uart_drains dev" and "length fmt < 900"
    and "0 \<notin> set (map of_char prefix :: u8 list)" and "{0, of_char CHR ''%''} \<inter> set (map of_char fmt :: u8 list) = {}"
  shows "\<exists>con. log_line PROD_MODE dev prefix fmt s = Inr (s\<lparr>screen := con\<rparr>) \<and> same_console (screen s) con"
proof (cases PROD_MODE)
  case True
  then show ?thesis by (intro exI [of _ "screen s"]) (simp add: log_line_def klog_def same_console_def)
next
  case False
  let ?p = "take 30 (map of_char prefix) @ [of_char CHR '' ''] :: u8 list" and ?f = "map of_char fmt :: u8 list"
  obtain rest where "set_prefix (Some (cstr prefix)) (log_prefix (screen s)) = ?p @ 0 # rest"
    using set_prefix_eq [OF is_cstr_literal [OF assms(4)] assms(1)] by blast
  moreover have "0 \<notin> set ?p" using assms(4) by (auto dest!: in_set_takeD)
  ultimately have "is_cstr (list_cstr (set_prefix (Some (cstr prefix)) (log_prefix (screen s)))) ?p"
    using is_cstr_list [of ?p "0 # rest"] by simp
  moreover have "is_cstr (cstr fmt) ?f" using assms(5) by (intro is_cstr_literal) auto
  moreover have pl: "of_char CHR ''%'' \<notin> set ?f" using assms(5) by auto
  ultimately obtain tr where "vklog dev (mem s) (Some (cstr prefix)) (cstr fmt) [] (screen s) =
      Inr ((screen s)\<lparr>log_prefix := set_prefix (Some (cstr prefix)) (log_prefix (screen s)), serial_line := tr\<rparr>)" (is "_ = Inr ?con")
    using vklog_sends [of "Some (cstr prefix)" "screen s" ?p "cstr fmt" ?f "mem s" "[]" dev] fmt_ok_plain [OF pl] render_plain [OF pl] assms
    by fastforce
  then show ?thesis using False by (intro exI [of _ ?con]) (simp add: log_line_def klog_def same_console_def)
qed

definition new_context :: "u64 \<Rightarrow> u64 \<Rightarrow> u64 \<Rightarrow> u64 \<Rightarrow> execution_context" where
  "new_context wrapper function_ptr arg stack = zero_context\<lparr>iret_ss := 0x30, iret_rsp := stack, iret_flags := 0x202,
     iret_cs := 0x28, iret_rip := wrapper, rdi := function_ptr, rsi := arg\<rparr>"

definition new_process :: "cstring \<Rightarrow> u64 \<Rightarrow> u64 \<Rightarrow> u64 \<Rightarrow> u64 \<Rightarrow> process" where
  "new_process name i vmm c stack = zero_process\<lparr>pid := i, status := READY, proc_vmm := vmm,
     proc_name := kstrcpy (\<lambda>_. 0) name PROCESS_NAME_MAX_LEN, proc_context := c, kstack := stack\<rparr>"

lemma process_create_tail:
  fixes s :: "'a proc_state_scheme"
  assumes l: "list_inv s ps" and B: "heap_inv s B" "set ps \<subseteq> B" "p \<in> B" "p \<notin> set ps" "p \<noteq> 0"
    and log: "length (log_prefix (screen s)) = 32" "uart_drains dev" and n: "next_process (procs s p) = 0"
  shows "\<exists>t. bindE (process_add p s) (\<lambda>s. bindE (log_line PROD_MODE dev ''PROCESS::'' ''process created''
       (s\<lparr>interrupts_enabled := True\<rparr>)) (\<lambda>s. Inr (p, s))) = Inr (p, t) \<and>
    t = s\<lparr>procs := procs t, processes_list := processes_list t, interrupts_enabled := True, screen := screen t\<rparr> \<and>
    same_fields ((procs s)(p := (procs s p)\<lparr>status := READY\<rparr>)) (procs t) UNIV \<and> proc_inv t (ps @ [p]) \<and>
    same_console (screen s) (screen t)"
proof -
  from process_add_chain [OF l B(4,5) n] obtain h' l' where
    a: "process_add p s = Inr (s\<lparr>procs := h', processes_list := l'\<rparr>)" "chain h' l' (ps @ [p])"
    "same_fields ((procs s)(p := (procs s p)\<lparr>status := READY\<rparr>)) h' UNIV" by (auto simp: same_fields_def)
  let ?u = "s\<lparr>procs := h', processes_list := l', interrupts_enabled := True\<rparr>"
  have "length (log_prefix (screen ?u)) = 32" using log by simp
  from log_line_ok [OF this log(2), of "''process created''" "''PROCESS::''"] obtain con where
    c: "log_line PROD_MODE dev ''PROCESS::'' ''process created'' ?u = Inr (?u\<lparr>screen := con\<rparr>)" "same_console (screen ?u) con" by auto
  have "heap_inv (?u\<lparr>screen := con\<rparr>) B" using B(1) heap_inv_cong [of "?u\<lparr>screen := con\<rparr>" s] by (simp add: memory_part_def)
  then have "proc_inv (?u\<lparr>screen := con\<rparr>) (ps @ [p])"
    using l a(2) B(2-4) by (auto simp: proc_inv_def list_inv_def)
  then show ?thesis using a c by (intro exI [of _ "?u\<lparr>screen := con\<rparr>"]) simp
qed

lemma process_create_cases:
  fixes s :: "'a proc_state_scheme"
  assumes inv: "proc_inv s ps" and log: "length (log_prefix (screen s)) = 32" "uart_drains dev"
  shows "(\<exists>p t. process_create PROD_MODE dev wrapper name function_ptr arg s = Inr (p, t) \<and> p \<notin> set ps \<and> proc_inv t (ps @ [p]) \<and>
      procs t p = new_process name (next_pid s) (proc_vmm (procs t p)) (proc_context (procs t p)) (kstack (procs t p)) \<and>
      frames t = (frames s)(proc_context (procs t p) := new_context wrapper function_ptr arg (kstack (procs t p))) \<and>
      same_fields (procs s) (procs t) (- {p}) \<and> next_pid t = next_pid s + 1 \<and> current_process t = current_process s \<and>
      interrupts_enabled t \<and> same_console (screen s) (screen t) \<and> segments t = segments s \<and> cr3 t = cr3 s \<and>
      proc_state.more t = proc_state.more s) \<or>
    process_create PROD_MODE dev wrapper name function_ptr arg s = Inl (Panic ''PMM_ALLOC: failed to allocate memory'')"
    (is "?ok \<or> ?run = ?panic")
proof (rule disjCI)
  assume no: "?run \<noteq> ?panic"
  have l: "list_inv s ps" using inv by (simp add: proc_inv_def)
  obtain B where B: "heap_inv s B" "set ps \<subseteq> B" using inv by (auto simp: proc_inv_def)
  obtain p s1 where a1: "kalloc 2176 s = Inr (p, s1)" "heap_inv s1 (insert p B)" "p \<notin> B" "p \<noteq> 0" "heap_rest s1 = heap_rest s"
    using kh.alloc_contract [OF B(1), of 2176] no by (auto simp: process_create_def)
  obtain c s2 where a2: "kalloc 176 s1 = Inr (c, s2)" "heap_inv s2 (insert c (insert p B))" "heap_rest s2 = heap_rest s1"
    using kh.alloc_contract [OF a1(2), of 176] no by (auto simp: process_create_def a1)
  let ?s3 = "s2\<lparr>procs := (procs s2)(p := zero_process\<lparr>proc_context := c\<rparr>)\<rparr>"
  have i3: "heap_inv ?s3 (insert c (insert p B))" using a2(2) heap_inv_cong [of ?s3 s2] by (simp add: memory_part_def)
  obtain k s4 where a4: "kalloc STACK_SIZE ?s3 = Inr (k, s4)" "heap_inv s4 (insert k (insert c (insert p B)))" "heap_rest s4 = heap_rest ?s3"
    using kh.alloc_contract [OF i3, of STACK_SIZE] no
    by (auto simp: process_create_def a1 a2 alloc_stack_def STACK_SIZE_def Let_def)
  note f = heap_rest_fields [OF a4(3)] heap_rest_fields [OF a2(3)] heap_rest_fields [OF a1(5)]
  let ?k = "k + STACK_SIZE"
  let ?s5 = "s4\<lparr>frames := (frames s)(c := new_context wrapper function_ptr arg ?k), next_pid := next_pid s + 1,
      procs := (procs s)(p := (new_process name (next_pid s) 0 c ?k)\<lparr>status := SPAWNED\<rparr>)\<rparr>"
  have run: "?run = bindE (vmm_new ?s5) (\<lambda>(v, s). bindE (process_add p (update_process p (proc_vmm_update (\<lambda>_. v)) s))
      (\<lambda>s. bindE (log_line PROD_MODE dev ''PROCESS::'' ''process created'' (s\<lparr>interrupts_enabled := True\<rparr>)) (\<lambda>s. Inr (p, s))))"
    by (simp add: process_create_def a1 a2 a4 alloc_stack_def Let_def)
      (simp add: f update_process_def new_process_def new_context_def zero_process_def zero_context_def)
  have i5: "heap_inv ?s5 (insert k (insert c (insert p B)))" using a4(2) heap_inv_cong [of ?s5 s4] by (simp add: memory_part_def)
  obtain v s6 where a6: "vmm_new ?s5 = Inr (v, s6)" "heap_inv s6 (insert k (insert c (insert p B)))" "heap_rest s6 = heap_rest ?s5"
    using kh.space_contract [OF i5] no by (auto simp: run)
  note g = heap_rest_fields [OF a6(3)]
  let ?s7 = "update_process p (proc_vmm_update (\<lambda>_. v)) s6"
  have i7: "heap_inv ?s7 (insert k (insert c (insert p B)))"
    using a6(2) heap_inv_cong [of ?s7 s6] by (simp add: memory_part_def update_process_def)
  have p7: "p \<notin> set ps" using a1(3) B(2) by auto
  have "chain (procs ?s7) (processes_list s) ps = chain (procs s) (processes_list s) ps" using p7 g by (intro chain_cong) auto
  then have l7: "list_inv ?s7 ps" using l g f by (simp add: list_inv_def)
  have "length (log_prefix (screen ?s7)) = 32" "next_process (procs ?s7 p) = 0"
    using log g f by (simp_all add: new_process_def zero_process_def)
  from process_create_tail [OF l7 i7 _ _ p7 a1(4) this(1) log(2) this(2)] B(2) obtain t where
    t: "?run = Inr (p, t)" "proc_inv t (ps @ [p])"
    "t = ?s7\<lparr>procs := procs t, processes_list := processes_list t, interrupts_enabled := True, screen := screen t\<rparr>"
    "same_fields ((procs ?s7)(p := (procs ?s7 p)\<lparr>status := READY\<rparr>)) (procs t) UNIV" "same_console (screen ?s7) (screen t)"
    by (auto simp: run a6)
  have "chain (procs t) (processes_list t) (ps @ [p])" using t(2) by (simp add: proc_inv_def list_inv_def)
  from chain_next [OF this, of "length ps"] have "next_process (procs t p) = 0" by simp
  moreover have "next_process_update (\<lambda>_. 0) (procs t p) = next_process_update (\<lambda>_. 0) (new_process name (next_pid s) v c ?k)"
    using t(4) g by (simp add: same_fields_def new_process_def)
  ultimately have pt: "procs t p = new_process name (next_pid s) v c ?k"
    by (cases "procs t p") (simp add: new_process_def zero_process_def)
  then have pf: "proc_vmm (procs t p) = v" "proc_context (procs t p) = c" "kstack (procs t p) = ?k" by (simp_all add: new_process_def)
  have "same_fields (procs s) (procs t) (- {p})" using t(4) g by (simp add: same_fields_def)
  moreover have "frames t = frames s6" "next_pid t = next_pid s6" "current_process t = current_process s6" "interrupts_enabled t"
    "segments t = segments s6" "cr3 t = cr3 s6" "proc_state.more t = proc_state.more s6"
    by (subst t(3), simp add: update_process_def)+
  moreover have "same_console (screen s) (screen t)" using t(5) g f by simp
  ultimately show ?ok using t(1,2) p7 pt pf g f by (intro exI [of _ p] exI [of _ t]) simp
qed

subsection \<open>Properties\<close>


definition segments_demo :: gdt_state where
  "segments_demo = gdt_init 0 0 \<lparr>descriptors = [], tss_desc = tss_segment 0, gdtr_limit = 0, gdtr_address = 0,
     tss_instance = \<lparr>reserved0 = 0, rsp0 = 0, rsp1 = 0, rsp2 = 0, reserved1 = 0, reserved2 = 0, ist1 = 0, ist2 = 0, ist3 = 0,
       ist4 = 0, ist5 = 0, ist6 = 0, ist7 = 0, reserved3 = 0, reserved4 = 0, iomap_offset = 0\<rparr>,
     code_segment = 0, data_segments = 0, task_register = 0\<rparr>"

definition proc_demo :: proc_state where
  "proc_demo = \<lparr>mem = mem vmm_demo, hhdm_offset = hhdm_offset vmm_demo, spin_lock = spin_lock vmm_demo, bitmap = bitmap vmm_demo,
     bitmap_top_index = bitmap_top_index vmm_demo, bitmap_prev_index = bitmap_prev_index vmm_demo,
     vmm_kernel = vmm_kernel vmm_demo, cr3 = 0, procs = (\<lambda>_. zero_process), frames = (\<lambda>_. zero_context), processes_list = 0,
     current_process = 0, next_pid = 1, uptime = 0, segments = segments_demo, interrupts_enabled = False, screen = console_demo\<rparr>"

lemma proc_demo_inv: "heap_inv proc_demo {}" "proc_inv proc_demo []"
proof -
  obtain pml fv where "kernel_at vmm_demo pml fv"
    using vmm_demo_ok vmm_demo_arena by (auto simp: kernel_at_def vmm_ok_def vmm_demo_fields)
  then have "heap_inv vmm_demo {}" by (auto simp: heap_inv_def heap_blocks_def)
  moreover have "memory_part proc_demo = memory_part vmm_demo" by (simp add: memory_part_def proc_demo_def)
  ultimately show "heap_inv proc_demo {}" using heap_inv_cong by blast
  then show "proc_inv proc_demo []" by (auto simp: proc_inv_def list_inv_def proc_demo_def)
qed

lemma proc_demo_blocks:
  "\<exists>s p q. heap_inv s {p, q} \<and> p \<noteq> q \<and> p \<noteq> 0 \<and> q \<noteq> 0 \<and> heap_rest s = heap_rest proc_demo"
proof -
  obtain pml fv where k: "kernel_at proc_demo pml fv" using proc_demo_inv(1) by (auto simp: heap_inv_def)
  have "free_count proc_demo = 12"
    using vmm_demo_free by (simp add: free_count_def proc_demo_def page_used_def)
  then obtain t p g where t: "kernel_step proc_demo pml fv {} t" "heap_block t pml fv p g 1" "\<not> page_used proc_demo g" "free_count t = 11"
    using one_page_block [OF k] by auto
  have "heap_inv t {p}" "p \<noteq> 0"
    using heap_inv_extend [of proc_demo pml fv "{}" _ _ t p g 1] t by (auto simp: heap_blocks_def)
  have kt: "kernel_at t pml fv" and bt: "heap_blocks t pml fv {p} (\<lambda>_. g) (\<lambda>_. 1)"
    using t(1,2) by (simp_all add: kernel_step_def heap_blocks_def)
  obtain u q g' where u: "kernel_step t pml fv {} u" "heap_block u pml fv q g' 1" "\<not> page_used t g'"
    using one_page_block [OF kt] t(4) by auto
  have "heap_inv u {q, p}" "q \<noteq> p" "q \<noteq> 0"
    using heap_inv_extend [OF bt u(1,2)] u(3) by auto
  moreover have "heap_rest u = heap_rest proc_demo"
    using static_part_rest [of u t] static_part_rest [of t proc_demo] t(1) u(1) by (simp add: kernel_step_def)
  ultimately show ?thesis using \<open>p \<noteq> 0\<close> by blast
qed


text \<open>
  C11. Deleting the current process, which is what the scheduler does with a dead one: the process
  leaves the list and its heap block is freed, the order of the others and all their fields stay,
  and the current process becomes its successor, or the head of the list when it was the last,
  or none when it was the only one.
\<close>

theorem process_delete_current:
  fixes s :: "'a proc_state_scheme"
  assumes inv: "proc_inv s (as @ p # bs)" and cur: "current_process s = p"
  shows "\<exists>t. process_delete p s = Inr t \<and> proc_inv t (as @ bs) \<and> current_process t = hd (bs @ as @ [0]) \<and>
    same_fields (procs s) (procs t) UNIV"
proof -
  have l: "chain (procs s) (processes_list s) (as @ p # bs)" "distinct (as @ p # bs)"
    using inv by (simp_all add: proc_inv_def list_inv_def)
  have "p \<noteq> 0" using chain_nonzero [OF l(1)] by auto
  then obtain t where t: "process_delete p s = Inr t" "proc_inv t (remove1 p (as @ p # bs))" "same_fields (procs s) (procs t) UNIV"
    "procs t p = procs s p" "current_process t = (if next_process (procs t p) \<noteq> 0 then next_process (procs t p) else processes_list t)"
    using process_delete_eq [OF inv, of p] cur by auto
  have r: "remove1 p (as @ p # bs) = as @ bs" using l(2) by (simp add: remove1_append)
  have "next_process (procs s p) = (case bs of [] \<Rightarrow> 0 | b # _ \<Rightarrow> b)" "0 \<notin> set bs"
    using chain_next [OF l(1), of "length as"] chain_nonzero [OF l(1)] by (auto simp: nth_append split: list.split)
  moreover have "processes_list t = (case as @ bs of [] \<Rightarrow> 0 | a # _ \<Rightarrow> a)"
    using t(2) unfolding r by (intro chain_head [of "procs t"]) (simp add: proc_inv_def list_inv_def)
  ultimately have "current_process t = hd (bs @ as @ [0])" using t(4,5) by (cases bs; cases "as") auto
  then show ?thesis using t r by auto
qed

theorem process_delete_current_witness:
  "\<exists>(s :: proc_state) p t. proc_inv s [p] \<and> current_process s = p \<and> process_delete p s = Inr t \<and> proc_inv t [] \<and> current_process t = 0"
proof -
  have inv: "pmm_inv proc_demo" using proc_demo_inv(1) by (auto simp: heap_inv_def kernel_at_def vmm_at_def)
  obtain pml fv where at: "vmm_at proc_demo (vmm_kernel proc_demo) pml fv" "vmm_lock (mem proc_demo) (vmm_kernel proc_demo) = 0"
    "vmm_arena (mem proc_demo) (vmm_kernel proc_demo) = 0" using proc_demo_inv(1) by (auto simp: heap_inv_def kernel_at_def)
  have free: "free_count proc_demo = 12"
    using vmm_demo_free by (simp add: free_count_def proc_demo_def page_used_def)
  then have "alloc_choice proc_demo 1 \<noteq> None" using alloc_choice_1 [OF inv] by simp
  then obtain p s1 where r: "kalloc 2176 proc_demo = Inr (p, s1)"
    using k_alloc_cases [OF at, of 2176] free arena_pages_unat(1) [of 2176] by (auto simp: kalloc_def)
  then have s1: "heap_inv s1 {p}" "p \<noteq> 0" using kh.alloc_contract [OF proc_demo_inv(1), of 2176] by auto
  let ?s = "s1\<lparr>procs := (\<lambda>_. zero_process), processes_list := p, current_process := p\<rparr>"
  have "heap_inv ?s {p}" using s1(1) heap_inv_cong [of ?s s1] by (simp add: memory_part_def)
  then have i: "proc_inv ?s ([] @ p # [])" and c: "current_process ?s = p"
    using s1(2) by (auto simp: proc_inv_def list_inv_def zero_process_def)
  from process_delete_current [OF i c] obtain t where "process_delete p ?s = Inr t" "proc_inv t []" "current_process t = 0"
    by auto
  moreover have "proc_inv ?s [p]" using i by simp
  ultimately show ?thesis using c by blast
qed

end
