(* ===== verification/Idt.thy ===== *)
theory Idt
  imports Cpu
begin

text \<open>
  The interrupt descriptor table and the interrupt dispatch of \<open>idt.c\<close>. The addresses of the
  assembly stubs and of the table are arguments. A frame is known by its address; \<open>frame_int\<close>
  reads the interrupt number of a frame in the current state. The installed handlers are
  function pointers: their type is a parameter, and \<open>call\<close> runs one on a frame address and the
  state. An index outside a handler table is a \<open>Fault\<close>.
\<close>

subsection \<open>Gate descriptors\<close>

record interrupt_descriptor =
  address_low :: u16
  selector :: u16
  ist :: u8
  flags :: u8
  address_mid :: u16
  address_high :: u32
  reserved :: u32

record idt_state =
  idt :: "interrupt_descriptor list"
  idtr_limit :: u16
  idtr_address :: u64
  interrupts_on :: bool
  ports :: io_trace

definition no_gate :: interrupt_descriptor where
  "no_gate = \<lparr>address_low = 0, selector = 0, ist = 0, flags = 0, address_mid = 0, address_high = 0, reserved = 0\<rparr>"

definition set_interrupt_descriptor ::
  "u8 \<Rightarrow> u64 \<Rightarrow> u8 \<Rightarrow> interrupt_descriptor list \<Rightarrow> interrupt_descriptor list" where
  "set_interrupt_descriptor vector handler_address dpl table =
     table[unat vector :=
       \<lparr>address_low = ucast (handler_address AND 0xffff),
        selector = 0x28,
        ist = 0,
        flags = 0xE OR push_bit 5 (dpl AND 3) OR push_bit 7 1,
        address_mid = ucast (drop_bit 16 handler_address AND 0xffff),
        address_high = ucast (drop_bit 32 handler_address AND 0xffffffff),
        reserved = 0\<rparr>]"

definition idt_load :: "u64 \<Rightarrow> idt_state \<Rightarrow> idt_state" where
  "idt_load idt_addr s = s\<lparr>idtr_limit := 256 * 16 - 1, idtr_address := idt_addr, interrupts_on := True\<rparr>"

text \<open>The vectors that \<open>idt_init\<close> fills in, in its order, with their privilege levels.\<close>

definition idt_vectors :: "(u8 \<times> u8) list" where
  "idt_vectors =
     [(0, 0), (1, 0), (2, 0), (3, 0), (4, 0), (5, 0), (6, 0), (7, 0),
      (8, 0), (9, 0), (10, 0), (11, 0), (12, 0), (13, 0), (14, 0), (15, 0),
      (16, 0), (17, 0), (18, 0), (19, 0), (20, 0), (21, 0), (22, 0), (23, 0),
      (24, 0), (25, 0), (26, 0), (27, 0), (28, 0), (29, 0), (30, 0), (31, 0),
      (32, 3), (33, 0), (34, 0), (35, 0), (36, 0), (37, 0), (38, 0), (39, 0),
      (40, 0), (41, 0), (42, 0), (43, 0), (44, 0), (45, 0), (46, 0), (47, 0),
      (128, 3)]"

definition idt_init :: "(u8 \<Rightarrow> u64) \<Rightarrow> u64 \<Rightarrow> idt_state \<Rightarrow> idt_state" where
  "idt_init stub idt_addr s =
     (let s = s\<lparr>idt := fold (\<lambda>(v, dpl). set_interrupt_descriptor v (stub v) dpl) idt_vectors (idt s)\<rparr>;
          s = s\<lparr>ports := pic_init (ports s)\<rparr>
      in idt_load idt_addr s)"

subsection \<open>Dispatch\<close>

definition exception_messages :: "string list" where
  "exception_messages =
     [''Division By Zero'', ''Debug'', ''Non Maskable Interrupt'', ''Breakpoint'', ''Into Detected Overflow'',
      ''Out of Bounds'', ''Invalid Opcode'', ''No Coprocessor'', ''Double Fault'', ''Coprocessor Segment Overrun'',
      ''Bad TSS'', ''Segment Not Present'', ''Stack Fault'', ''General Protection Fault'', ''Page Fault'',
      ''Unknown Interrupt'', ''Coprocessor Fault'', ''Alignment Check'', ''Machine Check'',
      ''SIMD floating-point exception'', ''Virtualization exception'', ''Reserved'', ''Reserved'', ''Reserved'',
      ''Reserved'', ''Reserved'', ''Reserved'', ''Reserved'', ''Reserved'', ''Reserved'', ''Reserved'', ''Reserved'',
      ''Timer'']"

text \<open>A table of handlers: \<open>None\<close> is the null pointer. Installing outside the table is a \<open>Fault\<close>.\<close>

definition install :: "u8 \<Rightarrow> 'h option \<Rightarrow> 'h option list \<Rightarrow> 'h option list result" where
  "install offset handler table =
     (if unat offset < length table then Inr (table[unat offset := handler]) else Inl Fault)"

definition isr_install_handler :: "u8 \<Rightarrow> 'h \<Rightarrow> 'h option list \<Rightarrow> 'h option list result" where
  "isr_install_handler offset handler isr_handlers = install offset (Some handler) isr_handlers"

definition irq_install_handler :: "u8 \<Rightarrow> 'h \<Rightarrow> 'h option list \<Rightarrow> 'h option list result" where
  "irq_install_handler offset handler irq_handlers = install offset (Some handler) irq_handlers"

definition irq_uninstall_handler :: "u8 \<Rightarrow> 'h option list \<Rightarrow> 'h option list result" where
  "irq_uninstall_handler offset irq_handlers = install offset None irq_handlers"

definition handler_at :: "'h option list \<Rightarrow> u64 \<Rightarrow> 'h option result" where
  "handler_at table i = (if unat i < length table then Inr (table ! unat i) else Inl Fault)"

definition isr_handler ::
  "('h \<Rightarrow> u64 \<Rightarrow> 's \<Rightarrow> (u64 \<times> 's) result) \<Rightarrow> ('s \<Rightarrow> u64 \<Rightarrow> u64) \<Rightarrow> 'h option list \<Rightarrow> u64 \<Rightarrow> 's \<Rightarrow>
   (u64 \<times> 's) result" where
  "isr_handler call frame_int irq_handlers frame s =
     bindE (handler_at irq_handlers (frame_int s frame)) (\<lambda>handler.
     bindE (case handler of None \<Rightarrow> Inr s | Some h \<Rightarrow> bindE (call h frame s) (\<lambda>(_, s). Inr s)) (\<lambda>s.
     if frame_int s frame < 32 then Inl (Panic (exception_messages ! unat (frame_int s frame)))
     else Inr (frame, s)))"

definition irq_handler ::
  "('h \<Rightarrow> u64 \<Rightarrow> 's \<Rightarrow> (u64 \<times> 's) result) \<Rightarrow> ('s \<Rightarrow> u64 \<Rightarrow> u64) \<Rightarrow> ((io_trace \<Rightarrow> io_trace) \<Rightarrow> 's \<Rightarrow> 's) \<Rightarrow>
   'h option list \<Rightarrow> u64 \<Rightarrow> 's \<Rightarrow> (u64 \<times> 's) result" where
  "irq_handler call frame_int upd_ports irq_handlers frame s =
     bindE (handler_at irq_handlers (frame_int s frame - 32)) (\<lambda>handler.
     bindE (case handler of
              None \<Rightarrow> Inr (frame, s)
            | Some h \<Rightarrow>
                if frame_int s frame = 32 then call h frame s
                else bindE (call h frame s) (\<lambda>(_, s). Inr (frame, s))) (\<lambda>(frame, s).
     Inr (frame, upd_ports (pic_eoi (ucast (frame_int s frame))) s)))"

subsection \<open>What the processor reads from a gate\<close>

definition gate_address :: "interrupt_descriptor \<Rightarrow> u64" where
  "gate_address g = ucast (address_low g) OR push_bit 16 (ucast (address_mid g)) OR push_bit 32 (ucast (address_high g))"

definition gate_present :: "interrupt_descriptor \<Rightarrow> bool" where
  "gate_present g \<longleftrightarrow> bit (flags g) 7"

definition gate_dpl :: "interrupt_descriptor \<Rightarrow> u8" where
  "gate_dpl g = drop_bit 5 (flags g) AND 3"

text \<open>Type \<open>0xE\<close>, a 64-bit interrupt gate.\<close>

definition gate_type :: "interrupt_descriptor \<Rightarrow> u8" where
  "gate_type g = flags g AND 0x1F"

definition gate_ok :: "u64 \<Rightarrow> u8 \<Rightarrow> interrupt_descriptor \<Rightarrow> bool" where
  "gate_ok addr dpl g \<longleftrightarrow>
     gate_address g = addr \<and> gate_present g \<and> gate_dpl g = dpl \<and> gate_type g = 0xE \<and> selector g = 0x28 \<and> ist g = 0 \<and> reserved g = 0"

lemma gate_flags:
  assumes "dpl < 4"
  shows "bit (0xE OR push_bit 5 (dpl AND 3) OR push_bit 7 1 :: u8) 7"
    "drop_bit 5 (0xE OR push_bit 5 (dpl AND 3) OR push_bit 7 1 :: u8) AND 3 = dpl"
    "(0xE OR push_bit 5 (dpl AND 3) OR push_bit 7 1 :: u8) AND 0x1F = 0xE"
proof -
  have "unat dpl < 4" using assms by (simp add: word_less_nat_alt)
  then have "unat dpl = 0 \<or> unat dpl = 1 \<or> unat dpl = 2 \<or> unat dpl = 3" by linarith
  then have "dpl = 0 \<or> dpl = 1 \<or> dpl = 2 \<or> dpl = 3" by (auto simp: word_unat_eq_iff)
  then show "bit (0xE OR push_bit 5 (dpl AND 3) OR push_bit 7 1 :: u8) 7"
    "drop_bit 5 (0xE OR push_bit 5 (dpl AND 3) OR push_bit 7 1 :: u8) AND 3 = dpl"
    "(0xE OR push_bit 5 (dpl AND 3) OR push_bit 7 1 :: u8) AND 0x1F = 0xE"
    by auto
qed

lemma set_interrupt_descriptor_gate:
  assumes "unat v < length table" and "dpl < 4"
  shows "gate_ok addr dpl (set_interrupt_descriptor v addr dpl table ! unat v)"
proof -
  have m: "(0xffff :: u64) = mask 16" "(0xffffffff :: u64) = mask 32"
    by (simp_all add: mask_eq_exp_minus_1)
  have "gate_address (set_interrupt_descriptor v addr dpl table ! unat v) = addr"
  proof (rule bit_word_eqI)
    fix n assume "n < LENGTH(64)"
    then have n: "n < 64" by simp
    then consider "n < 16" | "16 \<le> n \<and> n < 32" | "32 \<le> n" by linarith
    then show "bit (gate_address (set_interrupt_descriptor v addr dpl table ! unat v)) n = bit addr n"
      by cases (use n assms in \<open>auto simp: gate_address_def set_interrupt_descriptor_def m bit_simps\<close>)
  qed
  then show ?thesis
    using assms gate_flags [OF assms(2)]
    by (simp add: gate_ok_def gate_present_def gate_dpl_def gate_type_def set_interrupt_descriptor_def)
qed

lemma set_interrupt_descriptor_other:
  "n \<noteq> unat v \<Longrightarrow> set_interrupt_descriptor v addr dpl table ! n = table ! n"
  by (simp add: set_interrupt_descriptor_def)

lemma set_interrupt_descriptor_length [simp]: "length (set_interrupt_descriptor v addr dpl table) = length table"
  by (simp add: set_interrupt_descriptor_def)

text \<open>Filling in a list of different vectors.\<close>

lemma set_gates_length [simp]:
  "length (fold (\<lambda>(v, dpl). set_interrupt_descriptor v (stub v) dpl) vs table) = length table"
  by (induction vs arbitrary: table) auto

lemma set_gates_other:
  "n \<notin> (unat \<circ> fst) ` set vs \<Longrightarrow>
   fold (\<lambda>(v, dpl). set_interrupt_descriptor v (stub v) dpl) vs table ! n = table ! n"
  by (induction vs arbitrary: table) (auto simp: set_interrupt_descriptor_other)

lemma set_gates:
  assumes "distinct (map fst vs)" and "(v, dpl) \<in> set vs" and "\<forall>(v, dpl) \<in> set vs. dpl < 4" and "length table = 256"
  shows "gate_ok (stub v) dpl (fold (\<lambda>(v, dpl). set_interrupt_descriptor v (stub v) dpl) vs table ! unat v)"
  using assms
proof (induction vs arbitrary: table)
  case (Cons p vs)
  obtain w d where p: "p = (w, d)" by (cases p)
  show ?case
  proof (cases "(v, dpl) = p")
    case True
    then have "unat v \<notin> (unat \<circ> fst) ` set vs" using Cons.prems(1) p
      by (fastforce simp: word_unat_eq_iff [symmetric] image_iff)
    moreover have "unat v < 256" using unat_bound [of v] by simp
    ultimately show ?thesis
      using True p Cons.prems by (simp add: set_gates_other set_interrupt_descriptor_gate)
  next
    case False
    then have "(v, dpl) \<in> set vs" using Cons.prems(2) by auto
    then show ?thesis using Cons.prems Cons.IH [of "set_interrupt_descriptor w (stub w) d table"] p by simp
  qed
qed simp

subsection \<open>Properties\<close>

text \<open>
  C28. After \<open>idt_init\<close> every vector it lists has a present interrupt gate whose three address
  parts the processor puts together to the address of that vector's stub, with the privilege
  level given and the kernel code selector, and every other vector is as before. The limit
  covers the whole table and interrupts are on.
\<close>

theorem idt_init_gates:
  assumes "length (idt s) = 256"
  shows "(\<forall>(v, dpl) \<in> set idt_vectors. gate_ok (stub v) dpl (idt (idt_init stub a s) ! unat v)) \<and>
    (\<forall>n. n \<notin> (unat \<circ> fst) ` set idt_vectors \<longrightarrow> idt (idt_init stub a s) ! n = idt s ! n) \<and>
    unat (idtr_limit (idt_init stub a s)) + 1 = 16 * length (idt (idt_init stub a s)) \<and>
    idtr_address (idt_init stub a s) = a \<and> interrupts_on (idt_init stub a s)"
proof -
  have "distinct (map fst idt_vectors)" by (simp add: idt_vectors_def)
  moreover have "\<forall>(v, dpl) \<in> set idt_vectors. dpl < 4" by (simp add: idt_vectors_def)
  ultimately show ?thesis
    using assms set_gates [of idt_vectors] set_gates_other [of _ idt_vectors]
    by (auto simp: idt_init_def idt_load_def)
qed

theorem idt_init_gates_witness:
  "gate_ok 0xffffffff80001234 3
     (idt (idt_init (\<lambda>v. 0xffffffff80001234) 0 \<lparr>idt = replicate 256 no_gate, idtr_limit = 0, idtr_address = 0,
        interrupts_on = False, ports = []\<rparr>) ! unat (128 :: u8))"
proof -
  have "(128, 3) \<in> set idt_vectors" by (simp add: idt_vectors_def)
  with idt_init_gates [of "\<lparr>idt = replicate 256 no_gate, idtr_limit = 0, idtr_address = 0, interrupts_on = False, ports = []\<rparr>"
      "\<lambda>v. 0xffffffff80001234" 0]
  show ?thesis by fastforce
qed



text \<open>
  Exceptions never return: with an empty handler table vectors 0 to 15 panic with their
  message, and vectors 16 to 31 read past the sixteen entries of \<open>irq_handlers\<close>, the table that
  \<open>isr_handler\<close> looks in.
\<close>

theorem isr_handler_exceptions:
  assumes "frame_int s frame < 32"
  shows "isr_handler call frame_int (replicate 16 None) frame s =
    (if frame_int s frame < 16 then Inl (Panic (exception_messages ! unat (frame_int s frame))) else Inl Fault)"
  using assms by (simp add: isr_handler_def handler_at_def word_less_nat_alt)

theorem isr_handler_exceptions_witness:
  "isr_handler (\<lambda>h f s. Inr (f, s)) (\<lambda>s f. 14) (replicate 16 None) 0 () = Inl (Panic ''Page Fault'')"
  using isr_handler_exceptions [of "\<lambda>s f. 14" "()" 0 "\<lambda>h f s. Inr (f, s)"] by (simp add: exception_messages_def)

end
