(* ===== verification/Scheduler.thy ===== *)
theory Scheduler
  imports Process Idt
begin

text \<open>
  The scheduler (\<open>scheduler.c\<close>), the timer that drives it (\<open>timer.c\<close>) and the end of a process
  (\<open>process.c\<close>). The scheduling loop walks the circular list until it finds a process to run, and
  runs for ever when there is none, so it is a partial function. One visit of the loop's
  \<open>switch\<close> for a live process is \<open>visit\<close>.

  A yield raises the timer's interrupt: the processor and the stub store the registers in a
  frame, whose address and contents are arguments.
\<close>

subsection \<open>Definitions\<close>

definition DEFAULT_PROCESS_RUNNING_QUANTUM :: u16 where
  "DEFAULT_PROCESS_RUNNING_QUANTUM = 3"

definition timer_get_uptime :: "'a proc_state_scheme \<Rightarrow> u64" where
  "timer_get_uptime s = uptime s"

definition scheduler_context_switch :: "u64 \<Rightarrow> 'a proc_state_scheme \<Rightarrow> (u64 \<times> 'a proc_state_scheme) result" where
  "scheduler_context_switch context_ptr s =
     (if process_get_current s = 0 then Inl Fault
      else
        let s = s\<lparr>segments := tss_set_rsp0 (kstack (procs s (process_get_current s))) (segments s)\<rparr>;
            context_ptr = proc_context (procs s (process_get_current s))
        in bindE (process_get_current_vmm s) (\<lambda>vmm. Inr (context_ptr, vmm_switch_pml vmm s)))"

partial_function (option) stay_idle_loop :: "(u64 \<Rightarrow> process) \<Rightarrow> u64 \<Rightarrow> bool option" where
  "stay_idle_loop h process =
     (if process \<noteq> 0 then
        if status (h process) \<noteq> SLEEPING then Some False else stay_idle_loop h (next_process (h process))
      else Some True)"

definition stay_idle :: "(u64 \<Rightarrow> process) \<Rightarrow> u64 \<Rightarrow> bool option" where
  "stay_idle h process = stay_idle_loop h (next_process (h process))"

text \<open>The \<open>switch\<close>: whether to go on scheduling, whether a process was switched, and the new state.\<close>

definition visit ::
  "u64 \<Rightarrow> u64 \<Rightarrow> bool \<Rightarrow> 'a proc_state_scheme \<Rightarrow> bool \<times> bool \<times> 'a proc_state_scheme" where
  "visit context_ptr cur switched s =
     (case status (procs s cur) of
        SPAWNED \<Rightarrow> (False, True, update_process cur (status_update (\<lambda>_. READY)) s)
      | READY \<Rightarrow> (False, True, s)
      | RUNNING \<Rightarrow>
          let s = update_process cur (remaining_quantum_update (\<lambda>q. q - 1)) s;
              s = update_process cur (proc_context_update (\<lambda>_. context_ptr)) s
          in if 0 <s remaining_quantum (procs s cur) then (False, switched, s)
             else (True, True, update_process cur (status_update (\<lambda>_. READY)) s)
      | SLEEPING \<Rightarrow>
          if wake_time (procs s cur) < timer_get_uptime s
          then (False, switched, update_process cur (status_update (\<lambda>_. READY) \<circ> wake_time_update (\<lambda>_. 0)) s)
          else (True, switched, s)
      | DEAD \<Rightarrow> (True, switched, s))"

definition advance :: "u64 \<Rightarrow> u64 \<Rightarrow> 'a proc_state_scheme \<Rightarrow> u64" where
  "advance plist cur s = (if next_process (procs s cur) \<noteq> 0 then next_process (procs s cur) else plist)"

partial_function (option) schedule_loop ::
  "u64 \<Rightarrow> u64 \<Rightarrow> u64 \<Rightarrow> bool \<Rightarrow> 'a proc_state_scheme \<Rightarrow> (u64 \<times> bool \<times> 'a proc_state_scheme) result option" where
  "schedule_loop context_ptr plist cur switched s =
     (if plist = 0 then Some (Inl (Panic ''SCHEDULER ::''))
      else if cur = 0 then Some (Inl Fault)
      else if status (procs s cur) = DEAD then
        case process_delete cur s of
          Inl e \<Rightarrow> Some (Inl e)
        | Inr s \<Rightarrow> schedule_loop context_ptr (process_get_list s) (process_get_current s) True s
      else
        case visit context_ptr cur switched s of (still, switched, s) \<Rightarrow>
          if still then schedule_loop context_ptr plist (advance plist cur s) switched s
          else if pid (procs s cur) = 1 then
            case stay_idle (procs s) cur of None \<Rightarrow> None | Some idle \<Rightarrow> Some (Inr (cur, switched, s))
          else Some (Inr (cur, switched, s)))"

definition schedule :: "u64 \<Rightarrow> 'a proc_state_scheme \<Rightarrow> (u64 \<times> 'a proc_state_scheme) result" where
  "schedule context_ptr s =
     (let plist = process_get_list s in
      if plist = 0 then Inl (Panic ''SCHEDULER ::'')
      else
        let (cur, s) = (if process_get_current s = 0 then (plist, process_set_current plist s)
                        else (process_get_current s, s))
        in bindE (run_loop (schedule_loop context_ptr plist cur False s)) (\<lambda>(cur, switched, s).
             let s = process_set_current cur s;
                 s = update_process cur (status_update (\<lambda>_. RUNNING)) s
             in if switched then
                  let s = update_process cur (remaining_quantum_update (\<lambda>_. DEFAULT_PROCESS_RUNNING_QUANTUM)) s
                  in scheduler_context_switch (proc_context (procs s (process_get_current s))) s
                else Inr (proc_context (procs s cur), s)))"

definition quantum :: u64 where
  "quantum = 10"

definition timer_handler :: "u64 \<Rightarrow> 'a proc_state_scheme \<Rightarrow> (u64 \<times> 'a proc_state_scheme) result" where
  "timer_handler frame s = schedule frame (s\<lparr>uptime := uptime s + quantum\<rparr>)"

definition CH0_DATA :: u16 where "CH0_DATA = 0x40"
definition MODE_CMD :: u16 where "MODE_CMD = 0x43"

definition timer_init :: "'h \<Rightarrow> 'h option list \<Rightarrow> io_trace \<Rightarrow> ('h option list \<times> io_trace) result" where
  "timer_init handler irq_handlers tr =
     bindE (irq_install_handler 0 handler irq_handlers) (\<lambda>irq_handlers.
       let freq = 100 :: u64; divisor = 1193180 div freq;
           tr = outb MODE_CMD 0x36 tr;
           tr = outb CH0_DATA (ucast divisor AND 0xff) tr;
           tr = outb CH0_DATA (ucast (drop_bit 8 divisor) AND 0xff) tr
       in Inr (irq_handlers, tr))"

definition scheduler_init ::
  "bool \<Rightarrow> device \<Rightarrow> u64 \<Rightarrow> u64 \<Rightarrow> 'a proc_state_scheme \<Rightarrow> 'a proc_state_scheme result" where
  "scheduler_init PROD_MODE dev wrapper process_idle_addr s =
     bindE (process_create PROD_MODE dev wrapper (cstr ''idle process'') process_idle_addr 0 s) (\<lambda>(_, s). Inr s)"

type_synonym 's handler = "u64 \<Rightarrow> 's \<Rightarrow> (u64 \<times> 's) result"

definition update_ports :: "(io_trace \<Rightarrow> io_trace) \<Rightarrow> 'a proc_state_scheme \<Rightarrow> 'a proc_state_scheme" where
  "update_ports f s = s\<lparr>screen := (screen s)\<lparr>serial_line := f (serial_line (screen s))\<rparr>\<rparr>"

definition scheduler_yield ::
  "'a proc_state_scheme handler option list \<Rightarrow> execution_context \<Rightarrow> u64 \<Rightarrow> 'a proc_state_scheme \<Rightarrow>
   (u64 \<times> 'a proc_state_scheme) result" where
  "scheduler_yield irq_handlers regs frame s =
     irq_handler (\<lambda>h. h) (\<lambda>s frame. int_number (frames s frame)) update_ports irq_handlers frame
       (s\<lparr>frames := (frames s)(frame := regs\<lparr>int_number := 0x20\<rparr>)\<rparr>)"

definition process_exit ::
  "'a proc_state_scheme handler option list \<Rightarrow> execution_context \<Rightarrow> u64 \<Rightarrow> 'a proc_state_scheme \<Rightarrow>
   (u64 \<times> 'a proc_state_scheme) result" where
  "process_exit irq_handlers regs frame s =
     (if process_get_current s = 0 then Inl Fault
      else scheduler_yield irq_handlers regs frame (update_process (process_get_current s) (status_update (\<lambda>_. DEAD)) s))"

text \<open>The function that a process runs is an argument, by its effect on the state.\<close>

definition process_execution_wrapper ::
  "'a proc_state_scheme handler option list \<Rightarrow> execution_context \<Rightarrow> u64 \<Rightarrow>
   (u64 \<Rightarrow> 'a proc_state_scheme \<Rightarrow> 'a proc_state_scheme result) \<Rightarrow> u64 \<Rightarrow> 'a proc_state_scheme \<Rightarrow>
   (u64 \<times> 'a proc_state_scheme) result" where
  "process_execution_wrapper irq_handlers regs frame function_ptr arg s =
     bindE (function_ptr arg s) (\<lambda>s. process_exit irq_handlers regs frame s)"

subsection \<open>One round of the loop\<close>

text \<open>A process that the loop passes over, and the effects of preempting and of dispatching one.\<close>

definition sleeper :: "'a proc_state_scheme \<Rightarrow> u64 \<Rightarrow> bool" where
  "sleeper s a \<longleftrightarrow> status (procs s a) = SLEEPING \<and> uptime s \<le> wake_time (procs s a)"

definition woken :: "process \<Rightarrow> process" where
  "woken p = p\<lparr>status := READY, wake_time := (if status p = SLEEPING then 0 else wake_time p)\<rparr>"

definition preempt :: "u64 \<Rightarrow> u64 \<Rightarrow> 'a proc_state_scheme \<Rightarrow> 'a proc_state_scheme" where
  "preempt context_ptr cur s = update_process cur
     (\<lambda>p. p\<lparr>status := READY, remaining_quantum := remaining_quantum p - 1, proc_context := context_ptr\<rparr>) s"

definition dispatch :: "u64 \<Rightarrow> 'a proc_state_scheme \<Rightarrow> 'a proc_state_scheme" where
  "dispatch c s = vmm_switch_pml (proc_vmm (procs s c)) (update_process c
     (\<lambda>p. (woken p)\<lparr>status := RUNNING, remaining_quantum := 3\<rparr>)
     (s\<lparr>current_process := c, segments := tss_set_rsp0 (kstack (procs s c)) (segments s)\<rparr>))"

lemma list_inv_update:
  assumes "\<And>p. next_process (f p) = next_process p"
  shows "list_inv (update_process c f s) ps = list_inv s ps"
proof -
  have "chain ((procs s)(c := f (procs s c))) (processes_list s) ps = chain (procs s) (processes_list s) ps"
    by (rule chain_cong) (simp add: assms)
  then show ?thesis by (simp add: list_inv_def)
qed

lemma chain_drop: "chain h p as \<Longrightarrow> i < length as \<Longrightarrow> chain h (as ! i) (drop i as)"
proof (induction i arbitrary: p "as")
  case 0
  then show ?case by (cases "as") auto
next
  case (Suc i)
  then show ?case by (cases "as") auto
qed

lemma stay_idle_loop_returns: "chain h p as \<Longrightarrow> \<exists>b. stay_idle_loop h p = Some b"
proof (induction "as" arbitrary: p)
  case Nil
  then show ?case by (auto simp: stay_idle_loop.simps [of h 0])
next
  case (Cons a "as")
  then show ?case using Cons.IH [of "next_process (h a)"] by (auto simp: stay_idle_loop.simps [of h a])
qed

lemma stay_idle_returns:
  assumes "list_inv s ps" and "a \<in> set ps"
  shows "\<exists>b. stay_idle (procs s) a = Some b"
proof -
  obtain i where i: "i < length ps" "a = ps ! i" using assms(2) by (metis in_set_conv_nth)
  have "chain (procs s) (ps ! i) (ps ! i # drop (Suc i) ps)"
    using chain_drop [of "procs s" "processes_list s" ps i] assms(1) i by (simp add: list_inv_def Cons_nth_drop_Suc)
  then show ?thesis using stay_idle_loop_returns i by (auto simp: stay_idle_def)
qed

lemma advance_index:
  assumes "list_inv s ps" and "i < length ps"
  shows "advance (processes_list s) (ps ! i) s = ps ! (Suc i mod length ps)"
proof -
  have c: "chain (procs s) (processes_list s) ps" using assms(1) by (simp add: list_inv_def)
  have n: "next_process (procs s (ps ! i)) = (if Suc i < length ps then ps ! Suc i else 0)" by (rule chain_next [OF c assms(2)])
  show ?thesis
  proof (cases "Suc i < length ps")
    case True
    then have "ps ! Suc i \<noteq> 0" using chain_nonzero [OF c] nth_mem by metis
    then show ?thesis using True n by (simp add: advance_def)
  next
    case False
    then have "Suc i = length ps" using assms(2) by simp
    then show ?thesis using n chain_head [OF c] by (cases ps) (simp_all add: advance_def)
  qed
qed

lemma list_inv_nonzero: "list_inv s ps \<Longrightarrow> a \<in> set ps \<Longrightarrow> a \<noteq> 0 \<and> processes_list s \<noteq> 0"
  using chain_nonzero [of "procs s" "processes_list s" ps] chain_head [of "procs s" "processes_list s" ps]
  by (cases ps) (auto simp: list_inv_def)

lemma schedule_loop_stop:
  assumes inv: "list_inv s ps" and a: "a \<in> set ps" "status (procs s a) \<noteq> DEAD"
    and v: "visit context_ptr a sw s = (False, sw', t)" and t: "list_inv t ps"
  shows "schedule_loop context_ptr (processes_list s) a sw s = Some (Inr (a, sw', t))"
  using list_inv_nonzero [OF inv a(1)] a(2) v stay_idle_returns [OF t a(1)]
  by (subst schedule_loop.simps) (auto split: option.split)

lemma schedule_loop_step:
  assumes inv: "list_inv s ps" and i: "i < length ps" "status (procs s (ps ! i)) \<noteq> DEAD"
    and v: "visit context_ptr (ps ! i) sw s = (True, sw', t)" and t: "list_inv t ps" "processes_list t = processes_list s"
  shows "schedule_loop context_ptr (processes_list s) (ps ! i) sw s =
    schedule_loop context_ptr (processes_list t) (ps ! (Suc i mod length ps)) sw' t"
  using list_inv_nonzero [OF inv, of "ps ! i"] i v advance_index [OF t(1) i(1)] t(2)
  by (subst schedule_loop.simps) simp

lemma visit_runnable:
  assumes "status (procs s c) \<noteq> DEAD" and "status (procs s c) \<noteq> RUNNING" and "\<not> sleeper s c"
  shows "visit context_ptr c sw s = (False, sw \<or> status (procs s c) \<noteq> SLEEPING, update_process c woken s)"
proof (cases "status (procs s c)")
  case READY
  then have "woken (procs s c) = procs s c" by (simp add: woken_def)
  then show ?thesis using READY by (simp add: visit_def update_process_def)
qed (use assms in \<open>auto simp: visit_def update_process_def woken_def sleeper_def timer_get_uptime_def fun_eq_iff\<close>)

lemma schedule_loop_sleepers:
  assumes inv: "list_inv s ps" and i: "i < length ps" and sl: "\<forall>j<k. sleeper s (ps ! ((i + j) mod length ps))"
  shows "schedule_loop context_ptr (processes_list s) (ps ! i) sw s =
    schedule_loop context_ptr (processes_list s) (ps ! ((i + k) mod length ps)) sw s"
  using sl
proof (induction k)
  case 0
  then show ?case using i by simp
next
  case (Suc k)
  let ?a = "(i + k) mod length ps"
  have a: "?a < length ps" by (rule mod_less_divisor) (use i in linarith)
  have sl: "sleeper s (ps ! ?a)" using Suc.prems by simp
  then have v: "visit context_ptr (ps ! ?a) sw s = (True, sw, s)" and d: "status (procs s (ps ! ?a)) \<noteq> DEAD"
    by (auto simp: visit_def sleeper_def timer_get_uptime_def)
  have "Suc ?a mod length ps = (i + Suc k) mod length ps" by (simp add: mod_Suc_eq)
  then show ?case using Suc schedule_loop_step [OF inv a d v inv refl] by simp
qed

lemma schedule_loop_find:
  assumes inv: "list_inv s ps" and i: "i < length ps" and f: "find (\<lambda>a. \<not> sleeper s a) (rotate i ps) = Some c"
  shows "schedule_loop context_ptr (processes_list s) (ps ! i) sw s = schedule_loop context_ptr (processes_list s) c sw s"
    and "c \<in> set ps" and "\<not> sleeper s c"
proof -
  obtain k where k: "k < length ps" "\<not> sleeper s (rotate i ps ! k)" "c = rotate i ps ! k" "\<forall>j<k. sleeper s (rotate i ps ! j)"
    using f by (auto simp: find_Some_iff)
  then show "\<not> sleeper s c" by simp
  have n: "rotate i ps ! j = ps ! ((i + j) mod length ps)" if "j < length ps" for j using that by (rule nth_rotate)
  then have "\<forall>j<k. sleeper s (ps ! ((i + j) mod length ps))" using k(1,4) by auto
  from schedule_loop_sleepers [OF inv i this] show
    "schedule_loop context_ptr (processes_list s) (ps ! i) sw s = schedule_loop context_ptr (processes_list s) c sw s"
    using k(1,3) n by simp
  show "c \<in> set ps" using k(1,3) nth_mem [of k "rotate i ps"] by simp
qed

subsection \<open>The choice of the next process\<close>

lemma schedule_finish:
  assumes "process_get_current s \<noteq> 0" and "processes_list s \<noteq> 0" and "c \<noteq> 0"
    and "schedule_loop context_ptr (processes_list s) (current_process s) False s = Some (Inr (c, True, update_process c woken u))"
  shows "schedule context_ptr s = Inr (proc_context (procs u c), dispatch c u)"
  using assms
  by (simp add: schedule_def run_loop_def process_get_list_def process_get_current_def process_set_current_def
      scheduler_context_switch_def process_get_current_vmm_def dispatch_def update_process_def vmm_switch_pml_def
      get_hhdm_def woken_def DEFAULT_PROCESS_RUNNING_QUANTUM_def Let_def)

text \<open>One process runs, none is dead.\<close>

definition sched_inv :: "'a proc_state_scheme \<Rightarrow> u64 list \<Rightarrow> nat \<Rightarrow> bool" where
  "sched_inv s ps i \<longleftrightarrow> list_inv s ps \<and> i < length ps \<and> current_process s = ps ! i \<and> status (procs s (ps ! i)) = RUNNING \<and>
     (\<forall>a \<in> set ps. a \<noteq> ps ! i \<longrightarrow> status (procs s a) \<noteq> RUNNING \<and> status (procs s a) \<noteq> DEAD)"

lemma preempt_simps [simp]:
  "procs (preempt context_ptr c s) = (procs s)(c := (procs s c)\<lparr>status := READY,
     remaining_quantum := remaining_quantum (procs s c) - 1, proc_context := context_ptr\<rparr>)"
  "processes_list (preempt context_ptr c s) = processes_list s" "current_process (preempt context_ptr c s) = current_process s"
  "uptime (preempt context_ptr c s) = uptime s"
  by (simp_all add: preempt_def)

lemma dispatch_simps [simp]:
  "procs (dispatch c s) = (procs s)(c := (woken (procs s c))\<lparr>status := RUNNING, remaining_quantum := 3\<rparr>)"
  "processes_list (dispatch c s) = processes_list s" "current_process (dispatch c s) = c" "uptime (dispatch c s) = uptime s"
  "frames (dispatch c s) = frames s" "mem (dispatch c s) = mem s" "rsp0 (tss_instance (segments (dispatch c s))) = kstack (procs s c)"
  "cr3 (dispatch c s) = vmm_pml (mem s) (proc_vmm (procs s c)) - hhdm_offset s"
  by (simp_all add: dispatch_def update_process_def vmm_switch_pml_def tss_set_rsp0_def get_hhdm_def)

lemma preempt_list_inv [simp]: "list_inv (preempt context_ptr c s) ps = list_inv s ps"
  unfolding preempt_def by (rule list_inv_update) simp

lemma woken_list_inv [simp]: "list_inv (update_process c woken s) ps = list_inv s ps"
  by (rule list_inv_update) (simp add: woken_def)

lemma dispatch_list_inv [simp]: "list_inv (dispatch c s) ps = list_inv s ps"
proof -
  have "list_inv (dispatch c s) ps = list_inv (update_process c (\<lambda>p. (woken p)\<lparr>status := RUNNING, remaining_quantum := 3\<rparr>) s) ps"
    by (simp add: list_inv_def)
  also have "\<dots> = list_inv s ps" by (rule list_inv_update) (simp add: woken_def)
  finally show ?thesis .
qed

lemma schedule_expired:
  assumes inv: "sched_inv s ps i" and q: "\<not> 0 <s remaining_quantum (procs s (ps ! i)) - 1"
  shows "\<exists>c. find (\<lambda>a. \<not> sleeper s a) (rotate (Suc i) ps) = Some c \<and> c \<in> set ps \<and>
    schedule context_ptr s = Inr (proc_context (procs (preempt context_ptr (ps ! i) s) c), dispatch c (preempt context_ptr (ps ! i) s))"
proof -
  let ?u = "preempt context_ptr (ps ! i) s" and ?i = "Suc i mod length ps"
  have l: "list_inv s ps" and i: "i < length ps" "current_process s = ps ! i" "status (procs s (ps ! i)) = RUNNING"
    and others: "\<And>a. a \<in> set ps \<Longrightarrow> a \<noteq> ps ! i \<Longrightarrow> status (procs s a) \<noteq> RUNNING \<and> status (procs s a) \<noteq> DEAD"
    using inv by (auto simp: sched_inv_def)
  have cur: "ps ! i \<in> set ps" using i(1) by simp
  have sl: "sleeper ?u a = sleeper s a" for a using i(3) by (simp add: sleeper_def)
  have "\<not> sleeper s (ps ! i)" using i(3) by (simp add: sleeper_def)
  then have "find (\<lambda>a. \<not> sleeper s a) (rotate (Suc i) ps) \<noteq> None" using cur by (auto simp: find_None_iff)
  then obtain c where c: "find (\<lambda>a. \<not> sleeper s a) (rotate (Suc i) ps) = Some c" by blast
  have "rotate (Suc i) ps = rotate ?i ps" by (rule rotate_conv_mod)
  then have c': "find (\<lambda>a. \<not> sleeper ?u a) (rotate ?i ps) = Some c" using c by (simp add: sl)
  have lu: "list_inv ?u ps" using l by simp
  have i': "?i < length ps" by (rule mod_less_divisor) (use i(1) in linarith)
  note f = schedule_loop_find [OF lu i' c']
  have "visit context_ptr (ps ! i) False s = (True, True, ?u)"
    using i(3) q by (cases "procs s (ps ! i)") (simp add: visit_def preempt_def update_process_def Let_def)
  then have 1: "schedule_loop context_ptr (processes_list s) (ps ! i) False s = schedule_loop context_ptr (processes_list ?u) (ps ! ?i) True ?u"
    using i l by (intro schedule_loop_step) simp_all
  have st: "status (procs ?u c) \<noteq> DEAD" "status (procs ?u c) \<noteq> RUNNING" using others [of c] f(2) by auto
  have "schedule_loop context_ptr (processes_list ?u) c True ?u = Some (Inr (c, True, update_process c woken ?u))"
    using visit_runnable [OF st f(3), of context_ptr True] lu f(2) st(1) by (intro schedule_loop_stop) simp_all
  then have "schedule_loop context_ptr (processes_list s) (current_process s) False s = Some (Inr (c, True, update_process c woken ?u))"
    using 1 f(1) [of context_ptr True] i(2) by simp
  moreover have "c \<noteq> 0" "processes_list s \<noteq> 0" "process_get_current s \<noteq> 0"
    using list_inv_nonzero [OF l f(2)] list_inv_nonzero [OF l cur] i(2) by (simp_all add: process_get_current_def)
  ultimately have "schedule context_ptr s = Inr (proc_context (procs ?u c), dispatch c ?u)" by (intro schedule_finish)
  then show ?thesis using c f(2) by blast
qed

lemma schedule_keeps:
  assumes inv: "sched_inv s ps i" and q: "0 <s remaining_quantum (procs s (ps ! i)) - 1"
  shows "schedule context_ptr s = Inr (context_ptr, update_process (ps ! i)
    (\<lambda>p. p\<lparr>remaining_quantum := remaining_quantum p - 1, proc_context := context_ptr\<rparr>) s)"
proof -
  let ?f = "\<lambda>p. p\<lparr>remaining_quantum := remaining_quantum p - 1, proc_context := context_ptr\<rparr>"
  let ?u = "update_process (ps ! i) ?f s"
  have l: "list_inv s ps" and i: "i < length ps" "current_process s = ps ! i" "status (procs s (ps ! i)) = RUNNING"
    using inv by (auto simp: sched_inv_def)
  have cur: "ps ! i \<in> set ps" using i(1) by simp
  have "list_inv ?u ps = list_inv s ps" by (rule list_inv_update) simp
  then have lu: "list_inv ?u ps" using l by simp
  have v: "visit context_ptr (ps ! i) False s = (False, False, ?u)"
    using i(3) q by (cases "procs s (ps ! i)") (simp add: visit_def update_process_def Let_def)
  have "schedule_loop context_ptr (processes_list s) (ps ! i) False s = Some (Inr (ps ! i, False, ?u))"
    using schedule_loop_stop [OF l cur _ v lu] i(3) by simp
  moreover have "ps ! i \<noteq> 0" "processes_list s \<noteq> 0" using list_inv_nonzero [OF l cur] by simp_all
  moreover have "update_process (ps ! i) (status_update (\<lambda>_. RUNNING)) (?u\<lparr>current_process := ps ! i\<rparr>) = ?u"
    using i(2,3) by (cases s; cases "procs s (ps ! i)") (auto simp: update_process_def)
  ultimately show ?thesis
    using i(2) by (simp add: schedule_def run_loop_def process_get_list_def process_get_current_def process_set_current_def Let_def)
qed

lemma sched_inv_dispatch:
  assumes inv: "sched_inv s ps i" and c: "c \<in> set ps"
  shows "\<exists>j. sched_inv (dispatch c (preempt context_ptr (ps ! i) s)) ps j \<and> ps ! j = c"
proof -
  obtain j where j: "j < length ps" "ps ! j = c" using c by (metis in_set_conv_nth)
  then have "sched_inv (dispatch c (preempt context_ptr (ps ! i) s)) ps j" using inv by (auto simp: sched_inv_def woken_def)
  then show ?thesis using j by blast
qed

lemma schedule_loop_all_asleep:
  assumes "list_inv s ps" and "plist = processes_list s" and "cur \<in> set ps" and "\<forall>a \<in> set ps. sleeper s a"
  shows "schedule_loop context_ptr plist cur sw s = None"
proof (rule ccontr)
  assume "schedule_loop context_ptr plist cur sw s \<noteq> None"
  then obtain r where r: "schedule_loop context_ptr plist cur sw s = Some r" by blast
  have "\<not> (list_inv s ps \<and> plist = processes_list s \<and> cur \<in> set ps \<and> (\<forall>a \<in> set ps. sleeper s a))"
  proof (rule schedule_loop.raw_induct [where P = "\<lambda>context_ptr plist cur sw s r.
      \<not> (list_inv s ps \<and> plist = processes_list s \<and> cur \<in> set ps \<and> (\<forall>a \<in> set ps. sleeper s a))", OF _ r])
    fix f and context_ptr plist cur :: u64 and sw and s :: "'a proc_state_scheme" and r
    assume IH: "\<And>context_ptr plist cur sw s r. f context_ptr plist cur sw s = Some r \<Longrightarrow>
        \<not> (list_inv s ps \<and> plist = processes_list s \<and> cur \<in> set ps \<and> (\<forall>a \<in> set ps. sleeper s a))"
      and eq: "(if plist = 0 then Some (Inl (Panic ''SCHEDULER ::''))
      else if cur = 0 then Some (Inl Fault)
      else if status (procs s cur) = DEAD then
        case process_delete cur s of
          Inl e \<Rightarrow> Some (Inl e)
        | Inr s \<Rightarrow> f context_ptr (process_get_list s) (process_get_current s) True s
      else
        case visit context_ptr cur sw s of (still, switched, s) \<Rightarrow>
          if still then f context_ptr plist (advance plist cur s) switched s
          else if pid (procs s cur) = 1 then
            case stay_idle (procs s) cur of None \<Rightarrow> None | Some idle \<Rightarrow> Some (Inr (cur, switched, s))
          else Some (Inr (cur, switched, s))) = Some r"
    show "\<not> (list_inv s ps \<and> plist = processes_list s \<and> cur \<in> set ps \<and> (\<forall>a \<in> set ps. sleeper s a))"
    proof
      assume a: "list_inv s ps \<and> plist = processes_list s \<and> cur \<in> set ps \<and> (\<forall>a \<in> set ps. sleeper s a)"
      then have "sleeper s cur" by blast
      then have v: "visit context_ptr cur sw s = (True, sw, s)" "status (procs s cur) \<noteq> DEAD"
        by (auto simp: visit_def sleeper_def timer_get_uptime_def)
      obtain i where i: "i < length ps" "cur = ps ! i" using a by (metis in_set_conv_nth)
      have n0: "0 < length ps" using i(1) by linarith
      have "advance plist cur s \<in> set ps" using advance_index [OF _ i(1), of s] a i(2) n0 by simp
      moreover have "f context_ptr plist (advance plist cur s) sw s = Some r"
        using eq v list_inv_nonzero [of s ps cur] a by simp
      ultimately show False using IH a by blast
    qed
  qed
  then show False using assms by blast
qed

text \<open>The dead current process is deleted and the search goes on at its successor.\<close>

lemma schedule_dead:
  fixes s :: "'a proc_state_scheme"
  assumes inv: "proc_inv s (as @ p # bs)" and cur: "current_process s = p" "status (procs s p) = DEAD"
    and others: "\<And>a. a \<in> set (as @ bs) \<Longrightarrow> status (procs s a) \<noteq> RUNNING \<and> status (procs s a) \<noteq> DEAD"
    and c: "find (\<lambda>a. \<not> sleeper s a) (bs @ as) = Some c"
  shows "\<exists>u. schedule context_ptr s = Inr (proc_context (procs s c), dispatch c u) \<and> proc_inv (dispatch c u) (as @ bs) \<and>
    same_fields (procs s) (procs u) UNIV \<and> c \<in> set (as @ bs) \<and> frames u = frames s"
proof -
  have l: "list_inv s (as @ p # bs)" using inv by (simp add: proc_inv_def)
  have p0: "p \<noteq> 0" "processes_list s \<noteq> 0" using list_inv_nonzero [OF l, of p] by auto
  obtain u where u: "process_delete p s = Inr u" "proc_inv u (remove1 p (as @ p # bs))" "same_fields (procs s) (procs u) UNIV"
    "procs u p = procs s p" "current_process u = (if next_process (procs u p) \<noteq> 0 then next_process (procs u p) else processes_list u)"
    "frames u = frames s" "uptime u = uptime s"
    using process_delete_eq [OF inv, of p] cur p0 by auto
  have r: "remove1 p (as @ p # bs) = as @ bs" using l by (simp add: list_inv_def remove1_append)
  let ?ps = "as @ bs" and ?i = "length as mod length (as @ bs)"
  have lu: "list_inv u ?ps" using u(2) r by (simp add: proc_inv_def)
  have ne: "?ps \<noteq> []" using c by (cases "bs @ as") auto
  then have i: "?i < length ?ps" by (intro mod_less_divisor) simp
  have same: "status (procs u a) = status (procs s a)" "wake_time (procs u a) = wake_time (procs s a)"
    "proc_context (procs u a) = proc_context (procs s a)" for a
    using u(3) unfolding same_fields_def by (metis UNIV_I process.select_convs process.update_convs process.surjective)+
  have sl: "sleeper u a = sleeper s a" for a by (simp add: sleeper_def same u(7))
  have "rotate ?i ?ps = rotate (length as) ?ps" by (rule rotate_conv_mod [symmetric])
  then have c': "find (\<lambda>a. \<not> sleeper u a) (rotate ?i ?ps) = Some c" using c by (simp add: sl rotate_append)
  note f = schedule_loop_find [OF lu i c']
  have ch: "chain (procs s) (processes_list s) (as @ p # bs)" using l by (simp add: list_inv_def)
  have nx: "next_process (procs s p) = (case bs of [] \<Rightarrow> 0 | b # _ \<Rightarrow> b)" "0 \<notin> set bs"
    using chain_next [OF ch, of "length as"] chain_nonzero [OF ch] by (auto simp: nth_append split: list.split)
  have "processes_list u = (case ?ps of [] \<Rightarrow> 0 | a # _ \<Rightarrow> a)"
    using lu by (intro chain_head [of "procs u"]) (simp add: list_inv_def)
  then have cu: "current_process u = ?ps ! ?i" using u(4,5) nx ne by (cases bs; cases "as") (auto simp: nth_append)
  have st: "status (procs u c) \<noteq> DEAD" "status (procs u c) \<noteq> RUNNING" using others f(2) same by auto
  have "schedule_loop context_ptr (processes_list u) c True u = Some (Inr (c, True, update_process c woken u))"
    using visit_runnable [OF st f(3), of context_ptr True] lu f(2) st(1) by (intro schedule_loop_stop) simp_all
  then have "schedule_loop context_ptr (processes_list s) (current_process s) False s = Some (Inr (c, True, update_process c woken u))"
    using f(1) [of context_ptr True] cur p0 u(1) cu
    by (subst schedule_loop.simps) (simp add: process_get_list_def process_get_current_def)
  then have "schedule context_ptr s = Inr (proc_context (procs u c), dispatch c u)"
    using cur p0 list_inv_nonzero [OF lu f(2)] by (intro schedule_finish) (simp_all add: process_get_current_def)
  moreover have "heap_inv (dispatch c u) B = heap_inv u B" for B
    by (rule heap_inv_cong) (simp add: memory_part_def dispatch_def update_process_def vmm_switch_pml_def)
  then have "proc_inv (dispatch c u) ?ps" using u(2) r by (simp add: proc_inv_def)
  ultimately show ?thesis using same u(3,6) f(2) by auto
qed

subsection \<open>Timer ticks\<close>

text \<open>A sequence of timer interrupts, each with the frame in which the stub saved the registers.\<close>

fun ticks :: "u64 list \<Rightarrow> 'a proc_state_scheme \<Rightarrow> 'a proc_state_scheme result" where
  "ticks [] s = Inr s"
| "ticks (f # fs) s = bindE (timer_handler f s) (\<lambda>(_, s). ticks fs s)"

lemma ticks_append: "ticks (fs @ gs) s = bindE (ticks fs s) (ticks gs)"
  by (induction fs arbitrary: s) (auto simp: bindE_def split: sum.splits prod.splits)

definition busy_inv :: "'a proc_state_scheme \<Rightarrow> u64 list \<Rightarrow> nat \<Rightarrow> nat \<Rightarrow> bool" where
  "busy_inv s ps i q \<longleftrightarrow> sched_inv s ps i \<and> remaining_quantum (procs s (ps ! i)) = of_nat q \<and> 0 < q \<and> q \<le> 3 \<and>
     (\<forall>a \<in> set ps. status (procs s a) \<noteq> SLEEPING)"

lemma sched_inv_uptime [simp]: "sched_inv (s\<lparr>uptime := x\<rparr>) ps i = sched_inv s ps i"
  by (simp add: sched_inv_def list_inv_def)

lemma busy_tick_keep:
  assumes inv: "busy_inv s ps i q" and q: "1 < q"
  shows "\<exists>g t. timer_handler f s = Inr (g, t) \<and> busy_inv t ps i (q - 1)"
proof -
  let ?s = "s\<lparr>uptime := uptime s + quantum\<rparr>"
  let ?f = "\<lambda>p. p\<lparr>remaining_quantum := remaining_quantum p - 1, proc_context := f\<rparr>"
  have i: "sched_inv ?s ps i" using inv by (simp add: busy_inv_def)
  have "q = 2 \<or> q = 3" using inv q by (auto simp: busy_inv_def)
  then have r: "0 <s remaining_quantum (procs ?s (ps ! i)) - 1" "remaining_quantum (procs s (ps ! i)) - 1 = of_nat (q - 1)"
    using inv by (auto simp: busy_inv_def word_sless_alt)
  have "list_inv (update_process (ps ! i) ?f ?s) ps = list_inv ?s ps" by (rule list_inv_update) simp
  then have "busy_inv (update_process (ps ! i) ?f ?s) ps i (q - 1)"
    using inv q r by (auto simp: busy_inv_def sched_inv_def list_inv_def)
  then show ?thesis using schedule_keeps [OF i r(1)] by (auto simp: timer_handler_def)
qed

lemma busy_tick_next:
  assumes inv: "busy_inv s ps i 1"
  shows "\<exists>g t. timer_handler f s = Inr (g, t) \<and> busy_inv t ps (Suc i mod length ps) 3"
proof -
  let ?s = "s\<lparr>uptime := uptime s + quantum\<rparr>" and ?i = "Suc i mod length ps"
  have i: "sched_inv ?s ps i" and r: "\<not> 0 <s remaining_quantum (procs ?s (ps ! i)) - 1"
    and aw: "\<forall>a \<in> set ps. status (procs s a) \<noteq> SLEEPING" and len: "i < length ps" and d: "distinct ps"
    using inv by (auto simp: busy_inv_def sched_inv_def list_inv_def word_sless_alt)
  from schedule_expired [OF i r, of f] obtain c where c: "find (\<lambda>a. \<not> sleeper ?s a) (rotate (Suc i) ps) = Some c" "c \<in> set ps"
    "schedule f ?s = Inr (proc_context (procs (preempt f (ps ! i) ?s) c), dispatch c (preempt f (ps ! i) ?s))" by blast
  have i': "?i < length ps" by (rule mod_less_divisor) (use len in linarith)
  have n0: "0 < length (rotate (Suc i) ps)" using len by (metis length_rotate less_nat_zero_code neq0_conv)
  then have "rotate (Suc i) ps = ps ! ?i # tl (rotate (Suc i) ps)"
    using nth_rotate [of 0 ps "Suc i"] by (cases "rotate (Suc i) ps") simp_all
  moreover have "\<not> sleeper ?s (ps ! ?i)" using aw i' by (simp add: sleeper_def)
  ultimately have "c = ps ! ?i" using c(1) by (metis find.simps(2) option.inject)
  moreover obtain j where j: "sched_inv (dispatch c (preempt f (ps ! i) ?s)) ps j" "ps ! j = c"
    using sched_inv_dispatch [OF i c(2)] by blast
  ultimately have "j = ?i" using d i' by (auto simp: sched_inv_def nth_eq_iff_index_eq)
  then have "busy_inv (dispatch c (preempt f (ps ! i) ?s)) ps ?i 3" using j aw by (auto simp: busy_inv_def woken_def)
  then show ?thesis using c(3) by (auto simp: timer_handler_def)
qed

lemma busy_ticks:
  assumes "busy_inv s ps i q" and "length fs = q"
  shows "\<exists>t. ticks fs s = Inr t \<and> busy_inv t ps (Suc i mod length ps) 3"
  using assms
proof (induction fs arbitrary: s q)
  case Nil
  then show ?case by (simp add: busy_inv_def)
next
  case (Cons f fs)
  show ?case
  proof (cases "fs = []")
    case True
    then have "busy_inv s ps i 1" using Cons.prems by simp
    from busy_tick_next [OF this, of f] show ?thesis using True by auto
  next
    case False
    then have "1 < q" using Cons.prems(2) by (cases fs) auto
    from busy_tick_keep [OF Cons.prems(1) this, of f] obtain g t where t: "timer_handler f s = Inr (g, t)" "busy_inv t ps i (q - 1)"
      by blast
    from Cons.IH [OF t(2)] Cons.prems(2) show ?thesis using t(1) by auto
  qed
qed

lemma busy_rounds:
  assumes "busy_inv s ps i q" and "length fs = q + 3 * d"
  shows "\<exists>t. ticks fs s = Inr t \<and> busy_inv t ps ((i + Suc d) mod length ps) 3"
  using assms(2)
proof (induction d arbitrary: fs)
  case 0
  then show ?case using busy_ticks [OF assms(1)] by simp
next
  case (Suc d)
  let ?m = "q + 3 * d"
  obtain t where t: "ticks (take ?m fs) s = Inr t" "busy_inv t ps ((i + Suc d) mod length ps) 3"
    using Suc.IH [of "take ?m fs"] Suc.prems by auto
  have "length (drop ?m fs) = 3" using Suc.prems by simp
  from busy_ticks [OF t(2) this] obtain u where u: "ticks (drop ?m fs) t = Inr u"
    "busy_inv u ps (Suc ((i + Suc d) mod length ps) mod length ps) 3" by blast
  have "ticks fs s = Inr u" using ticks_append [of "take ?m fs" "drop ?m fs" s] t(1) u(1) by simp
  moreover have "Suc ((i + Suc d) mod length ps) mod length ps = (i + Suc (Suc d)) mod length ps" by (simp add: mod_Suc_eq)
  ultimately show ?case using u(2) by auto
qed

subsection \<open>Properties\<close>


definition sched_demo :: "status_t \<Rightarrow> u16 \<Rightarrow> proc_state" where
  "sched_demo st q = proc_demo\<lparr>procs := (\<lambda>_. zero_process)
       (0x1000 := zero_process\<lparr>pid := 1, status := RUNNING, remaining_quantum := q, next_process := 0x2000\<rparr>,
        0x2000 := zero_process\<lparr>pid := 2, status := st, wake_time := 50, next_process := 0x3000, proc_context := 0x6000\<rparr>,
        0x3000 := zero_process\<lparr>pid := 3, status := READY, proc_context := 0x7000\<rparr>),
     processes_list := 0x1000, current_process := 0x1000\<rparr>"

lemma sched_demo_inv: "st \<noteq> RUNNING \<Longrightarrow> st \<noteq> DEAD \<Longrightarrow> sched_inv (sched_demo st q) [0x1000, 0x2000, 0x3000] 0"
  by (simp add: sched_inv_def list_inv_def sched_demo_def zero_process_def)




text \<open>
  C39. The idle test does not help: when every process of the list is asleep with its wake time not
  yet passed, the scheduler searches for ever, and since it runs inside the timer's interrupt
  the time that would wake them never comes.
\<close>

theorem schedule_hangs:
  assumes "list_inv s ps" and "current_process s \<in> set ps" and "\<forall>a \<in> set ps. sleeper s a"
  shows "schedule context_ptr s = Inl Hang"
proof -
  have "schedule_loop context_ptr (processes_list s) (current_process s) False s = None"
    by (rule schedule_loop_all_asleep [OF assms(1) refl assms(2,3)])
  moreover have "processes_list s \<noteq> 0" "current_process s \<noteq> 0" using list_inv_nonzero [OF assms(1,2)] by simp_all
  ultimately show ?thesis by (simp add: schedule_def run_loop_def process_get_list_def process_get_current_def)
qed

theorem schedule_hangs_witness:
  "schedule 0x5000 (proc_demo\<lparr>procs := (\<lambda>_. zero_process\<lparr>pid := 1, status := SLEEPING, wake_time := 50\<rparr>),
     processes_list := 0x1000, current_process := 0x1000\<rparr>) = Inl Hang"
  by (rule schedule_hangs [of _ "[0x1000]"]) (simp_all add: list_inv_def sleeper_def zero_process_def proc_demo_def)



end
