(* ===== verification/Ustar.thy ===== *)
theory Ustar
  imports Scheduler
begin

text \<open>
  The tar file system, \<open>fs/ustar.c\<close>. The archive is in memory; a header is read through its
  address at the offsets of \<open>tar_header_t\<close>: the name at 0, the size in octal at 124, the name
  prefix at 345, and the contents from byte 512. The open-file table holds pointers to
  descriptors in a typed store. The name buffers of the lookups are uninitialised arrays; what
  they hold is an argument. Walking the archive follows the sizes in it, so it is a partial
  function: a damaged archive can lead back into itself.

  The reference is \<open>archive\<close>, the list of names and contents that the memory holds.
\<close>

subsection \<open>State\<close>

record ustar_file_descriptor =
  ufd_header :: u64
  references :: u16
  ufd_size :: u64

definition MAX_USTAR_OPEN_FILES :: nat where
  "MAX_USTAR_OPEN_FILES = 512"

record ustar_state = proc_state +
  tar_fs_start_address :: u64
  open_files :: "u64 list"
  ustar_files :: "u64 \<Rightarrow> ustar_file_descriptor"

definition header_name :: "memory \<Rightarrow> u64 \<Rightarrow> cstring" where
  "header_name m h = mem_cstr m h"

definition header_size :: "memory \<Rightarrow> u64 \<Rightarrow> cstring" where
  "header_size m h = mem_cstr m (h + 124)"

definition header_prefix :: "memory \<Rightarrow> u64 \<Rightarrow> cstring" where
  "header_prefix m h = mem_cstr m (h + 345)"

subsection \<open>Names\<close>

text \<open>\<open>kstrcpy(tar_filename, prefix, 155); kstrcpy(tar_filename + 155, filename, 100)\<close>\<close>

definition copy_parts :: "cstring \<Rightarrow> cstring \<Rightarrow> cstring \<Rightarrow> cstring" where
  "copy_parts dest prefix name =
     (let dest = kstrcpy dest prefix 155; tail = kstrcpy (shift dest 155) name 100
      in (\<lambda>i. if i < 155 then dest i else tail (i - 155)))"

definition slashes :: "cstring \<Rightarrow> cstring" where
  "slashes name i = (if i < 255 \<and> name i = of_char CHR 0x5C then of_char CHR ''/'' else name i)"

definition tar_name :: "memory \<Rightarrow> u64 \<Rightarrow> cstring \<Rightarrow> cstring" where
  "tar_name m h tar_filename =
     slashes (if header_prefix m h 0 \<noteq> 0 then copy_parts tar_filename (header_prefix m h) (header_name m h)
              else kstrcpy tar_filename (header_name m h) 155)"

fun is_zeroed_loop :: "nat \<Rightarrow> memory \<Rightarrow> u64 \<Rightarrow> bool" where
  "is_zeroed_loop 0 m r = True"
| "is_zeroed_loop (Suc n) m r = (if m r \<noteq> 0 then False else is_zeroed_loop n m (r + 1))"

definition is_zeroed :: "memory \<Rightarrow> u64 \<Rightarrow> bool" where
  "is_zeroed m r = is_zeroed_loop 512 m r"

subsection \<open>Lookup\<close>

definition next_record :: "memory \<Rightarrow> u64 \<Rightarrow> u64" where
  "next_record m h =
     (let file_size = oct_ascii_to_dec (header_size m h) 12;
          file_size = (if file_size mod 512 \<noteq> 0 then (file_size div 512 + 1) * 512 else file_size)
      in h + 512 + file_size)"

partial_function (option) lookup_loop :: "memory \<Rightarrow> cstring \<Rightarrow> nat \<Rightarrow> cstring \<Rightarrow> u64 \<Rightarrow> u64 option" where
  "lookup_loop m searched_file zero_counter tar_filename h =
     (if zero_counter < 2 then
        if is_zeroed m h then lookup_loop m searched_file (Suc zero_counter) tar_filename h
        else
          let tar_filename = tar_name m h tar_filename
          in if kstrcmp tar_filename searched_file 256 then Some h
             else lookup_loop m searched_file 0 tar_filename (next_record m h)
      else Some 0)"

definition tar_file_lookup :: "memory \<Rightarrow> u64 \<Rightarrow> cstring \<Rightarrow> cstring \<Rightarrow> u64 option" where
  "tar_file_lookup m start searched_file tar_filename = lookup_loop m searched_file 0 tar_filename start"

text \<open>The prefix lookup returns the next record, whatever its name: the comparison is commented out.\<close>

function prefix_lookup_loop :: "memory \<Rightarrow> nat \<Rightarrow> u64 \<Rightarrow> u64" where
  "prefix_lookup_loop m zero_counter h =
     (if zero_counter < 2 then
        if is_zeroed m h then prefix_lookup_loop m (Suc zero_counter) h else h
      else 0)"
  by pat_completeness auto
termination
  by (relation "measure (\<lambda>(m, zero_counter, h). 2 - zero_counter)") auto

declare prefix_lookup_loop.simps [simp del]

definition tar_file_prefix_lookup :: "memory \<Rightarrow> u64 \<Rightarrow> u64 \<Rightarrow> u64" where
  "tar_file_prefix_lookup m start current_record =
     prefix_lookup_loop m 0 (if current_record = 0 then start else next_record m current_record)"

subsection \<open>Open files\<close>

definition open_name :: "memory \<Rightarrow> u64 \<Rightarrow> cstring" where
  "open_name m h =
     (if header_prefix m h 0 \<noteq> 0 then copy_parts (\<lambda>_. 0) (header_prefix m h) (header_name m h)
      else kstrcpy (\<lambda>_. 0) (header_prefix m h) 155)"

fun already_open_loop :: "memory \<Rightarrow> (u64 \<Rightarrow> ustar_file_descriptor) \<Rightarrow> cstring \<Rightarrow> u64 list \<Rightarrow> u64 \<Rightarrow> u64" where
  "already_open_loop m fds name [] i = - 1"
| "already_open_loop m fds name (p # ps) i =
     (if p \<noteq> 0 \<and> references (fds p) > 0 \<and> kstrcmp (open_name m (ufd_header (fds p))) name 256 then i
      else already_open_loop m fds name ps (i + 1))"

definition is_already_open :: "cstring \<Rightarrow> 'a ustar_state_scheme \<Rightarrow> u64" where
  "is_already_open name s = already_open_loop (mem s) (ustar_files s) name (open_files s) 0"

fun find_open_loop :: "u64 list \<Rightarrow> u64 \<Rightarrow> u64" where
  "find_open_loop [] i = - 1"
| "find_open_loop (p # ps) i = (if p = 0 then i else find_open_loop ps (i + 1))"

definition find_open_id :: "'a ustar_state_scheme \<Rightarrow> u64" where
  "find_open_id s = find_open_loop (open_files s) 0"

text \<open>\<open>sizeof(ustar_file_descriptor)\<close> is 24.\<close>

definition ustar_open :: "cstring \<Rightarrow> cstring \<Rightarrow> u32 \<Rightarrow> 'a ustar_state_scheme \<Rightarrow> (u64 \<times> 'a ustar_state_scheme) result" where
  "ustar_open tar_filename path oflags s =
     (let id = is_already_open path s in
      if - 1 <s id then
        let p = open_files s ! unat id
        in Inr (id, s\<lparr>ustar_files := (ustar_files s)(p := (ustar_files s p)\<lparr>references := references (ustar_files s p) + 1\<rparr>)\<rparr>)
      else
        bindE (of_loop (tar_file_lookup (mem s) (tar_fs_start_address s) path tar_filename)) (\<lambda>header.
          if header = 0 then Inr (- 1, s)
          else
            bindE (kalloc 24 s) (\<lambda>(file_descriptor, s).
              let id = find_open_id s in
              if id = - 1 then Inr (- 1, s)
              else Inr (id, s\<lparr>ustar_files := (ustar_files s)(file_descriptor :=
                       \<lparr>ufd_header = header, references = 1, ufd_size = oct_ascii_to_dec (header_size (mem s) header) 12\<rparr>),
                     open_files := (open_files s)[unat id := file_descriptor]\<rparr>))))"

definition open_file :: "u64 \<Rightarrow> 'a ustar_state_scheme \<Rightarrow> u64 result" where
  "open_file file_id s = (if unat file_id < length (open_files s) then Inr (open_files s ! unat file_id) else Inl Fault)"

function ustar_read_loop :: "u64 \<Rightarrow> u64 \<Rightarrow> u64 \<Rightarrow> u64 \<Rightarrow> u64 \<Rightarrow> u64 \<Rightarrow> memory \<Rightarrow> u64 \<times> memory" where
  "ustar_read_loop sz nbytes offset b content_pointer i m =
     (if i < nbytes \<and> i + offset < sz
      then ustar_read_loop sz nbytes offset (b + 1) (content_pointer + 1) (i + 1) (m(b := m content_pointer))
      else (i, m))"
  by pat_completeness auto
termination
  by (relation "measure (\<lambda>(sz, nbytes, offset, b, c, i, m). unat nbytes - unat i)") (auto simp: word_less_nat_alt)

declare ustar_read_loop.simps [simp del]

definition ustar_read ::
  "u64 \<Rightarrow> u64 \<Rightarrow> u64 \<Rightarrow> u64 \<Rightarrow> 'a ustar_state_scheme \<Rightarrow> (u64 \<times> 'a ustar_state_scheme) result" where
  "ustar_read file_id buffer nbytes offset s =
     bindE (open_file file_id s) (\<lambda>file.
       if file = 0 then Inr (0, s)
       else if offset > ufd_size (ustar_files s file) then Inr (0, s)
       else
         let (i, m) = ustar_read_loop (ufd_size (ustar_files s file)) nbytes offset buffer
                        (ufd_header (ustar_files s file) + 512 + offset) 0 (mem s)
         in Inr (i, s\<lparr>mem := m\<rparr>))"

definition ustar_close :: "u64 \<Rightarrow> 'a ustar_state_scheme \<Rightarrow> (u64 \<times> 'a ustar_state_scheme) result" where
  "ustar_close file_id s =
     bindE (open_file file_id s) (\<lambda>file.
       if file = 0 then Inl Fault
       else
         let s = s\<lparr>ustar_files := (ustar_files s)(file := (ustar_files s file)\<lparr>references := references (ustar_files s file) - 1\<rparr>)\<rparr>
         in if references (ustar_files s file) < 1 then
              bindE (kfree file s) (\<lambda>s. Inr (0, s\<lparr>open_files := (open_files s)[unat file_id := 0]\<rparr>))
            else Inr (0, s))"

definition ustar_set_start_address :: "u64 \<Rightarrow> 'a ustar_state_scheme \<Rightarrow> 'a ustar_state_scheme" where
  "ustar_set_start_address address s = s\<lparr>tar_fs_start_address := address\<rparr>"

definition ustar_get_file_size :: "u64 \<Rightarrow> 'a ustar_state_scheme \<Rightarrow> u64 result" where
  "ustar_get_file_size file_id s =
     bindE (open_file file_id s) (\<lambda>file. if file = 0 then Inl Fault else Inr (ufd_size (ustar_files s file)))"

subsection \<open>Directories\<close>

text \<open>
  Listing works on strings in memory: \<open>empty_str\<close> is the address of the literal that
  \<open>remove_prefix\<close> returns, and the array of found paths starts with what the stack holds.
\<close>

definition skip_slash :: "memory \<Rightarrow> u64 \<Rightarrow> u64" where
  "skip_slash m p = (if m p \<noteq> 0 \<and> m p = of_char CHR ''/'' then p + 1 else p)"

partial_function (option) component_end :: "memory \<Rightarrow> u64 \<Rightarrow> u16 \<Rightarrow> u16 option" where
  "component_end m p index =
     (if m (p + ucast index) \<noteq> 0 \<and> m (p + ucast index) \<noteq> of_char CHR ''/'' then component_end m p (index + 1)
      else Some index)"

definition is_in_same_dir :: "memory \<Rightarrow> u64 \<Rightarrow> u64 \<Rightarrow> (bool \<times> memory) option" where
  "is_in_same_dir m path1 path2 =
     (let path1 = skip_slash m path1; path2 = skip_slash m path2 in
      if m path2 = 0 then Some (False, m)
      else
        Option.bind (component_end m path1 0) (\<lambda>index1.
        let m = m(path1 + ucast index1 := 0) in
        Option.bind (component_end m path2 0) (\<lambda>index2.
        let m = m(path2 + ucast index2 := 0) in
        Some (kstrcmp (mem_cstr m path1) (mem_cstr m path2) 0, m))))"

partial_function (option) skip_common :: "memory \<Rightarrow> u64 \<Rightarrow> u64 \<Rightarrow> u64 option" where
  "skip_common m dest prefix =
     (if m dest = m prefix then
        if m (dest + 1) = 0 \<or> m (prefix + 1) = 0 then Some (dest + 1) else skip_common m (dest + 1) (prefix + 1)
      else Some dest)"

definition remove_prefix :: "memory \<Rightarrow> u64 \<Rightarrow> u64 \<Rightarrow> u64 \<Rightarrow> u64 option" where
  "remove_prefix m empty_str dest prefix =
     (let dest = skip_slash m dest; prefix = skip_slash m prefix in
      if m prefix = 0 then Some dest
      else
        Option.bind (skip_common m dest prefix) (\<lambda>dest.
        if m dest \<noteq> of_char CHR ''/'' then Some empty_str else Some (dest + 1)))"

partial_function (option) string_end :: "memory \<Rightarrow> u64 \<Rightarrow> u64 \<Rightarrow> u64 option" where
  "string_end m iterator length_so_far =
     (if m iterator \<noteq> 0 then string_end m (iterator + 1) (length_so_far + 1) else Some length_so_far)"

definition write_cstr :: "memory \<Rightarrow> u64 \<Rightarrow> nat \<Rightarrow> cstring \<Rightarrow> memory" where
  "write_cstr m p n c x = (if unat (x - p) < n then c (unat (x - p)) else m x)"

partial_function (option) find_duplicate :: "u64 \<Rightarrow> u64 \<Rightarrow> u64 \<Rightarrow> u64 list \<Rightarrow> nat \<Rightarrow> memory \<Rightarrow> (bool \<times> memory) option" where
  "find_duplicate empty_str dir path pathes index m =
     (if index < 50 \<and> pathes ! index \<noteq> 0 then
        Option.bind (remove_prefix m empty_str (pathes ! index) dir) (\<lambda>other.
        Option.bind (is_in_same_dir m path other) (\<lambda>(same, m).
        if same then Some (True, m) else find_duplicate empty_str dir path pathes (Suc index) m))
      else Some (False, m))"

partial_function (option) collect_paths ::
  "u64 \<Rightarrow> u64 \<Rightarrow> u64 \<Rightarrow> u64 list \<Rightarrow> nat \<Rightarrow> 'a ustar_state_scheme \<Rightarrow> (u64 list \<times> 'a ustar_state_scheme) result option" where
  "collect_paths empty_str dir header pathes pathes_len s =
     (let header = tar_file_prefix_lookup (mem s) (tar_fs_start_address s) header in
      if header = 0 then Some (Inr (pathes, s))
      else
        case kalloc 256 s of
          Inl e \<Rightarrow> Some (Inl e)
        | Inr (tar_filename, s) \<Rightarrow>
            let s = s\<lparr>mem := write_cstr (mem s) tar_filename 256 (tar_name (mem s) header (mem_cstr (mem s) tar_filename))\<rparr> in
            Option.bind (remove_prefix (mem s) empty_str tar_filename dir) (\<lambda>path.
            if mem s path = 0 then collect_paths empty_str dir header pathes pathes_len s
            else
              Option.bind (find_duplicate empty_str dir path pathes 0 (mem s)) (\<lambda>(duplicate, m).
              if duplicate then collect_paths empty_str dir header pathes pathes_len (s\<lparr>mem := m\<rparr>)
              else if pathes_len < 50 then
                collect_paths empty_str dir header (pathes[pathes_len := path]) (Suc pathes_len) (s\<lparr>mem := m\<rparr>)
              else Some (Inl Fault))))"

partial_function (option) write_string :: "u64 \<Rightarrow> u64 \<Rightarrow> u64 \<Rightarrow> memory \<Rightarrow> (u64 \<times> u64 \<times> memory) option" where
  "write_string address buffer read_bytes m =
     (if m address \<noteq> 0 then write_string (address + 1) (buffer + 1) (read_bytes + 1) (m(buffer := m address))
      else Some (buffer, read_bytes, m))"

partial_function (option) write_paths :: "u64 list \<Rightarrow> nat \<Rightarrow> u64 \<Rightarrow> u64 \<Rightarrow> memory \<Rightarrow> (u64 \<times> memory) option" where
  "write_paths pathes index buffer read_bytes m =
     (if index < 50 \<and> pathes ! index \<noteq> 0 then
        Option.bind (write_string (pathes ! index) buffer read_bytes m) (\<lambda>(buffer, read_bytes, m).
        write_paths pathes (Suc index) (buffer + 1) (read_bytes + 1) (m(buffer := 0x0A)))
      else Some (read_bytes, m))"

definition ustar_read_dir ::
  "u64 \<Rightarrow> u64 list \<Rightarrow> u64 \<Rightarrow> u64 \<Rightarrow> u64 \<Rightarrow> u64 \<Rightarrow> 'a ustar_state_scheme \<Rightarrow> (u64 \<times> 'a ustar_state_scheme) result" where
  "ustar_read_dir empty_str pathes dir buffer nbytes offset s =
     bindE (of_loop (string_end (mem s) dir 0)) (\<lambda>_.
     bindE (run_loop (collect_paths empty_str dir 0 pathes 0 s)) (\<lambda>(pathes, s).
     bindE (of_loop (write_paths pathes 0 buffer 0 (mem s))) (\<lambda>(read_bytes, m).
     Inr (read_bytes, s\<lparr>mem := m\<rparr>))))"

subsection \<open>Archives\<close>

text \<open>A record of the archive for a file whose name has no prefix, and the archive as a list of them.\<close>

definition record_at :: "memory \<Rightarrow> u64 \<Rightarrow> u8 list \<Rightarrow> u8 list \<Rightarrow> bool" where
  "record_at m a name data \<longleftrightarrow> a \<noteq> 0 \<and> name \<noteq> [] \<and> length name < 100 \<and> is_cstr (mem_cstr m a) name \<and> m (a + 345) = 0 \<and>
     length data < 8 ^ 10 \<and> (\<forall>i<12. mem_cstr m (a + 124) i = octal_field (length data) i) \<and>
     (\<forall>i<length data. m (a + 512 + of_nat i) = data ! i)"

definition blocks_of :: "nat \<Rightarrow> nat" where
  "blocks_of n = (n + 511) div 512 * 512"

fun archive :: "memory \<Rightarrow> u64 \<Rightarrow> (u8 list \<times> u8 list) list \<Rightarrow> bool" where
  "archive m a [] \<longleftrightarrow> (\<forall>i<512. m (a + of_nat i) = 0)"
| "archive m a ((name, data) # es) \<longleftrightarrow>
     record_at m a name data \<and> archive m (a + 512 + of_nat (blocks_of (length data))) es"

definition norm_char :: "u8 \<Rightarrow> u8" where
  "norm_char c = (if c = 0x5C then 0x2F else c)"

text \<open>The reference lookup: the address and the contents of the first file of that name.\<close>

fun find_entry :: "u8 list \<Rightarrow> u64 \<Rightarrow> (u8 list \<times> u8 list) list \<Rightarrow> (u64 \<times> u8 list) option" where
  "find_entry path a [] = None"
| "find_entry path a ((name, data) # es) =
     (if map norm_char name = path then Some (a, data)
      else find_entry path (a + 512 + of_nat (blocks_of (length data))) es)"

lemma is_zeroed_loop_iff: "is_zeroed_loop n m r \<longleftrightarrow> (\<forall>i<n. m (r + of_nat i) = 0)"
proof (induction n arbitrary: r)
  case (Suc n)
  then show ?case by (auto simp: All_less_Suc2 add.assoc)
qed simp

lemma is_zeroed_iff: "is_zeroed m r \<longleftrightarrow> (\<forall>i<512. m (r + of_nat i) = 0)"
  by (simp only: is_zeroed_def is_zeroed_loop_iff)

lemma record_not_zeroed:
  assumes "record_at m a name data"
  shows "\<not> is_zeroed m a"
proof -
  have "name \<noteq> []" "is_cstr (mem_cstr m a) name" using assms by (simp_all add: record_at_def)
  then have "mem_cstr m a 0 \<noteq> 0" by (cases name) (auto simp: is_cstr_Cons)
  then have "m (a + of_nat 0) \<noteq> 0" by (simp add: mem_cstr_def)
  then show ?thesis unfolding is_zeroed_iff by (metis zero_less_numeral)
qed

lemma is_cstr_nonzero: "is_cstr s cs \<Longrightarrow> k < length cs \<Longrightarrow> s k \<noteq> 0"
  unfolding is_cstr_def by (metis nth_mem)

lemma tar_name_text:
  assumes "record_at m a name data"
  shows "is_cstr (tar_name m a old) (map norm_char name)"
proof -
  have n: "length name < 100" "is_cstr (mem_cstr m a) name" "header_prefix m a 0 = 0"
    using assms by (simp_all add: record_at_def header_prefix_def mem_cstr_def)
  have nz: "mem_cstr m a k \<noteq> 0" if "k < length name" for k using is_cstr_nonzero [OF n(2) that] .
  have c: "kstrcpy old (header_name m a) 155 j = mem_cstr m a j" if "j \<le> length name" for j
    using that n(1) nz by (auto simp: kstrcpy_apply header_name_def)
  have t: "tar_name m a old j = norm_char (mem_cstr m a j)" if "j \<le> length name" for j
    using n(1,3) c [OF that] that by (simp add: tar_name_def slashes_def norm_char_def)
  show ?thesis
    using n(2) t by (auto simp: is_cstr_def norm_char_def split: if_splits)
qed

lemma kstrcmp_texts:
  assumes "is_cstr s as" and "is_cstr t bs" and "length as < 256"
  shows "kstrcmp s t 256 \<longleftrightarrow> as = bs"
proof
  assume "kstrcmp s t 256"
  moreover have "Suc (unat (256 - 1 :: u32)) = 256" by simp
  ultimately have eq: "\<forall>k<256. (\<forall>j<k. s j \<noteq> 0) \<longrightarrow> s k = t k"
    unfolding kstrcmp_eq_upto cstr_eq_upto_def by metis
  have "s j \<noteq> 0" if "j < length as" for j using is_cstr_nonzero [OF assms(1) that] .
  then have "s k = t k" if "k \<le> length as" for k using eq that assms(3) by auto
  then have "is_cstr t as" using assms(1) by (auto simp: is_cstr_def)
  then show "as = bs" by (rule is_cstr_unique [OF _ assms(2)])
next
  assume e: "as = bs"
  have "s k = t k" if "\<forall>j<k. s j \<noteq> 0" for k
  proof -
    have "k \<le> length as" using that assms(1) by (metis is_cstr_def not_le)
    then show ?thesis using assms(1,2) e by (cases "k = length as") (auto simp: is_cstr_def)
  qed
  then show "kstrcmp s t 256" unfolding kstrcmp_eq_upto cstr_eq_upto_def by blast
qed

lemma record_size:
  assumes "record_at m a name data"
  shows "oct_ascii_to_dec (header_size m a) 12 = of_nat (length data)"
proof -
  have "oct_ascii_to_dec (header_size m a) 12 = oct_ascii_to_dec (octal_field (length data)) 12"
    unfolding oct_ascii_to_dec_sum using assms by (intro sum.cong) (auto simp: record_at_def header_size_def)
  then show ?thesis using assms by (simp add: oct_ascii_to_dec_octal_field_aux record_at_def)
qed

lemma blocks_of_eq: "blocks_of n = (if n mod 512 = 0 then n else (n div 512 + 1) * 512)"
proof -
  obtain q r where qr: "n = 512 * q + r" "r < 512" by (metis div_mult_mod_eq mod_less_divisor mult.commute zero_less_numeral)
  then have dm: "n div 512 = q" "n mod 512 = r" by simp_all
  have "(512 * q + r + 511) div 512 = (if r = 0 then q else q + 1)" using qr(2) by (intro div_nat_eqI) auto
  then show ?thesis unfolding dm blocks_of_def by (simp add: qr(1))
qed

lemma record_next:
  assumes "record_at m a name data"
  shows "next_record m a = a + 512 + of_nat (blocks_of (length data))"
proof -
  let ?n = "length data" and ?w = "of_nat (length data) :: u64"
  have n: "?n < 2 ^ 30" using assms by (simp add: record_at_def)
  then have u: "unat ?w = ?n" by simp
  have m: "?w mod 512 = 0 \<longleftrightarrow> ?n mod 512 = 0" by (simp add: word_unat_eq_iff unat_mod u)
  have d: "?w div 512 = of_nat (?n div 512)" using n by (simp add: word_unat_eq_iff unat_div u)
  have "(if ?w mod 512 \<noteq> 0 then (?w div 512 + 1) * 512 else ?w) = of_nat (blocks_of ?n)"
    using m d by (simp add: blocks_of_eq)
  then show ?thesis by (simp add: next_record_def record_size [OF assms])
qed

lemma lookup_loop_end:
  assumes "is_zeroed m h"
  shows "lookup_loop m p 0 old h = Some 0"
  using assms by (simp add: lookup_loop.simps [of m p 0] lookup_loop.simps [of m p "Suc 0"] lookup_loop.simps [of m p "Suc (Suc 0)"])

lemma lookup_archive:
  assumes "archive m a es" and "is_cstr p path"
  shows "lookup_loop m p 0 old a = Some (case find_entry path a es of None \<Rightarrow> 0 | Some (h, data) \<Rightarrow> h)"
  using assms(1)
proof (induction es arbitrary: a old)
  case Nil
  then have "is_zeroed m a" by (simp add: is_zeroed_iff)
  then show ?case by (simp add: lookup_loop_end)
next
  case (Cons e es)
  obtain name data where e: "e = (name, data)" by (cases e)
  have r: "record_at m a name data" and rest: "archive m (a + 512 + of_nat (blocks_of (length data))) es"
    using Cons.prems by (simp_all add: e)
  have "length name < 256" using r by (simp add: record_at_def)
  then have "kstrcmp (tar_name m a old) p 256 \<longleftrightarrow> map norm_char name = path"
    using kstrcmp_texts [OF tar_name_text [OF r] assms(2)] by simp
  then show ?case
    using Cons.IH [OF rest] record_not_zeroed [OF r] record_next [OF r]
    by (simp add: lookup_loop.simps [of m p 0 old a] e)
qed

lemma find_entry_record:
  "archive m a es \<Longrightarrow> find_entry path a es = Some (h, data) \<Longrightarrow> \<exists>name. record_at m h name data \<and> map norm_char name = path"
proof (induction es arbitrary: a)
  case (Cons e es)
  then show ?case by (cases e) (auto split: if_splits)
qed simp

text \<open>The bytes of an archive, and that it depends on no others.\<close>

fun archive_area :: "u64 \<Rightarrow> (u8 list \<times> u8 list) list \<Rightarrow> u64 set" where
  "archive_area a [] = bytes_of a 512"
| "archive_area a ((name, data) # es) =
     bytes_of a (512 + length data) \<union> archive_area (a + 512 + of_nat (blocks_of (length data))) es"

lemma bytes_of_nth: "i < n \<Longrightarrow> a + of_nat i \<in> bytes_of a n"
  unfolding bytes_of_iff by blast

lemma record_cong:
  assumes r: "record_at m a name data" and eq: "\<And>x. x \<in> bytes_of a (512 + length data) \<Longrightarrow> m' x = m x"
  shows "record_at m' a name data"
proof -
  have at: "m' (a + of_nat i) = m (a + of_nat i)" if "i < 512 + length data" for i using eq [OF bytes_of_nth [OF that]] .
  have n: "length name < 100" using r by (simp add: record_at_def)
  have "mem_cstr m' a i = mem_cstr m a i" if "i < 512" for i using at [of i] that by (simp add: mem_cstr_def)
  then have "is_cstr (mem_cstr m' a) name" using r n by (auto simp: record_at_def is_cstr_def)
  moreover have "m' (a + 345) = m (a + 345)" using at [of 345] by simp
  moreover have "mem_cstr m' (a + 124) i = mem_cstr m (a + 124) i" if "i < 12" for i
    using at [of "124 + i"] that by (simp add: mem_cstr_def add.assoc)
  moreover have "m' (a + 512 + of_nat i) = m (a + 512 + of_nat i)" if "i < length data" for i
    using at [of "512 + i"] that by (simp add: add.assoc)
  ultimately show ?thesis using r by (simp add: record_at_def)
qed

lemma archive_cong:
  "archive m a es \<Longrightarrow> (\<And>x. x \<in> archive_area a es \<Longrightarrow> m' x = m x) \<Longrightarrow> archive m' a es"
proof (induction es arbitrary: a)
  case Nil
  then show ?case by (simp add: bytes_of_nth)
next
  case (Cons e es)
  then show ?case by (cases e) (auto intro: record_cong)
qed

lemma find_entry_area:
  "find_entry path a es = Some (h, data) \<Longrightarrow> bytes_of h (512 + length data) \<subseteq> archive_area a es"
proof (induction es arbitrary: a)
  case (Cons e es)
  then show ?case by (cases e) (fastforce split: if_splits)
qed simp

subsection \<open>Reading\<close>

lemma read_loop_memcpy:
  assumes "unat i \<le> unat nbytes" and "unat i + unat offset \<le> unat sz"
  defines "k \<equiv> min (unat nbytes - unat i) (unat sz - unat offset - unat i)"
  shows "ustar_read_loop sz nbytes offset b c i m = (i + of_nat k, memcpy m b c (of_nat k))"
  using assms(1,2) unfolding k_def
proof (induction sz nbytes offset b c i m rule: ustar_read_loop.induct)
  case (1 sz nbytes offset b c i m)
  have sum: "unat (i + offset) = unat i + unat offset"
    using "1.prems"(2) unat_bound [of sz] by (intro unat_add_small) simp
  show ?case
  proof (cases "i < nbytes \<and> i + offset < sz")
    case True
    then have lt: "unat i < unat nbytes" "unat i + unat offset < unat sz" using sum by (simp_all add: word_less_nat_alt)
    then have i1: "unat (i + 1) = Suc (unat i)" using unat_bound [of nbytes] by (subst unat_add_small) simp_all
    let ?k = "min (unat nbytes - unat i) (unat sz - unat offset - unat i)"
    let ?k' = "min (unat nbytes - unat (i + 1)) (unat sz - unat offset - unat (i + 1))"
    have k: "?k = Suc ?k'" using lt i1 by simp
    have "?k < 2 ^ 64" using unat_bound [of nbytes] by simp
    then have u: "unat (of_nat ?k :: u64) = ?k" by simp
    then have pos: "(of_nat ?k :: u64) > 0" using k by (metis unat_0 unat_gt_0 nat.simps(3) word_gt_0)
    have "ustar_read_loop sz nbytes offset (b + 1) (c + 1) (i + 1) (m(b := m c)) =
        (i + 1 + of_nat ?k', memcpy (m(b := m c)) (b + 1) (c + 1) (of_nat ?k'))"
      using True lt i1 by (intro "1.IH") simp_all
    moreover have "memcpy m b c (of_nat ?k) = memcpy (m(b := m c)) (b + 1) (c + 1) (of_nat ?k')"
      using pos k by (subst memcpy.simps) simp
    moreover have "i + 1 + of_nat ?k' = i + of_nat ?k" unfolding k by simp
    ultimately show ?thesis using True by (simp add: ustar_read_loop.simps [of sz nbytes offset b c i m])
  next
    case False
    then have "min (unat nbytes - unat i) (unat sz - unat offset - unat i) = 0"
      using sum by (auto simp: word_less_nat_alt min_def)
    moreover have "ustar_read_loop sz nbytes offset b c i m = (i, m)"
      unfolding ustar_read_loop.simps [of sz nbytes offset b c i m] using False by (rule if_not_P)
    ultimately show ?thesis by (simp add: memcpy.simps [of m b c 0])
  qed
qed

text \<open>An open file with its contents, and the file system's invariant.\<close>

definition file_open :: "(u8 list \<times> u8 list) list \<Rightarrow> 'a ustar_state_scheme \<Rightarrow> u64 \<Rightarrow> u8 list \<Rightarrow> bool" where
  "file_open es s file_id data \<longleftrightarrow> unat file_id < length (open_files s) \<and> open_files s ! unat file_id \<noteq> 0 \<and>
     (let fd = ustar_files s (open_files s ! unat file_id) in
      (\<exists>path. find_entry path (tar_fs_start_address s) es = Some (ufd_header fd, data)) \<and> ufd_size fd = of_nat (length data) \<and>
      0 < references fd)"

definition fs_ok :: "(u8 list \<times> u8 list) list \<Rightarrow> 'a ustar_state_scheme \<Rightarrow> bool" where
  "fs_ok es s \<longleftrightarrow> archive (mem s) (tar_fs_start_address s) es \<and> length (open_files s) = MAX_USTAR_OPEN_FILES \<and>
     (\<forall>i<MAX_USTAR_OPEN_FILES. open_files s ! i \<noteq> 0 \<longrightarrow> (\<exists>data. file_open es s (of_nat i) data))"

lemma file_open_record:
  assumes "fs_ok es s" and "file_open es s file_id data"
  shows "\<exists>name. record_at (mem s) (ufd_header (ustar_files s (open_files s ! unat file_id))) name data"
proof -
  have "archive (mem s) (tar_fs_start_address s) es" using assms(1) by (simp add: fs_ok_def)
  moreover obtain path where "find_entry path (tar_fs_start_address s) es =
      Some (ufd_header (ustar_files s (open_files s ! unat file_id)), data)" using assms(2) by (auto simp: file_open_def Let_def)
  ultimately show ?thesis using find_entry_record by blast
qed

lemma ustar_read_eq:
  assumes ok: "fs_ok es s" and f: "file_open es s file_id data" and off: "unat offset \<le> length data"
    and dis: "bytes_of buffer (unat nbytes) \<inter> archive_area (tar_fs_start_address s) es = {}"
  defines "k \<equiv> min (unat nbytes) (length data - unat offset)"
  shows "\<exists>m. ustar_read file_id buffer nbytes offset s = Inr (of_nat k, s\<lparr>mem := m\<rparr>) \<and>
    (\<forall>i<k. m (buffer + of_nat i) = data ! (unat offset + i)) \<and> (\<forall>x. x \<notin> bytes_of buffer k \<longrightarrow> m x = mem s x)"
proof -
  let ?fd = "ustar_files s (open_files s ! unat file_id)"
  let ?h = "ufd_header ?fd"
  obtain name where r: "record_at (mem s) ?h name data" using file_open_record [OF ok f] by blast
  have "length data < 8 ^ 10" and dat: "\<forall>i<length data. mem s (?h + 512 + of_nat i) = data ! i"
    using r unfolding record_at_def by blast+
  then have len: "length data < 2 ^ 30" by simp
  have sz: "ufd_size ?fd = of_nat (length data)" "unat (ufd_size ?fd) = length data"
    using f len by (simp_all add: file_open_def Let_def)
  have kb: "k \<le> unat nbytes" "k \<le> length data - unat offset" "k < 2 ^ 64"
    using unat_bound [of nbytes] by (simp_all add: k_def)
  let ?c = "?h + 512 + offset" and ?m = "memcpy (mem s) buffer (?h + 512 + offset) (of_nat k)"
  have loop: "ustar_read_loop (ufd_size ?fd) nbytes offset buffer ?c 0 (mem s) = (of_nat k, ?m)"
    using read_loop_memcpy [of 0 nbytes offset "ufd_size ?fd" buffer ?c "mem s"] off sz by (simp add: k_def)
  have ks: "k < 2 ^ 64 \<Longrightarrow> unat (of_nat k :: u64) = k" by simp
  have area: "bytes_of ?h (512 + length data) \<subseteq> archive_area (tar_fs_start_address s) es"
    using f find_entry_area unfolding file_open_def Let_def by blast
  have src: "?c + of_nat j = ?h + of_nat (512 + (unat offset + j))" for j by (simp add: algebra_simps)
  have nd: "buffer + of_nat i \<noteq> ?c + of_nat j" if "i < k" "j < k" for i j
  proof -
    have "buffer + of_nat i \<in> bytes_of buffer (unat nbytes)" using that kb by (intro bytes_of_nth) linarith
    moreover have "?c + of_nat j \<in> bytes_of ?h (512 + length data)"
      unfolding src using that kb by (intro bytes_of_nth) linarith
    ultimately show ?thesis using dis area by (intro notI) (auto simp del: bytes_of_iff)
  qed
  have ap: "?m x = (if unat (x - buffer) < k then mem s (?c + (x - buffer)) else mem s x)" for x
    using memcpy_apply [of "of_nat k" buffer ?c "mem s" x] nd ks [OF kb(3)] by simp
  have "?m (buffer + of_nat i) = data ! (unat offset + i)" if "i < k" for i
  proof -
    have "unat (of_nat i :: u64) = i" using that kb(3) by simp
    then have "?m (buffer + of_nat i) = mem s (?c + of_nat i)" using ap [of "buffer + of_nat i"] that by simp
    also have "?c + of_nat i = ?h + 512 + of_nat (unat offset + i)" by (simp add: algebra_simps)
    also have "unat offset + i < length data" using that kb(2) off by linarith
    then have "mem s (?h + 512 + of_nat (unat offset + i)) = data ! (unat offset + i)" using dat by blast
    finally show ?thesis .
  qed
  moreover have "?m x = mem s x" if "x \<notin> bytes_of buffer k" for x
  proof -
    have "x = buffer + of_nat (unat (x - buffer))" by simp
    then have "\<not> unat (x - buffer) < k" using that bytes_of_nth by metis
    then show ?thesis using ap by simp
  qed
  moreover have "\<not> ufd_size ?fd < offset" using off sz(2) by (simp add: word_less_nat_alt)
  then have "ustar_read file_id buffer nbytes offset s = Inr (of_nat k, s\<lparr>mem := ?m\<rparr>)"
    using f loop by (simp add: ustar_read_def open_file_def file_open_def)
  ultimately show ?thesis by blast
qed

subsection \<open>Opening\<close>

definition ustar_inv :: "(u8 list \<times> u8 list) list \<Rightarrow> 'a ustar_state_scheme \<Rightarrow> bool" where
  "ustar_inv es s \<longleftrightarrow> fs_ok es s \<and> archive_area (tar_fs_start_address s) es \<subseteq> stable_bytes s \<and>
     (\<exists>B. heap_inv s B \<and> set (open_files s) - {0} \<subseteq> B)"

text \<open>No open file is ever found again by name, since only the empty prefix is compared.\<close>

lemma already_open_none:
  "(\<And>p. p \<in> set ps \<Longrightarrow> p \<noteq> 0 \<Longrightarrow> header_prefix m (ufd_header (fds p)) 0 = 0) \<Longrightarrow> path 0 \<noteq> 0 \<Longrightarrow>
   already_open_loop m fds path ps i = - 1"
proof (induction ps arbitrary: i)
  case (Cons p ps)
  have "\<not> kstrcmp (open_name m (ufd_header (fds p))) path 256" if "p \<noteq> 0"
    using Cons.prems(1) [of p] Cons.prems(2) that by (subst kstrcmp.simps) (simp add: open_name_def kstrcpy_apply)
  then show ?case using Cons by auto
qed simp

lemma fs_ok_headers:
  assumes "fs_ok es s" and "p \<in> set (open_files s)" and "p \<noteq> 0"
  shows "\<exists>h data path. ufd_header (ustar_files s p) = h \<and> find_entry path (tar_fs_start_address s) es = Some (h, data) \<and>
    header_prefix (mem s) h 0 = 0"
proof -
  obtain i where i: "i < MAX_USTAR_OPEN_FILES" "open_files s ! i = p" using assms(1,2) by (metis fs_ok_def in_set_conv_nth)
  have u: "unat (of_nat i :: u64) = i" using i(1) by (simp add: MAX_USTAR_OPEN_FILES_def)
  obtain data where d: "file_open es s (of_nat i) data" using assms(1,3) i by (auto simp: fs_ok_def)
  obtain name where "record_at (mem s) (ufd_header (ustar_files s p)) name data" using file_open_record [OF assms(1) d] i(2) u by auto
  then have "header_prefix (mem s) (ufd_header (ustar_files s p)) 0 = 0"
    unfolding record_at_def header_prefix_def mem_cstr_def by simp
  then show ?thesis using d i(2) u unfolding file_open_def Let_def by auto
qed

lemma find_open_loop_eq:
  "find_open_loop ps i = (if 0 \<in> set ps then i + of_nat (length (takeWhile (\<lambda>p. p \<noteq> 0) ps)) else - 1)"
  by (induction ps arbitrary: i) auto

lemma heap_rest_ustar:
  fixes s t :: "'a ustar_state_scheme"
  assumes "heap_rest t = heap_rest s"
  shows "tar_fs_start_address t = tar_fs_start_address s" "open_files t = open_files s" "ustar_files t = ustar_files s"
    "ustar_state.more t = ustar_state.more s"
  using assms by (cases t; cases s; simp add: heap_rest_def)+

lemma stable_bytes_cong:
  assumes "memory_part t = memory_part s"
  shows "stable_bytes t = stable_bytes s"
proof -
  have e: "mem t = mem s" "hhdm_offset t = hhdm_offset s" "bitmap t = bitmap s" "bitmap_top_index t = bitmap_top_index s"
    "bitmap_prev_index t = bitmap_prev_index s" "spin_lock t = spin_lock s" "vmm_kernel t = vmm_kernel s"
    using assms by (simp_all add: memory_part_def)
  have b: "page_bytes t = page_bytes s" "bitmap_area t = bitmap_area s" "frame_addr t = frame_addr s" "page_used t = page_used s"
    by (simp_all add: page_bytes_def bitmap_area_def frame_addr_def page_used_def fun_eq_iff e)
  have o: "own_page t = own_page s" "pmm_inv t = pmm_inv s" "is_table t = is_table s"
    by (simp_all add: own_page_def pmm_inv_def is_table_def fun_eq_iff e b)
  then have "pt_inv t = pt_inv s" by (simp add: pt_inv_def fun_eq_iff e b)
  then have "vmm_at t = vmm_at s" "other_page t = other_page s"
    by (simp_all add: vmm_at_def other_page_def fun_eq_iff e b o)
  then show ?thesis by (simp add: stable_bytes_def kernel_at_def e b)
qed

lemma file_open_cong:
  assumes "open_files t = open_files s" "ustar_files t = ustar_files s" "tar_fs_start_address t = tar_fs_start_address s"
  shows "file_open es t = file_open es s"
  using assms by (simp add: fun_eq_iff file_open_def)

lemma fs_ok_mem:
  assumes "fs_ok es s" and "open_files t = open_files s" "ustar_files t = ustar_files s" "tar_fs_start_address t = tar_fs_start_address s"
    and "\<And>x. x \<in> archive_area (tar_fs_start_address s) es \<Longrightarrow> mem t x = mem s x"
  shows "fs_ok es t"
proof -
  have a: "archive (mem s) (tar_fs_start_address s) es" using assms(1) by (simp add: fs_ok_def)
  have "archive (mem t) (tar_fs_start_address s) es" by (rule archive_cong [OF a assms(5)])
  moreover have "file_open es t = file_open es s" by (rule file_open_cong [OF assms(2-4)])
  ultimately show ?thesis using assms(1) unfolding fs_ok_def assms(2-4) by simp
qed

text \<open>An allocation keeps the archive, the table and the files.\<close>

lemma ustar_inv_kalloc:
  fixes s :: "'a ustar_state_scheme"
  assumes inv: "ustar_inv es s" and sz: "unat sz + 48 + 4095 < 2 ^ 64" and a: "kalloc sz s = Inr (p, t)"
  shows "ustar_inv es t" and "file_open es t = file_open es s" and "heap_rest t = heap_rest s"
proof -
  have ok: "fs_ok es s" and area: "archive_area (tar_fs_start_address s) es \<subseteq> stable_bytes s" using inv by (simp_all add: ustar_inv_def)
  obtain B where B: "heap_inv s B" "set (open_files s) - {0} \<subseteq> B" using inv by (auto simp: ustar_inv_def)
  have t: "heap_inv t (insert p B)" "heap_rest t = heap_rest s" using kh.alloc_contract [OF B(1) sz] a by auto
  then show "heap_rest t = heap_rest s" by simp
  note f = heap_rest_ustar [OF t(2)]
  have keep: "mem t x = mem s x" "x \<in> stable_bytes t" if "x \<in> archive_area (tar_fs_start_address s) es" for x
    using kalloc_stable [OF a sz, of x] area that by auto
  show "file_open es t = file_open es s" by (rule file_open_cong [OF f(2,3,1)])
  have "fs_ok es t" by (rule fs_ok_mem [OF ok f(2,3,1) keep(1)])
  then show "ustar_inv es t" using t(1) B(2) keep(2) unfolding ustar_inv_def f by blast
qed

lemma ustar_open_found:
  fixes s :: "'a ustar_state_scheme"
  assumes inv: "ustar_inv es s" and e: "find_entry text (tar_fs_start_address s) es = Some (h, data)"
    and a: "kalloc 24 s = Inr (p, s1)" and free: "0 \<in> set (open_files s)"
  defines "i \<equiv> length (takeWhile (\<lambda>p. p \<noteq> 0) (open_files s))"
  defines "t \<equiv> s1\<lparr>ustar_files := (ustar_files s1)(p :=
      \<lparr>ufd_header = h, references = 1, ufd_size = oct_ascii_to_dec (header_size (mem s1) h) 12\<rparr>),
    open_files := (open_files s1)[i := p]\<rparr>"
  shows "i < MAX_USTAR_OPEN_FILES" and "open_files s ! i = 0" and "file_open es t (of_nat i) data"
    and "file_open es s j d \<Longrightarrow> file_open es t j d" and "ustar_inv es t"
proof -
  have ok: "fs_ok es s" and area: "archive_area (tar_fs_start_address s) es \<subseteq> stable_bytes s" using inv by (simp_all add: ustar_inv_def)
  obtain B where B: "heap_inv s B" "set (open_files s) - {0} \<subseteq> B" using inv by (auto simp: ustar_inv_def)
  have s1: "heap_inv s1 (insert p B)" "p \<notin> B" "p \<noteq> 0" "heap_rest s1 = heap_rest s"
    using kh.alloc_contract [OF B(1), of 24] a by auto
  note f = heap_rest_ustar [OF s1(4)]
  have len: "length (open_files s) = MAX_USTAR_OPEN_FILES" and ar: "archive (mem s) (tar_fs_start_address s) es"
    using ok by (simp_all add: fs_ok_def)
  have "length (takeWhile (\<lambda>p. p \<noteq> 0) ps) < length ps" if "0 \<in> set ps" for ps :: "u64 list"
    using that by (induction ps) auto
  then have "i < length (open_files s)" unfolding i_def using free by blast
  then show i: "i < MAX_USTAR_OPEN_FILES" using len by simp
  show z: "open_files s ! i = 0" using nth_length_takeWhile [of "\<lambda>p. p \<noteq> 0" "open_files s"] i len by (simp add: i_def)
  have keep: "mem s1 x = mem s x" "x \<in> stable_bytes s1" if "x \<in> archive_area (tar_fs_start_address s) es" for x
    using kalloc_stable [OF a, of x] area that by auto
  have ar1: "archive (mem s1) (tar_fs_start_address s) es" by (rule archive_cong [OF ar]) (rule keep)
  obtain name where "record_at (mem s1) h name data" using find_entry_record [OF ar1 e] by blast
  note sz = record_size [OF this]
  have u: "unat (of_nat i :: u64) = i" using i by (simp add: MAX_USTAR_OPEN_FILES_def)
  have t: "tar_fs_start_address t = tar_fs_start_address s" "open_files t = (open_files s)[i := p]" "mem t = mem s1"
    "ustar_files t = (ustar_files s)(p := \<lparr>ufd_header = h, references = 1, ufd_size = of_nat (length data)\<rparr>)"
    by (simp_all add: t_def f sz)
  show new: "file_open es t (of_nat i) data"
    unfolding file_open_def Let_def t using u i len s1(3) e by auto
  show old: "file_open es t j d" if "file_open es s j d" for j d
  proof -
    have j: "unat j < length (open_files s)" "open_files s ! unat j \<noteq> 0" using that by (simp_all add: file_open_def)
    then have "open_files s ! unat j \<in> B" using B(2) nth_mem [OF j(1)] by blast
    then have "unat j \<noteq> i" "open_files s ! unat j \<noteq> p" using z j(2) s1(2) by auto
    then show ?thesis using that unfolding file_open_def Let_def t by auto
  qed
  have "fs_ok es t"
    unfolding fs_ok_def t
  proof (intro conjI allI impI)
    fix k assume k: "k < MAX_USTAR_OPEN_FILES" "(open_files s)[i := p] ! k \<noteq> 0"
    show "\<exists>data. file_open es t (of_nat k) data"
    proof (cases "k = i")
      case False
      then have "open_files s ! k \<noteq> 0" using k(2) by simp
      then have "\<exists>d. file_open es s (of_nat k) d" using ok k(1) by (simp add: fs_ok_def)
      then show ?thesis using old by blast
    qed (use new in auto)
  qed (use ar1 len in simp_all)
  moreover have m: "memory_part t = memory_part s1" by (simp add: memory_part_def t_def)
  have "archive_area (tar_fs_start_address t) es \<subseteq> stable_bytes t" using keep(2) stable_bytes_cong [OF m] t(1) by auto
  moreover have "heap_inv t (insert p B)" using s1(1) heap_inv_cong [OF m] by simp
  moreover have "set (open_files t) - {0} \<subseteq> insert p B" using B(2) set_update_subset_insert [of "open_files s" i p] unfolding t by blast
  ultimately show "ustar_inv es t" unfolding ustar_inv_def by blast
qed

lemma ustar_open_cases:
  fixes s :: "'a ustar_state_scheme"
  assumes inv: "ustar_inv es s" and path: "is_cstr path text" "text \<noteq> []"
  shows "case find_entry text (tar_fs_start_address s) es of
      None \<Rightarrow> ustar_open old path oflags s = Inr (- 1, s)
    | Some (h, data) \<Rightarrow>
        ustar_open old path oflags s = Inl (Panic ''PMM_ALLOC: failed to allocate memory'') \<or>
        (\<exists>id t. ustar_open old path oflags s = Inr (id, t) \<and> ustar_inv es t \<and> ustar_state.more t = ustar_state.more s \<and>
          (\<forall>j d. file_open es s j d \<longrightarrow> file_open es t j d) \<and>
          (if 0 \<in> set (open_files s)
           then unat id < MAX_USTAR_OPEN_FILES \<and> open_files s ! unat id = 0 \<and> file_open es t id data
           else id = - 1))"
proof -
  have ok: "fs_ok es s" using inv by (simp add: ustar_inv_def)
  have "path 0 \<noteq> 0" using is_cstr_nonzero [OF path(1), of 0] path(2) by simp
  then have ao: "is_already_open path s = - 1"
    unfolding is_already_open_def using fs_ok_headers [OF ok] by (intro already_open_none) auto
  have "archive (mem s) (tar_fs_start_address s) es" using ok by (simp add: fs_ok_def)
  from lookup_archive [OF this path(1)] have
    lk: "tar_file_lookup (mem s) (tar_fs_start_address s) path old =
      Some (case find_entry text (tar_fs_start_address s) es of None \<Rightarrow> 0 | Some (h, data) \<Rightarrow> h)"
    by (simp add: tar_file_lookup_def)
  show ?thesis
  proof (cases "find_entry text (tar_fs_start_address s) es")
    case None
    then show ?thesis using ao lk by (simp add: ustar_open_def of_loop_def)
  next
    case (Some e)
    then obtain h data where e: "find_entry text (tar_fs_start_address s) es = Some (h, data)" by (cases e) auto
    have "archive (mem s) (tar_fs_start_address s) es" using ok by (simp add: fs_ok_def)
    then have h0: "h \<noteq> 0" using find_entry_record [OF _ e] by (auto simp: record_at_def)
    obtain B where B: "heap_inv s B" using inv by (auto simp: ustar_inv_def)
    have sz: "unat (24 :: u64) + 48 + 4095 < 2 ^ 64" by simp
    from kh.alloc_contract [OF B sz] show ?thesis
    proof (elim disjE exE conjE)
      fix p s1 assume a: "kalloc 24 s = Inr (p, s1)" and rest: "heap_rest s1 = heap_rest s"
      note f = heap_rest_ustar(1-3) [OF rest] and more = heap_rest_ustar(4) [OF rest]
      let ?i = "length (takeWhile (\<lambda>p. p \<noteq> 0) (open_files s))"
      let ?t = "s1\<lparr>ustar_files := (ustar_files s1)(p :=
          \<lparr>ufd_header = h, references = 1, ufd_size = oct_ascii_to_dec (header_size (mem s1) h) 12\<rparr>),
        open_files := (open_files s1)[?i := p]\<rparr>"
      show ?thesis
      proof (cases "0 \<in> set (open_files s)")
        case False
        then show ?thesis
          using e lk ao h0 a f ustar_inv_kalloc [OF inv sz a] more by (simp add: ustar_open_def of_loop_def find_open_id_def find_open_loop_eq)
      next
        case True
        note o = ustar_open_found [OF inv e a True]
        have u: "unat (of_nat ?i :: u64) = ?i" and n1: "(of_nat ?i :: u64) \<noteq> - 1"
          using o(1) by (simp_all add: MAX_USTAR_OPEN_FILES_def word_unat_eq_iff unsigned_minus_1_eq_mask mask_eq_exp_minus_1)
        have "ustar_open old path oflags s = Inr (of_nat ?i, ?t)"
          using e lk ao h0 a f True u n1 by (simp add: ustar_open_def of_loop_def find_open_id_def find_open_loop_eq)
        then show ?thesis using e o True u more by auto
      qed
    qed (use e lk ao h0 in \<open>simp_all add: ustar_open_def of_loop_def\<close>)
  qed
qed

subsection \<open>An example\<close>

definition archive_demo :: "(u8 list \<times> u8 list) list" where
  "archive_demo = [([0x61], [0x2F, 0x61])]"

definition archive_byte :: "nat \<Rightarrow> u8" where
  "archive_byte i = (if i = 0 then 0x61 else if 124 \<le> i \<and> i < 136 then octal_field 2 (i - 124)
     else if i = 512 then 0x2F else if i = 513 then 0x61 else 0)"

lemma archive_demo_holds:
  assumes "a \<noteq> 0" and m: "\<And>i. i < 1536 \<Longrightarrow> m (a + of_nat i) = archive_byte i"
  shows "archive m a archive_demo"
proof -
  have b: "m (a + of_nat i) = archive_byte i" if "i < 1536" for i using m [OF that] .
  have "record_at m a [0x61] [0x2F, 0x61]"
    unfolding record_at_def
  proof (intro conjI allI impI)
    show "is_cstr (mem_cstr m a) [0x61]"
      using b [of 0] b [of 1] by (simp add: is_cstr_def mem_cstr_def archive_byte_def)
    show "m (a + 345) = 0" using b [of 345] by (simp add: archive_byte_def)
    fix i assume i: "i < (12 :: nat)"
    then show "mem_cstr m (a + 124) i = octal_field (length [0x2F, 0x61 :: u8]) i"
      using b [of "124 + i"] by (simp add: mem_cstr_def archive_byte_def add.assoc numeral_2_eq_2)
  next
    fix i assume "i < length [0x2F, 0x61 :: u8]"
    then have "i = 0 \<or> i = 1" by auto
    then show "m (a + 512 + of_nat i) = [0x2F, 0x61] ! i"
      using b [of "512 + i"] by (elim disjE) (simp_all add: archive_byte_def add.commute [of 513 a])
  qed (use assms(1) in simp_all)
  moreover have "m (a + 1024 + of_nat i) = 0" if "i < 512" for i
    using b [of "1024 + i"] that by (simp add: archive_byte_def add.assoc)
  then have "archive m (a + 1024) []" unfolding archive.simps by (intro allI impI)
  moreover have "a + 512 + of_nat (blocks_of (length [0x2F, 0x61 :: u8])) = a + 1024" by (simp add: blocks_of_def)
  ultimately show ?thesis by (simp only: archive_demo_def archive.simps simp_thms)
qed

lemma archive_demo_area: "archive_area a archive_demo \<subseteq> bytes_of a 1536"
proof -
  have "bytes_of (a + 1024) 512 \<subseteq> bytes_of a 1536"
  proof
    fix x assume "x \<in> bytes_of (a + 1024) 512"
    then obtain i where "i < 512" "x = a + of_nat (1024 + i)" by (auto simp: bytes_of_iff add.assoc)
    then show "x \<in> bytes_of a 1536" unfolding bytes_of_iff by (intro exI [of _ "1024 + i"]) simp
  qed
  moreover have "bytes_of a 514 \<subseteq> bytes_of a 1536" by (rule bytes_of_mono) simp
  moreover have "a + 512 + of_nat (blocks_of (length [0x2F, 0x61 :: u8])) = a + 1024" by (simp add: blocks_of_def)
  moreover have "512 + length [0x2F, 0x61 :: u8] = 514" by simp
  ultimately show ?thesis by (simp only: archive_demo_def archive_area.simps Un_subset_iff simp_thms)
qed

definition ustar_demo :: ustar_state where
  "ustar_demo = proc_state.extend proc_demo
     (ustar_state.fields 0 (replicate 512 0) (\<lambda>_. \<lparr>ufd_header = 0, references = 0, ufd_size = 0\<rparr>))"

text \<open>The small machine with the archive in one of its pages.\<close>

lemma ustar_demo_archive:
  "\<exists>(s :: ustar_state) p. ustar_inv archive_demo s \<and> open_files s = replicate 512 0 \<and> heap_inv s {p} \<and> p \<noteq> 0 \<and>
     archive_area (tar_fs_start_address s) archive_demo \<subseteq> {x. 0xffff800000000000 \<le> x} \<and>
     is_cstr (mem_cstr (mem s) (tar_fs_start_address s + 512)) [0x2F, 0x61]"
proof -
  have m0: "memory_part ustar_demo = memory_part proc_demo" "hhdm_offset ustar_demo = 0xffff800000000000"
    by (simp_all add: memory_part_def ustar_demo_def proc_state.defs ustar_state.defs proc_demo_def vmm_demo_fields)
  have "heap_inv ustar_demo {}" using heap_inv_cong [OF m0(1)] proc_demo_inv(1) by simp
  then obtain pml fv where k: "kernel_at ustar_demo pml fv" by (auto simp: heap_inv_def)
  have "free_count ustar_demo = free_count vmm_demo"
    by (simp add: free_count_def page_used_def ustar_demo_def proc_state.defs ustar_state.defs proc_demo_def)
  then obtain t0 p0 g where t0: "kernel_step ustar_demo pml fv {} t0" "heap_block t0 pml fv p0 g 1" "free_count t0 = 11"
    using one_page_block [OF k] vmm_demo_free by auto
  have k0: "kernel_at t0 pml fv" "static_part t0 = static_part ustar_demo" "other_page t0 pml fv g"
    using t0(1,2) by (simp_all add: kernel_step_def heap_block_def)
  obtain t p f where t: "kernel_step t0 pml fv {} t" "heap_block t pml fv p f 1" "\<not> page_used t0 f"
    using one_page_block [OF k0(1)] t0(3) by auto
  have kt: "kernel_at t pml fv" and st: "static_part t = static_part ustar_demo" using t(1) k0(2) by (simp_all add: kernel_step_def)
  have fg: "f \<noteq> g" using t(3) k0(3) by (auto simp: other_page_def own_page_def)
  have at: "vmm_at t (vmm_kernel t) pml fv" using kt by (simp_all add: kernel_at_def)
  then have inv: "pmm_inv t" by (simp add: vmm_at_def)
  have og: "other_page t pml fv g" using t(1) k0(3) by (simp add: kernel_step_def page_kept_def)
  then have g: "g < unat (bitmap_top_index t)" by (simp add: other_page_def own_page_def)
  have hh: "hhdm_offset t = 0xffff800000000000" using st m0(2) by (simp add: static_part_def)
  define a where "a = frame_addr t g + 1024"
  define m where "m x = (if unat (x - a) < 1536 then archive_byte (unat (x - a)) else mem t x)" for x
  have "m (a + 512) = 0x2F" "m (a + 513) = 0x61" "m (a + 514) = 0" by (simp_all add: m_def archive_byte_def)
  moreover have "0 \<notin> set [0x2F, 0x61 :: u8]" by simp
  ultimately have "mem_cstr m (a + 512) 0 = 0x2F" "mem_cstr m (a + 512) 1 = 0x61" "mem_cstr m (a + 512) 2 = 0" "0 \<notin> set [0x2F, 0x61 :: u8]"
    by (simp_all add: mem_cstr_def add.commute)
  then have path: "is_cstr (mem_cstr m (a + 512)) [0x2F, 0x61]"
    unfolding is_cstr_def by (intro conjI allI impI) (auto simp only: less_Suc_eq numeral_2_eq_2 list.size nth_Cons_0 nth_Cons_Suc One_nat_def not_less_zero simp_thms add_0 add_Suc_right add_0_right)
  have fit: "unat (hhdm_offset t) + 4096 * unat (bitmap_top_index t) \<le> 2 ^ 64" by (rule pmm_invD(4) [OF inv])
  have ua: "unat (frame_addr t g) = 4096 * g + unat (hhdm_offset t)" using unat_page_addr(2) [OF inv g] by (simp add: frame_addr_def)
  have off: "unat (frame_addr t g + of_nat i) = 4096 * g + unat (hhdm_offset t) + i" if "i < 4096" for i
    using ua g fit that by (subst unat_add_small) simp_all
  have page: "bytes_of a 1536 \<subseteq> page_bytes t g"
  proof
    fix x assume "x \<in> bytes_of a 1536"
    then obtain i where "i < 1536" "x = frame_addr t g + of_nat (1024 + i)" by (auto simp: bytes_of_iff a_def add.assoc)
    then show "x \<in> page_bytes t g" unfolding page_bytes_def bytes_of_iff frame_addr_def by (intro exI [of _ "1024 + i"]) simp
  qed
  have out: "\<forall>x. x \<notin> page_bytes t g \<longrightarrow> m x = mem t x"
    using page by (auto simp: m_def bytes_of_offset)
  note w = other_page_write [OF at og out]
  let ?s = "t\<lparr>mem := m, tar_fs_start_address := a, open_files := replicate 512 0\<rparr>"
  have mp: "memory_part ?s = memory_part (t\<lparr>mem := m\<rparr>)" by (simp add: memory_part_def)
  have km: "kernel_at (t\<lparr>mem := m\<rparr>) pml fv" using w(1-3) kt by (simp add: kernel_at_def)
  have "kernel_step t pml fv {g} (t\<lparr>mem := m\<rparr>)" using km w(8) by (simp add: kernel_step_def static_part_def)
  then have "heap_block (t\<lparr>mem := m\<rparr>) pml fv p f 1" by (rule heap_block_kept [OF t(2)]) (use fg in simp)
  then have "heap_blocks (t\<lparr>mem := m\<rparr>) pml fv {p} (\<lambda>_. f) (\<lambda>_. 1)" by (simp add: heap_blocks_def)
  then have "heap_inv (t\<lparr>mem := m\<rparr>) {p}" using km unfolding heap_inv_def by blast
  then have hi: "heap_inv ?s {p}" using heap_inv_cong [OF mp] by simp
  have "other_page (t\<lparr>mem := m\<rparr>) pml fv g" using og w(5,6) by (simp add: other_page_def)
  then have "page_bytes t g \<subseteq> stable_bytes (t\<lparr>mem := m\<rparr>)"
    using km unfolding stable_bytes_def by (force simp: page_bytes_def)
  then have "archive_area a archive_demo \<subseteq> stable_bytes ?s"
    using archive_demo_area [of a] page stable_bytes_cong [OF mp] by blast
  moreover have "unat a = 4096 * g + unat (hhdm_offset t) + 1024" using off [of 1024] by (simp add: a_def)
  then have "a \<noteq> 0" by (metis add_is_0 unat_0 zero_neq_numeral)
  then have "archive m a archive_demo" by (rule archive_demo_holds) (simp add: m_def)
  then have "fs_ok archive_demo ?s" by (simp add: fs_ok_def MAX_USTAR_OPEN_FILES_def)
  ultimately have "ustar_inv archive_demo ?s" using hi by (auto simp: ustar_inv_def)
  moreover have "0xffff800000000000 \<le> x" if x: "x \<in> archive_area a archive_demo" for x
  proof -
    have "x \<in> bytes_of (frame_addr t g) 4096" using x archive_demo_area [of a] page by (auto simp: page_bytes_def frame_addr_def)
    then obtain i where i: "i < 4096" "x = frame_addr t g + of_nat i" unfolding bytes_of_iff by blast
    then have "unat x = 4096 * g + unat (hhdm_offset t) + i" using off by simp
    then show ?thesis by (simp add: hh word_le_nat_alt)
  qed
  moreover have "p \<noteq> 0" by (rule heap_block_address(1) [OF inv t(2)])
  ultimately show ?thesis using hi path by (intro exI [of _ ?s] exI [of _ p]) auto
qed

lemma archive_demo_entry: "find_entry [0x61] a archive_demo = Some (a, [0x2F, 0x61])"
  by (simp add: archive_demo_def norm_char_def)

lemma archive_demo_open:
  "\<exists>s :: ustar_state. ustar_inv archive_demo s \<and> file_open archive_demo s 0 [0x2F, 0x61] \<and> 0 \<in> set (open_files s) \<and>
     archive_area (tar_fs_start_address s) archive_demo \<subseteq> {x. 0xffff800000000000 \<le> x} \<and>
     is_cstr (mem_cstr (mem s) (tar_fs_start_address s + 512)) [0x2F, 0x61]"
proof -
  obtain s :: ustar_state and p where s: "ustar_inv archive_demo s" "heap_inv s {p}" "p \<noteq> 0"
    "archive_area (tar_fs_start_address s) archive_demo \<subseteq> {x. 0xffff800000000000 \<le> x}"
    "is_cstr (mem_cstr (mem s) (tar_fs_start_address s + 512)) [0x2F, 0x61]" using ustar_demo_archive by blast
  let ?t = "s\<lparr>open_files := p # replicate 511 0, ustar_files := \<lambda>_. \<lparr>ufd_header = tar_fs_start_address s,
    references = 1, ufd_size = 2\<rparr>\<rparr>"
  have f: "file_open archive_demo ?t 0 [0x2F, 0x61]"
    unfolding file_open_def Let_def using archive_demo_entry [of "tar_fs_start_address s"] s(3) by auto
  have "i = 0" if "i < 512" "(p # replicate 511 0) ! i \<noteq> 0" for i
    using that by (cases i) simp_all
  then have "fs_ok archive_demo ?t"
    using s(1) f unfolding ustar_inv_def fs_ok_def MAX_USTAR_OPEN_FILES_def by fastforce
  moreover have mp: "memory_part ?t = memory_part s" by (simp add: memory_part_def)
  ultimately have "ustar_inv archive_demo ?t"
    using s(1,2) heap_inv_cong [OF mp] stable_bytes_cong [OF mp] by (auto simp: ustar_inv_def)
  then show ?thesis using f s(4,5) by (intro exI [of _ ?t]) simp
qed

subsection \<open>Properties\<close>



text \<open>
  \<open>ustar_read\<close> of an open file, at an offset within it and into a buffer outside the archive:
  it returns the number of bytes left from the offset or the number asked for, whichever is less,
  the buffer holds exactly those bytes of the file, and no other byte of memory and nothing else
  changes.
\<close>

theorem ustar_read_correct:
  assumes "fs_ok es s" and "file_open es s file_id data" and "unat offset \<le> length data"
    and "bytes_of buffer (unat nbytes) \<inter> archive_area (tar_fs_start_address s) es = {}"
  defines "k \<equiv> min (unat nbytes) (length data - unat offset)"
  shows "\<exists>m. ustar_read file_id buffer nbytes offset s = Inr (of_nat k, s\<lparr>mem := m\<rparr>) \<and>
    (\<forall>i<k. m (buffer + of_nat i) = data ! (unat offset + i)) \<and> (\<forall>x. x \<notin> bytes_of buffer k \<longrightarrow> m x = mem s x)"
  using ustar_read_eq [OF assms(1-4)] by (simp add: k_def)

lemma ustar_read_correct_witness:
  "\<exists>(s :: ustar_state) m. ustar_read 0 0x1000 512 1 s = Inr (1, s\<lparr>mem := m\<rparr>) \<and> m 0x1000 = 0x61"
proof -
  obtain s :: ustar_state where s: "fs_ok archive_demo s" "file_open archive_demo s 0 [0x2F, 0x61]"
    "archive_area (tar_fs_start_address s) archive_demo \<subseteq> {x. 0xffff800000000000 \<le> x}"
    using archive_demo_open unfolding ustar_inv_def by blast
  have b: "x < 0xffff800000000000" if x: "x \<in> bytes_of 0x1000 (unat (512 :: u64))" for x :: u64
  proof -
    obtain i where i: "i < 512" "x = 0x1000 + of_nat i" using x unfolding bytes_of_iff by auto
    then have "unat x = 0x1000 + i" by (simp add: unat_add_small)
    then show ?thesis using i(1) by (simp add: word_less_nat_alt)
  qed
  have "bytes_of 0x1000 (unat (512 :: u64)) \<inter> archive_area (tar_fs_start_address s) archive_demo = {}"
    using s(3) b by (force simp del: bytes_of_iff)
  from ustar_read_correct [OF s(1,2) _ this, of 1] show ?thesis by (intro exI [of _ s]) auto
qed

end
