(* ===== verification/Vfs.thy ===== *)
theory Vfs
  imports Ustar
begin

text \<open>
  The virtual file system, \<open>fs/vfs.c\<close>. Mount points and tables of file system operations are in
  typed stores by heap address; a function pointer of the table is a \<open>fs_function option\<close>, and
  calling the null pointer is a \<open>Fault\<close>. The opened files are an array of structures. Paths and
  buffers are addresses. Arrays that the functions leave uninitialised, and the address of a
  literal, are the fields of \<open>vfs_locals\<close>.

  An index outside an array is a \<open>Fault\<close>. Conversions between \<open>int\<close> and 64-bit values are
  written out.
\<close>

subsection \<open>State\<close>

datatype fs_function = Ustar_open | Ustar_close | Ustar_read | Ustar_get_file_size | Ustar_read_dir

record fs_operations_t =
  op_open :: "fs_function option"
  op_close :: "fs_function option"
  op_read :: "fs_function option"
  op_write :: "fs_function option"
  op_get_file_size :: "fs_function option"
  op_open_dir :: "fs_function option"
  op_close_dir :: "fs_function option"
  op_read_dir :: "fs_function option"

record mountpoint_t =
  mp_id :: u8
  mp_type :: cstring
  mp_mountpoint :: cstring
  mp_device :: u64
  mp_operations :: u64

record file_descriptor_t =
  fs_file_id :: u64
  mountpoint_id :: u32
  filename :: u64
  buf_read_pos :: u64
  buf_write_pos :: u64
  file_size :: u64
  file_buffer :: u64

definition VFS_TYPE_LENGTH :: u32 where "VFS_TYPE_LENGTH = 32"
definition VFS_NAME_LENGTH :: u32 where "VFS_NAME_LENGTH = 512"
definition MAX_MOUNTPOINTS :: nat where "MAX_MOUNTPOINTS = 12"
definition MAX_OPENED_FILES :: nat where "MAX_OPENED_FILES = 512"

record vfs_state = ustar_state +
  next_mountpoint_id :: u64
  mounted_devices :: "u64 list"
  mounted_devices_num :: u8
  vfs_opened_files :: "file_descriptor_t list"
  mountpoints :: "u64 \<Rightarrow> mountpoint_t"
  fs_operations :: "u64 \<Rightarrow> fs_operations_t"

record vfs_locals =
  local_mountpoint :: "u8 \<Rightarrow> cstring"
  local_tar_filename :: cstring
  local_pathes :: "u64 list"
  literal_nul :: u64

subsection \<open>Mounting\<close>

text \<open>Fresh heap memory is zero, so the pointers that \<open>vfs_mount\<close> does not set are null.\<close>

definition zero_operations :: fs_operations_t where
  "zero_operations = \<lparr>op_open = None, op_close = None, op_read = None, op_write = None, op_get_file_size = None,
     op_open_dir = None, op_close_dir = None, op_read_dir = None\<rparr>"

text \<open>\<open>sizeof(mountpoint_t)\<close> is 568 and \<open>sizeof(fs_operations_t)\<close> is 64.\<close>

definition vfs_mount :: "u64 \<Rightarrow> cstring \<Rightarrow> cstring \<Rightarrow> 'a vfs_state_scheme \<Rightarrow> 'a vfs_state_scheme result" where
  "vfs_mount device target fs_type s =
     bindE (kalloc 568 s) (\<lambda>(new_mountpoint, s).
     bindE (kalloc 64 s) (\<lambda>(ops, s).
     let mp = \<lparr>mp_id = ucast (next_mountpoint_id s), mp_type = kstrcpy (\<lambda>_. 0) fs_type VFS_TYPE_LENGTH,
               mp_mountpoint = kstrcpy (\<lambda>_. 0) target VFS_NAME_LENGTH, mp_device = device, mp_operations = ops\<rparr>;
         s = s\<lparr>next_mountpoint_id := next_mountpoint_id s + 1\<rparr>;
         s = s\<lparr>fs_operations := (fs_operations s)(ops :=
               if kstrcmp fs_type (cstr ''ustar'') 5
               then zero_operations\<lparr>op_read := Some Ustar_read, op_open := Some Ustar_open, op_close := Some Ustar_close,
                      op_get_file_size := Some Ustar_get_file_size, op_read_dir := Some Ustar_read_dir\<rparr>
               else zero_operations)\<rparr>;
         s = s\<lparr>mountpoints := (mountpoints s)(new_mountpoint := mp)\<rparr>
     in if unat (mounted_devices_num s) < length (mounted_devices s)
        then Inr (s\<lparr>mounted_devices := (mounted_devices s)[unat (mounted_devices_num s) := new_mountpoint],
                    mounted_devices_num := mounted_devices_num s + 1\<rparr>)
        else Inl Fault))"

text \<open>The comparison of a path with a mount point's name: where they differ first, within 512 characters.\<close>

function match_loop :: "memory \<Rightarrow> u64 \<Rightarrow> cstring \<Rightarrow> u16 \<Rightarrow> u16 option" where
  "match_loop m c mountpoint j =
     (if c \<noteq> 0 \<and> j < 512 then
        if m c = mountpoint (unat j) then match_loop m (c + 1) mountpoint (j + 1) else Some j
      else None)"
  by pat_completeness auto
termination
proof (relation "measure (\<lambda>(m, c, mp, j). 512 - unat j)")
  fix m :: memory and c :: u64 and mp :: cstring and j :: u16
  assume "c \<noteq> 0 \<and> j < 512"
  then have "unat (j + 1) = Suc (unat j)" "unat j < 512" using unat_inc [of j 512] by (simp_all add: word_less_nat_alt)
  then show "((m, c + 1, mp, j + 1), m, c, mp, j) \<in> measure (\<lambda>(m, c, mp, j). 512 - unat j)" by simp
qed simp

declare match_loop.simps [simp del]

function mountpoint_loop :: "vfs_locals \<Rightarrow> u64 \<Rightarrow> 'a vfs_state_scheme \<Rightarrow> u8 \<Rightarrow> u16 \<Rightarrow> u8 \<Rightarrow> u8 result" where
  "mountpoint_loop loc path s i longest best =
     (if i < mounted_devices_num s then
        if length (mounted_devices s) \<le> unat i then Inl Fault
        else
          let d = mounted_devices s ! unat i in
          if d = 0 then mountpoint_loop loc path s (i + 1) longest best
          else
            case match_loop (mem s) path (kstrcpy (local_mountpoint loc i) (mp_mountpoint (mountpoints s d)) VFS_NAME_LENGTH) 0 of
              None \<Rightarrow> mountpoint_loop loc path s (i + 1) longest best
            | Some j \<Rightarrow> if longest < j then mountpoint_loop loc path s (i + 1) j i
                        else mountpoint_loop loc path s (i + 1) longest best
      else Inr best)"
  by pat_completeness auto
termination
  by (relation "measure (\<lambda>(loc, path, s, i, longest, best). unat (mounted_devices_num s) - unat i)")
    (auto simp: word_less_nat_alt)

declare mountpoint_loop.simps [simp del]

definition device_at :: "nat \<Rightarrow> 'a vfs_state_scheme \<Rightarrow> u64 result" where
  "device_at i s = (if i < length (mounted_devices s) then Inr (mounted_devices s ! i) else Inl Fault)"

definition vfs_get_mountpoint :: "vfs_locals \<Rightarrow> u64 \<Rightarrow> 'a vfs_state_scheme \<Rightarrow> u64 result" where
  "vfs_get_mountpoint loc path s = bindE (mountpoint_loop loc path s 0 0 0) (\<lambda>best. device_at (unat best) s)"

definition get_mountpoint_by_id :: "u64 \<Rightarrow> 'a vfs_state_scheme \<Rightarrow> u64 result" where
  "get_mountpoint_by_id mid s = device_at (unat (mid - 1)) s"

text \<open>
  The loop's conditions compare a character with the address of a literal, which always differ,
  so it goes on behind the terminators; leaving the name array is a \<open>Fault\<close>.
\<close>

function rel_path_loop :: "memory \<Rightarrow> cstring \<Rightarrow> u64 \<Rightarrow> nat \<Rightarrow> u64 result" where
  "rel_path_loop m m_path path i =
     (if i < unat VFS_NAME_LENGTH then if m_path i = m path then rel_path_loop m m_path (path + 1) (Suc i) else Inr path
      else Inl Fault)"
  by pat_completeness auto
termination
  by (relation "measure (\<lambda>(m, mp, path, i). unat VFS_NAME_LENGTH - i)") auto

declare rel_path_loop.simps [simp del]

definition get_rel_path :: "u64 \<Rightarrow> u64 \<Rightarrow> 'a vfs_state_scheme \<Rightarrow> u64 result" where
  "get_rel_path m path s = (if m = 0 then Inl Fault else rel_path_loop (mem s) (mp_mountpoint (mountpoints s m)) path 0)"

subsection \<open>Calls of a file system's operations\<close>

definition operations_of :: "u64 \<Rightarrow> 'a vfs_state_scheme \<Rightarrow> fs_operations_t result" where
  "operations_of mountpoint s =
     (if mountpoint = 0 \<or> mp_operations (mountpoints s mountpoint) = 0 then Inl Fault
      else Inr (fs_operations s (mp_operations (mountpoints s mountpoint))))"

definition call_open ::
  "u64 \<Rightarrow> vfs_locals \<Rightarrow> u64 \<Rightarrow> u32 \<Rightarrow> 'a vfs_state_scheme \<Rightarrow> (u64 \<times> 'a vfs_state_scheme) result" where
  "call_open mountpoint loc path oflags s =
     bindE (operations_of mountpoint s) (\<lambda>ops.
       if op_open ops = Some Ustar_open then ustar_open (local_tar_filename loc) (mem_cstr (mem s) path) oflags s else Inl Fault)"

definition call_close :: "u64 \<Rightarrow> u64 \<Rightarrow> 'a vfs_state_scheme \<Rightarrow> (u64 \<times> 'a vfs_state_scheme) result" where
  "call_close mountpoint file_id s =
     bindE (operations_of mountpoint s) (\<lambda>ops. if op_close ops = Some Ustar_close then ustar_close file_id s else Inl Fault)"

definition call_read ::
  "u64 \<Rightarrow> u64 \<Rightarrow> u64 \<Rightarrow> u64 \<Rightarrow> u64 \<Rightarrow> 'a vfs_state_scheme \<Rightarrow> (u64 \<times> 'a vfs_state_scheme) result" where
  "call_read mountpoint file_id buf nbytes offset s =
     bindE (operations_of mountpoint s) (\<lambda>ops.
       if op_read ops = Some Ustar_read then ustar_read file_id buf nbytes offset s else Inl Fault)"

definition call_get_file_size :: "u64 \<Rightarrow> u64 \<Rightarrow> 'a vfs_state_scheme \<Rightarrow> u64 result" where
  "call_get_file_size mountpoint file_id s =
     bindE (operations_of mountpoint s) (\<lambda>ops.
       if op_get_file_size ops = Some Ustar_get_file_size then ustar_get_file_size file_id s else Inl Fault)"

definition call_read_dir ::
  "u64 \<Rightarrow> vfs_locals \<Rightarrow> u64 \<Rightarrow> u64 \<Rightarrow> u64 \<Rightarrow> u64 \<Rightarrow> 'a vfs_state_scheme \<Rightarrow> (u64 \<times> 'a vfs_state_scheme) result" where
  "call_read_dir mountpoint loc path buf nbytes offset s =
     bindE (operations_of mountpoint s) (\<lambda>ops.
       if op_read_dir ops = Some Ustar_read_dir then ustar_read_dir (literal_nul loc) (local_pathes loc) path buf nbytes offset s
       else Inl Fault)"

text \<open>There is no function that writes: the pointer is null in every table.\<close>

definition call_write :: "u64 \<Rightarrow> u64 \<Rightarrow> u64 \<Rightarrow> u64 \<Rightarrow> 'a vfs_state_scheme \<Rightarrow> (u64 \<times> 'a vfs_state_scheme) result" where
  "call_write mountpoint file_id buf nbytes s = bindE (operations_of mountpoint s) (\<lambda>ops. Inl Fault)"

subsection \<open>Files\<close>

fun find_slot :: "file_descriptor_t list \<Rightarrow> nat \<Rightarrow> nat option" where
  "find_slot [] i = None"
| "find_slot (f # fs) i = (if fs_file_id f = 0 then Some i else find_slot fs (Suc i))"

text \<open>The descriptor is allocated with the size of a pointer, filled and copied into the table.\<close>

definition vfs_open :: "vfs_locals \<Rightarrow> u64 \<Rightarrow> u32 \<Rightarrow> 'a vfs_state_scheme \<Rightarrow> (u32 \<times> 'a vfs_state_scheme) result" where
  "vfs_open loc path oflags s =
     bindE (vfs_get_mountpoint loc path s) (\<lambda>mountpoint.
     if mountpoint = 0 then Inr (- 1, s)
     else
       bindE (get_rel_path mountpoint path s) (\<lambda>rel_path.
       bindE (call_open mountpoint loc rel_path oflags s) (\<lambda>(r, s).
       let fs_specific_id = ucast r :: u32 in
       if fs_specific_id = - 1 then Inr (- 1, s)
       else
         case find_slot (vfs_opened_files s) 0 of
           None \<Rightarrow> Inr (- 1, s)
         | Some vfs_id \<Rightarrow>
             bindE (kalloc 8 s) (\<lambda>(p, s).
             bindE (call_get_file_size mountpoint (scast fs_specific_id) s) (\<lambda>sz.
             let file_descriptor = \<lparr>fs_file_id = scast fs_specific_id, mountpoint_id = ucast (mp_id (mountpoints s mountpoint)),
                   filename = 0, buf_read_pos = 0, buf_write_pos = 0, file_size = sz, file_buffer = 0\<rparr>
             in Inr (of_nat vfs_id, s\<lparr>vfs_opened_files := (vfs_opened_files s)[vfs_id := file_descriptor]\<rparr>))))))"

definition vfs_file :: "u32 \<Rightarrow> 'a vfs_state_scheme \<Rightarrow> file_descriptor_t result" where
  "vfs_file file_id s = (if unat file_id < length (vfs_opened_files s) then Inr (vfs_opened_files s ! unat file_id) else Inl Fault)"

definition update_file ::
  "u32 \<Rightarrow> (file_descriptor_t \<Rightarrow> file_descriptor_t) \<Rightarrow> 'a vfs_state_scheme \<Rightarrow> 'a vfs_state_scheme" where
  "update_file file_id f s = s\<lparr>vfs_opened_files := (vfs_opened_files s)[unat file_id := f (vfs_opened_files s ! unat file_id)]\<rparr>"

definition vfs_close :: "u32 \<Rightarrow> 'a vfs_state_scheme \<Rightarrow> (u32 \<times> 'a vfs_state_scheme) result" where
  "vfs_close file_id s =
     bindE (vfs_file file_id s) (\<lambda>f.
     if fs_file_id f = - 1 then Inr (0, s)
     else
       bindE (get_mountpoint_by_id (scast (mountpoint_id f)) s) (\<lambda>mountpoint.
       bindE (call_close mountpoint (fs_file_id f) s) (\<lambda>(r, s).
       if (ucast r :: u32) = 0 then Inr (0, update_file file_id (fs_file_id_update (\<lambda>_. - 1)) s) else Inr (- 1, s))))"

definition vfs_read :: "u32 \<Rightarrow> u64 \<Rightarrow> u64 \<Rightarrow> 'a vfs_state_scheme \<Rightarrow> (u64 \<times> 'a vfs_state_scheme) result" where
  "vfs_read file_id buf nbytes s =
     bindE (vfs_file file_id s) (\<lambda>f.
     if fs_file_id f = - 1 then Inr (0, s)
     else
       bindE (get_mountpoint_by_id (scast (mountpoint_id f)) s) (\<lambda>mountpoint.
       bindE (call_read mountpoint (fs_file_id f) buf nbytes (buf_read_pos f) s) (\<lambda>(bytes_read, s).
       if bytes_read = 0 then Inr (0, s)
       else Inr (bytes_read, update_file file_id (buf_read_pos_update (\<lambda>p. p + bytes_read)) s))))"

definition print_text :: "cstring \<Rightarrow> u64 list \<Rightarrow> 'a proc_state_scheme \<Rightarrow> 'a proc_state_scheme result" where
  "print_text fmt args s = bindE (kprintf (mem s) fmt args (screen s)) (\<lambda>con. Inr (s\<lparr>screen := con\<rparr>))"

definition vfs_read_dir ::
  "vfs_locals \<Rightarrow> u64 \<Rightarrow> u64 \<Rightarrow> u64 \<Rightarrow> u64 \<Rightarrow> 'a vfs_state_scheme \<Rightarrow> (u64 \<times> 'a vfs_state_scheme) result" where
  "vfs_read_dir loc path buf nbytes offset s =
     bindE (print_text (cstr '''') [] s) (\<lambda>s.
     bindE (vfs_get_mountpoint loc path s) (\<lambda>mountpoint.
     if mountpoint = 0 then Inr (0, s)
     else
       bindE (get_rel_path mountpoint path s) (\<lambda>rel_path.
       call_read_dir mountpoint loc rel_path buf nbytes offset s)))"

definition vfs_write :: "u32 \<Rightarrow> u64 \<Rightarrow> u64 \<Rightarrow> 'a vfs_state_scheme \<Rightarrow> (u64 \<times> 'a vfs_state_scheme) result" where
  "vfs_write file_id buf nbytes s =
     bindE (vfs_file file_id s) (\<lambda>f.
     if fs_file_id f = - 1 then Inr (- 1, s)
     else
       bindE (get_mountpoint_by_id (scast (mountpoint_id f)) s) (\<lambda>mountpoint.
       bindE (call_write mountpoint (scast (ucast (fs_file_id f) :: u32)) buf nbytes s) (\<lambda>(r, s).
       let bytes_written = ucast r :: u32 in
       if bytes_written <s 0 then Inr (scast bytes_written, s)
       else if buf_write_pos (vfs_opened_files s ! unat file_id) + nbytes < file_size (vfs_opened_files s ! unat file_id)
       then Inr (scast bytes_written, update_file file_id (buf_write_pos_update (\<lambda>p. p + nbytes)) s)
       else
         let s = update_file file_id (buf_write_pos_update (\<lambda>p. p + nbytes)) s
         in Inr (scast bytes_written, update_file file_id (\<lambda>f. f\<lparr>file_size := buf_write_pos f\<rparr>) s))))"

subsection \<open>Execution of a file\<close>

text \<open>
  The buffer is an array of 512 64-bit numbers on the stack, at \<open>buffer\<close>; the file is read into
  its first bytes and copied as numbers, one for each byte read.
\<close>

function copy_words :: "u64 \<Rightarrow> u64 \<Rightarrow> u64 \<Rightarrow> u64 \<Rightarrow> memory \<Rightarrow> u64 \<times> memory" where
  "copy_words iter buffer j n m =
     (if j < n then copy_words (iter + 8) buffer (j + 1) n (store64 m iter (load64 m (buffer + 8 * j))) else (iter, m))"
  by pat_completeness auto
termination
  by (relation "measure (\<lambda>(iter, buffer, j, n, m). unat n - unat j)") (auto simp: word_less_nat_alt)

declare copy_words.simps [simp del]

partial_function (option) execute_loop ::
  "u32 \<Rightarrow> u64 \<Rightarrow> u64 \<Rightarrow> 'a vfs_state_scheme \<Rightarrow> 'a vfs_state_scheme result option" where
  "execute_loop file_id buffer iter s =
     (case vfs_read file_id buffer 512 s of
        Inl e \<Rightarrow> Some (Inl e)
      | Inr (n, s) \<Rightarrow>
          (case print_text (cstr ''read: %u\<newline>'') [n] s of
             Inl e \<Rightarrow> Some (Inl e)
           | Inr s \<Rightarrow>
               let (iter, m) = copy_words iter buffer 0 n (mem s); s = s\<lparr>mem := m\<rparr>
               in if n \<noteq> 0 then execute_loop file_id buffer iter s else Some (Inr s)))"

text \<open>The function has no return value after the process is created; \<open>None\<close> stands for it.\<close>

definition vfs_execute ::
  "bool \<Rightarrow> device \<Rightarrow> u64 \<Rightarrow> vfs_locals \<Rightarrow> u64 \<Rightarrow> u64 \<Rightarrow> 'a vfs_state_scheme \<Rightarrow> (u32 option \<times> 'a vfs_state_scheme) result" where
  "vfs_execute PROD_MODE dev wrapper loc buffer path s =
     bindE (vfs_open loc path 0 s) (\<lambda>(file_id, s).
     bindE (print_text (cstr ''id: %d'') [scast file_id] s) (\<lambda>s.
     if file_id <s 0 then Inr (Some file_id, s)
     else
       bindE (vfs_file file_id s) (\<lambda>f.
       bindE (kalloc (file_size f) s) (\<lambda>(dest, s).
       bindE (run_loop (execute_loop file_id buffer dest s)) (\<lambda>s.
       bindE (process_create PROD_MODE dev wrapper (cstr ''printer'') dest 0 s) (\<lambda>(p, s).
       bindE (print_text (proc_name (procs s p)) [] s) (\<lambda>s.
       Inr (None, s))))))))"

subsection \<open>System calls\<close>

definition vfs_open_syscall ::
  "vfs_locals \<Rightarrow> u64 \<Rightarrow> u64 \<Rightarrow> u64 \<Rightarrow> 'a vfs_state_scheme \<Rightarrow> (u64 \<times> 'a vfs_state_scheme) result" where
  "vfs_open_syscall loc frame path oflags s = bindE (vfs_open loc path (ucast oflags) s) (\<lambda>(r, s). Inr (scast r, s))"

definition vfs_close_syscall :: "u64 \<Rightarrow> u64 \<Rightarrow> 'a vfs_state_scheme \<Rightarrow> (u64 \<times> 'a vfs_state_scheme) result" where
  "vfs_close_syscall frame file_id s = bindE (vfs_close (ucast file_id) s) (\<lambda>(r, s). Inr (scast r, s))"

definition vfs_read_syscall ::
  "u64 \<Rightarrow> u64 \<Rightarrow> u64 \<Rightarrow> u64 \<Rightarrow> 'a vfs_state_scheme \<Rightarrow> (u64 \<times> 'a vfs_state_scheme) result" where
  "vfs_read_syscall frame file_id buf nbytes s = vfs_read (ucast file_id) buf nbytes s"

definition vfs_read_dir_syscall ::
  "vfs_locals \<Rightarrow> u64 \<Rightarrow> u64 \<Rightarrow> u64 \<Rightarrow> u64 \<Rightarrow> u64 \<Rightarrow> 'a vfs_state_scheme \<Rightarrow> (u64 \<times> 'a vfs_state_scheme) result" where
  "vfs_read_dir_syscall loc frame path buf nbytes offset s = vfs_read_dir loc path buf nbytes offset s"

text \<open>The boot loader's first module is the archive; its address is an argument, as is the literal's.\<close>

definition vfs_init :: "u64 \<Rightarrow> u64 \<Rightarrow> 'a vfs_state_scheme \<Rightarrow> 'a vfs_state_scheme result" where
  "vfs_init module_address main_memory s =
     vfs_mount main_memory (cstr ''/'') (cstr ''ustar'') (ustar_set_start_address module_address s)"

subsection \<open>The mounted archive\<close>

definition ustar_operations :: fs_operations_t where
  "ustar_operations = \<lparr>op_open = Some Ustar_open, op_close = Some Ustar_close, op_read = Some Ustar_read, op_write = None,
     op_get_file_size = Some Ustar_get_file_size, op_open_dir = None, op_close_dir = None, op_read_dir = Some Ustar_read_dir\<rparr>"

definition root_mountpoint :: "'a vfs_state_scheme \<Rightarrow> u64 \<Rightarrow> bool" where
  "root_mountpoint s d \<longleftrightarrow> d \<noteq> 0 \<and> mp_id (mountpoints s d) = 1 \<and> mp_mountpoint (mountpoints s d) = cstr ''/'' \<and>
     mp_operations (mountpoints s d) \<noteq> 0 \<and> fs_operations s (mp_operations (mountpoints s d)) = ustar_operations"

definition mounted :: "'a vfs_state_scheme \<Rightarrow> bool" where
  "mounted s \<longleftrightarrow> length (mounted_devices s) = MAX_MOUNTPOINTS \<and> mounted_devices_num s = 1 \<and>
     root_mountpoint s (mounted_devices s ! 0) \<and> length (vfs_opened_files s) = MAX_OPENED_FILES"

text \<open>An opened file with its contents and the read position.\<close>

definition vfs_file_open :: "(u8 list \<times> u8 list) list \<Rightarrow> 'a vfs_state_scheme \<Rightarrow> u32 \<Rightarrow> u8 list \<Rightarrow> nat \<Rightarrow> bool" where
  "vfs_file_open es s fid data pos \<longleftrightarrow> unat fid < length (vfs_opened_files s) \<and>
     (let f = vfs_opened_files s ! unat fid in mountpoint_id f = 1 \<and> file_open es s (fs_file_id f) data \<and>
      buf_read_pos f = of_nat pos \<and> pos \<le> length data \<and> file_size f = of_nat (length data))"

lemma mounted_operations:
  assumes "mounted s"
  shows "get_mountpoint_by_id 1 s = Inr (mounted_devices s ! 0)" "mounted_devices s ! 0 \<noteq> 0"
    "operations_of (mounted_devices s ! 0) s = Inr ustar_operations" "mp_id (mountpoints s (mounted_devices s ! 0)) = 1"
  using assms by (simp_all add: mounted_def root_mountpoint_def get_mountpoint_by_id_def device_at_def MAX_MOUNTPOINTS_def
      operations_of_def)

text \<open>With one device, every path leads to it.\<close>

lemma mounted_get_mountpoint:
  assumes "mounted s"
  shows "vfs_get_mountpoint loc path s = Inr (mounted_devices s ! 0)"
proof -
  have n: "mounted_devices_num s = 1" "length (mounted_devices s) = 12" "mounted_devices s ! 0 \<noteq> 0"
    using assms by (simp_all add: mounted_def root_mountpoint_def MAX_MOUNTPOINTS_def)
  have e: "mountpoint_loop loc path s 1 l b = Inr b" for l b
    by (subst mountpoint_loop.simps) (simp add: n)
  have "mountpoint_loop loc path s 0 0 0 = Inr 0"
    by (subst mountpoint_loop.simps) (simp add: n e split: option.split)
  then show ?thesis using n by (simp add: vfs_get_mountpoint_def device_at_def)
qed

lemma mounted_rel_path:
  assumes "mounted s" and "is_cstr (mem_cstr (mem s) path) (0x2F # text)" and "text \<noteq> []"
  shows "get_rel_path (mounted_devices s ! 0) path s = Inr (path + 1)" and "is_cstr (mem_cstr (mem s) (path + 1)) text"
proof -
  have c: "mem_cstr (mem s) path 0 = 0x2F" "is_cstr (shift (mem_cstr (mem s) path) 1) text"
    using assms(2) unfolding is_cstr_Cons by blast+
  have e: "mem_cstr (mem s) path (1 + i) = mem_cstr (mem s) (path + 1) i" for i by (simp add: mem_cstr_def ac_simps)
  have "shift (mem_cstr (mem s) path) 1 = mem_cstr (mem s) (path + 1)" unfolding fun_eq_iff shift_def e by simp
  then show t: "is_cstr (mem_cstr (mem s) (path + 1)) text" using c(2) by simp
  have "mem_cstr (mem s) (path + 1) 0 \<noteq> 0" using is_cstr_nonzero [OF t, of 0] assms(3) by simp
  then have "mem s (path + 1) \<noteq> 0" "mem s path = 0x2F" using c(1) by (simp_all add: mem_cstr_def)
  moreover have "cstr ''/'' 0 = 0x2F" "cstr ''/'' (Suc 0) = 0" by (simp_all add: cstr_def)
  ultimately have "rel_path_loop (mem s) (cstr ''/'') path 0 = Inr (path + 1)"
    by (subst rel_path_loop.simps, subst rel_path_loop.simps) (simp add: VFS_NAME_LENGTH_def)
  moreover have "mp_mountpoint (mountpoints s (mounted_devices s ! 0)) = cstr ''/''" "mounted_devices s ! 0 \<noteq> 0"
    using assms(1) by (simp_all add: mounted_def root_mountpoint_def)
  ultimately show "get_rel_path (mounted_devices s ! 0) path s = Inr (path + 1)" by (simp add: get_rel_path_def)
qed

subsection \<open>Reading\<close>

definition advanced :: "u32 \<Rightarrow> nat \<Rightarrow> memory \<Rightarrow> 'a vfs_state_scheme \<Rightarrow> 'a vfs_state_scheme" where
  "advanced fid k m s = update_file fid (buf_read_pos_update (\<lambda>p. p + of_nat k)) (s\<lparr>mem := m\<rparr>)"

lemma vfs_read_eq:
  assumes ok: "fs_ok es s" "mounted s" and f: "vfs_file_open es s fid data pos"
    and dis: "bytes_of buf (unat n) \<inter> archive_area (tar_fs_start_address s) es = {}"
  defines "k \<equiv> min (unat n) (length data - pos)"
  shows "\<exists>m. vfs_read fid buf n s = Inr (of_nat k, advanced fid k m s) \<and> (\<forall>i<k. m (buf + of_nat i) = data ! (pos + i)) \<and>
    (\<forall>x. x \<notin> bytes_of buf k \<longrightarrow> m x = mem s x) \<and> fs_ok es (advanced fid k m s) \<and> mounted (advanced fid k m s) \<and>
    vfs_file_open es (advanced fid k m s) fid data (pos + k)"
proof -
  let ?f = "vfs_opened_files s ! unat fid"
  have fd: "unat fid < length (vfs_opened_files s)" "mountpoint_id ?f = 1" "file_open es s (fs_file_id ?f) data"
    "buf_read_pos ?f = of_nat pos" "pos \<le> length data" "file_size ?f = of_nat (length data)"
    using f by (simp_all add: vfs_file_open_def Let_def)
  have "unat (fs_file_id ?f) < 512" using fd(3) ok(1) by (simp add: file_open_def fs_ok_def MAX_USTAR_OPEN_FILES_def)
  then have n1: "fs_file_id ?f \<noteq> - 1" by (auto simp: unsigned_minus_1_eq_mask mask_eq_exp_minus_1)
  obtain name where "record_at (mem s) (ufd_header (ustar_files s (open_files s ! unat (fs_file_id ?f)))) name data"
    using file_open_record [OF ok(1) fd(3)] by blast
  then have "length data < 8 ^ 10" unfolding record_at_def by blast
  then have len: "length data < 2 ^ 30" by simp
  then have up: "unat (of_nat pos :: u64) = pos" using fd(5) by simp
  obtain m where m: "ustar_read (fs_file_id ?f) buf n (of_nat pos) s = Inr (of_nat k, s\<lparr>mem := m\<rparr>)"
    "\<forall>i<k. m (buf + of_nat i) = data ! (pos + i)" "\<forall>x. x \<notin> bytes_of buf k \<longrightarrow> m x = mem s x"
    using ustar_read_eq [OF ok(1) fd(3) _ dis, of "of_nat pos"] up fd(5) by (auto simp: k_def)
  have "k \<le> length data - pos" by (simp add: k_def)
  then have k: "k \<le> unat n" "k < 2 ^ 30" "pos + k \<le> length data" using len fd(5) by (simp add: k_def, linarith, linarith)
  then have k0: "(of_nat k :: u64) = 0 \<longleftrightarrow> k = 0" using of_nat_eq_small [of k 0, where 'a = 64] by simp
  have "buf_read_pos_update (\<lambda>p. p) ?f = ?f" by (cases ?f) simp
  then have "update_file fid (buf_read_pos_update (\<lambda>p. p)) (s\<lparr>mem := m\<rparr>) = s\<lparr>mem := m\<rparr>"
    by (simp add: update_file_def list_update_same_conv fd(1))
  then have "vfs_read fid buf n s = Inr (of_nat k, advanced fid k m s)"
    using fd(1,2,4) n1 mounted_operations [OF ok(2)] m(1) k0
    by (auto simp: vfs_read_def vfs_file_def call_read_def ustar_operations_def advanced_def)
  moreover have "mem (advanced fid k m s) x = mem s x" if "x \<in> archive_area (tar_fs_start_address s) es" for x
  proof -
    have "x \<notin> bytes_of buf k" using subsetD [OF bytes_of_mono [OF k(1)]] IntI [of x] that dis by (metis empty_iff)
    then show ?thesis using m(3) by (simp add: advanced_def update_file_def)
  qed
  then have "fs_ok es (advanced fid k m s)" by (intro fs_ok_mem [OF ok(1)]) (simp_all add: advanced_def update_file_def)
  moreover have "mounted (advanced fid k m s)"
    using ok(2) by (simp add: mounted_def root_mountpoint_def advanced_def update_file_def)
  moreover have "vfs_file_open es (advanced fid k m s) fid data (pos + k)"
    using fd k(3) file_open_cong [of "advanced fid k m s" s es] by (simp add: vfs_file_open_def advanced_def update_file_def)
  ultimately show ?thesis using m(2,3) by blast
qed

text \<open>
  A reader with a position: each read hands over the next bytes of the contents and moves the
  position. Reads in a row then hand over the contents in a row.
\<close>

fun read_chunks ::
  "(u64 \<Rightarrow> 's \<Rightarrow> (u64 \<times> 's) result) \<Rightarrow> ('s \<Rightarrow> nat \<Rightarrow> u8 list) \<Rightarrow> u64 list \<Rightarrow> 's \<Rightarrow> (u8 list \<times> 's) result" where
  "read_chunks rd got [] s = Inr ([], s)"
| "read_chunks rd got (n # ns) s =
     bindE (rd n s) (\<lambda>(k, t). bindE (read_chunks rd got ns t) (\<lambda>(bs, u). Inr (got t (unat k) @ bs, u)))"

locale cursor_reader =
  fixes rd :: "u64 \<Rightarrow> 's \<Rightarrow> (u64 \<times> 's) result" and positioned :: "'s \<Rightarrow> u8 list \<Rightarrow> nat \<Rightarrow> bool"
    and got :: "'s \<Rightarrow> nat \<Rightarrow> u8 list" and limit :: nat
  assumes read_contract: "positioned s data pos \<Longrightarrow> unat n \<le> limit \<Longrightarrow>
      \<exists>t. rd n s = Inr (of_nat (min (unat n) (length data - pos)), t) \<and>
        positioned t data (pos + min (unat n) (length data - pos)) \<and>
        got t (min (unat n) (length data - pos)) = take (unat n) (drop pos data)"
begin

lemma chunks_in_order:
  "positioned s data pos \<Longrightarrow> pos \<le> length data \<Longrightarrow> \<forall>n\<in>set ns. unat n \<le> limit \<Longrightarrow>
   \<exists>t. read_chunks rd got ns s = Inr (take (sum_list (map unat ns)) (drop pos data), t) \<and>
     positioned t data (min (pos + sum_list (map unat ns)) (length data))"
proof (induction ns arbitrary: s pos)
  case Nil
  then show ?case by (simp add: min_def)
next
  case (Cons n ns)
  let ?k = "min (unat n) (length data - pos)"
  obtain t where t: "rd n s = Inr (of_nat ?k, t)" "positioned t data (pos + ?k)" "got t ?k = take (unat n) (drop pos data)"
    using read_contract [OF Cons.prems(1), of n] Cons.prems(3) by auto
  have "?k < 2 ^ 64" using unat_bound [of n] by simp
  then have u: "unat (of_nat ?k :: u64) = ?k" by simp
  have k: "pos + ?k \<le> length data" using Cons.prems(2) by simp
  obtain v where v: "read_chunks rd got ns t = Inr (take (sum_list (map unat ns)) (drop (pos + ?k) data), v)"
    "positioned v data (min (pos + ?k + sum_list (map unat ns)) (length data))"
    using Cons.IH [OF t(2) k] Cons.prems(3) by auto
  have "take (sum_list (map unat (n # ns))) (drop pos data) =
      take (unat n) (drop pos data) @ take (sum_list (map unat ns)) (drop (pos + unat n) data)"
    by (simp add: take_add add.commute)
  moreover have "drop (pos + ?k) data = drop (pos + unat n) data" by (simp add: min_def)
  moreover have "min (pos + ?k + sum_list (map unat ns)) (length data) = min (pos + sum_list (map unat (n # ns))) (length data)"
    unfolding list.map sum_list.Cons using Cons.prems(2) by linarith
  ultimately show ?case using t(1,3) v u by simp
qed

text \<open>Enough reads deliver the rest of the contents, and then no more.\<close>

lemma chunks_all:
  assumes "positioned s data pos" and "pos \<le> length data" and "unat n \<le> limit" and "length data - pos \<le> c * unat n"
  shows "\<exists>t u. read_chunks rd got (replicate c n) s = Inr (drop pos data, t) \<and> rd n t = Inr (0, u) \<and> positioned t data (length data)"
proof -
  have "sum_list (map unat (replicate c n)) = c * unat n" by (simp add: sum_list_replicate)
  moreover have "take (c * unat n) (drop pos data) = drop pos data" "min (pos + c * unat n) (length data) = length data"
    using assms(2,4) by simp_all
  ultimately obtain t where t: "read_chunks rd got (replicate c n) s = Inr (drop pos data, t)" "positioned t data (length data)"
    using chunks_in_order [OF assms(1,2), of "replicate c n"] assms(3) by auto
  then show ?thesis using read_contract [OF t(2) assms(3)] by auto
qed

end

definition buffer_bytes :: "u64 \<Rightarrow> 'a vfs_state_scheme \<Rightarrow> nat \<Rightarrow> u8 list" where
  "buffer_bytes buf s k = map (\<lambda>i. mem s (buf + of_nat i)) [0..<k]"

definition vfs_at ::
  "(u8 list \<times> u8 list) list \<Rightarrow> u32 \<Rightarrow> u64 \<Rightarrow> nat \<Rightarrow> 'a vfs_state_scheme \<Rightarrow> u8 list \<Rightarrow> nat \<Rightarrow> bool" where
  "vfs_at es fid buf limit s data pos \<longleftrightarrow> fs_ok es s \<and> mounted s \<and> vfs_file_open es s fid data pos \<and>
     bytes_of buf limit \<inter> archive_area (tar_fs_start_address s) es = {}"

interpretation vr: cursor_reader "vfs_read fid buf" "vfs_at es fid buf limit" "buffer_bytes buf" limit for fid buf es limit
proof unfold_locales
  fix s :: "'a vfs_state_scheme" and data pos and n :: u64
  assume a: "vfs_at es fid buf limit s data pos" and n: "unat n \<le> limit"
  let ?k = "min (unat n) (length data - pos)"
  have dis: "bytes_of buf (unat n) \<inter> archive_area (tar_fs_start_address s) es = {}"
    using a bytes_of_mono [OF n, of buf] unfolding vfs_at_def by blast
  obtain m where m: "vfs_read fid buf n s = Inr (of_nat ?k, advanced fid ?k m s)"
    "\<forall>i<?k. m (buf + of_nat i) = data ! (pos + i)" "fs_ok es (advanced fid ?k m s)" "mounted (advanced fid ?k m s)"
    "vfs_file_open es (advanced fid ?k m s) fid data (pos + ?k)"
    using vfs_read_eq [OF _ _ _ dis, of fid data pos] a unfolding vfs_at_def by blast
  have t: "mem (advanced fid ?k m s) = m" "tar_fs_start_address (advanced fid ?k m s) = tar_fs_start_address s"
    by (simp_all add: advanced_def update_file_def)
  have "pos \<le> length data" using a by (simp add: vfs_at_def vfs_file_open_def Let_def)
  then have "buffer_bytes buf (advanced fid ?k m s) ?k = take (unat n) (drop pos data)"
    using m(2) by (intro nth_equalityI) (simp_all add: buffer_bytes_def t)
  moreover have "vfs_at es fid buf limit (advanced fid ?k m s) data (pos + ?k)"
    using m(3-5) a t(2) by (simp add: vfs_at_def)
  ultimately show "\<exists>t. vfs_read fid buf n s = Inr (of_nat ?k, t) \<and> vfs_at es fid buf limit t data (pos + ?k) \<and>
      buffer_bytes buf t ?k = take (unat n) (drop pos data)"
    using m(1) by blast
qed

subsection \<open>Opening\<close>

definition vfs_inv :: "(u8 list \<times> u8 list) list \<Rightarrow> 'a vfs_state_scheme \<Rightarrow> bool" where
  "vfs_inv es s \<longleftrightarrow> ustar_inv es s \<and> mounted s"

lemma ustar_inv_cong:
  assumes "memory_part t = memory_part s" "open_files t = open_files s" "ustar_files t = ustar_files s"
    "tar_fs_start_address t = tar_fs_start_address s"
  shows "ustar_inv es t = ustar_inv es s"
proof -
  have "mem t = mem s" using assms(1) by (simp add: memory_part_def)
  moreover have "file_open es t = file_open es s" using assms(2-4) by (simp add: fun_eq_iff file_open_def)
  ultimately have "fs_ok es t = fs_ok es s" unfolding fs_ok_def assms(2,4) by simp
  then show ?thesis unfolding ustar_inv_def assms(2,4) stable_bytes_cong [OF assms(1)] using heap_inv_cong [OF assms(1)] by simp
qed

lemma ustar_kalloc:
  fixes s :: "'a ustar_state_scheme"
  assumes inv: "ustar_inv es s" and sz: "unat sz + 48 + 4095 < 2 ^ 64"
  shows "kalloc sz s = Inl (Panic ''PMM_ALLOC: failed to allocate memory'') \<or>
    (\<exists>p t. kalloc sz s = Inr (p, t) \<and> p \<noteq> 0 \<and> ustar_inv es t \<and> file_open es t = file_open es s \<and>
      ustar_state.more t = ustar_state.more s \<and> open_files t = open_files s \<and> tar_fs_start_address t = tar_fs_start_address s)"
proof -
  obtain B where "heap_inv s B" using inv by (auto simp: ustar_inv_def)
  from kh.alloc_contract [OF this sz] show ?thesis
  proof (elim disjE exE conjE)
    fix p t assume a: "kalloc sz s = Inr (p, t)" and p: "p \<noteq> 0"
    note k = ustar_inv_kalloc [OF inv sz a]
    then show ?thesis using a p heap_rest_ustar [OF k(3)] by simp
  qed simp
qed

lemma more_vfs:
  fixes s t :: "'a vfs_state_scheme"
  assumes "ustar_state.more t = ustar_state.more s"
  shows "next_mountpoint_id t = next_mountpoint_id s" "mounted_devices t = mounted_devices s"
    "mounted_devices_num t = mounted_devices_num s" "vfs_opened_files t = vfs_opened_files s"
    "mountpoints t = mountpoints s" "fs_operations t = fs_operations s"
  using assms by (cases t; cases s; simp)+

lemma more_mounted:
  fixes s t :: "'a vfs_state_scheme"
  assumes "ustar_state.more t = ustar_state.more s"
  shows "mounted t = mounted s"
  by (simp add: mounted_def root_mountpoint_def more_vfs [OF assms])

lemma int_minus_1: "(ucast (- 1 :: u64) :: u32) = - 1"
  by (rule bit_word_eqI) (simp add: bit_simps)

lemma small_int:
  assumes "unat (x :: u64) < 512"
  shows "(ucast x :: u32) \<noteq> - 1" and "scast (ucast x :: u32) = x"
proof -
  have u: "unat (ucast x :: u32) = unat x" using assms by (simp add: unsigned_ucast_eq take_bit_nat_eq_self)
  then show "(ucast x :: u32) \<noteq> - 1" using assms by (auto simp: unsigned_minus_1_eq_mask mask_eq_exp_minus_1)
  have "int (unat x) < 512" using assms by linarith
  then have b: "uint x < 512" by simp
  have "int (unat (ucast x :: u32)) = int (unat x)" using u by simp
  then have c: "uint (ucast x :: u32) = uint x" by simp
  have "signed_take_bit 31 (uint x) = uint x" 
  proof (rule signed_take_bit_int_eq_self)
    show "- (2 ^ 31) \<le> uint x" using order_trans [OF _ uint_ge_0 [of x], of "- (2 ^ 31)"] by simp
  qed (use b in simp)
  then have "sint (ucast x :: u32) = uint x" by (simp add: sint_uint c)
  then show "scast (ucast x :: u32) = x" by (simp add: scast_eq)
qed

lemma find_slot_eq:
  "find_slot fs i = (if \<exists>f\<in>set fs. fs_file_id f = 0 then Some (i + length (takeWhile (\<lambda>f. fs_file_id f \<noteq> 0) fs)) else None)"
  by (induction fs arbitrary: i) auto

lemma first_slot:
  assumes "\<exists>f\<in>set fs. fs_file_id f = 0"
  shows "length (takeWhile (\<lambda>f. fs_file_id f \<noteq> 0) fs) < length fs"
  using assms by (induction fs) auto

text \<open>The entry that the virtual file system makes for a file that the file system has opened.\<close>

lemma vfs_register:
  fixes s :: "'a vfs_state_scheme"
  assumes inv: "vfs_inv es s" and f: "file_open es s x data" and x: "unat x < 512" and i: "i < length (vfs_opened_files s)"
  defines "fd \<equiv> \<lparr>fs_file_id = x, mountpoint_id = ucast (mp_id (mountpoints s (mounted_devices s ! 0))), filename = 0,
    buf_read_pos = 0, buf_write_pos = 0, file_size = of_nat (length data), file_buffer = 0\<rparr>"
  defines "t \<equiv> s\<lparr>vfs_opened_files := (vfs_opened_files s)[i := fd]\<rparr>"
  shows "call_get_file_size (mounted_devices s ! 0) x s = Inr (of_nat (length data))" and "vfs_inv es t"
    and "vfs_file_open es t (of_nat i) data 0"
    and "j \<noteq> of_nat i \<Longrightarrow> vfs_file_open es s j d p \<Longrightarrow> vfs_file_open es t j d p"
proof -
  have m: "mounted s" and u: "ustar_inv es s" using inv by (simp_all add: vfs_inv_def)
  have len: "length (vfs_opened_files s) = 512" using m by (simp add: mounted_def MAX_OPENED_FILES_def)
  then have ui: "unat (of_nat i :: u32) = i" using i by simp
  show "call_get_file_size (mounted_devices s ! 0) x s = Inr (of_nat (length data))"
    using mounted_operations [OF m] f
    by (simp add: call_get_file_size_def ustar_operations_def ustar_get_file_size_def open_file_def file_open_def Let_def)
  have "ustar_inv es t = ustar_inv es s" by (rule ustar_inv_cong) (simp_all add: t_def memory_part_def)
  moreover have "mounted t" using m by (simp add: mounted_def root_mountpoint_def t_def)
  ultimately show "vfs_inv es t" using u by (simp add: vfs_inv_def)
  have o: "file_open es t = file_open es s" by (rule file_open_cong) (simp_all add: t_def)
  show "vfs_file_open es t (of_nat i) data 0"
    using i ui f o mounted_operations(4) [OF m] by (simp add: vfs_file_open_def t_def fd_def)
  show "vfs_file_open es t j d p" if j: "j \<noteq> of_nat i" "vfs_file_open es s j d p"
  proof -
    have "unat j \<noteq> i" using j(1) by auto
    then show ?thesis using j(2) o by (simp add: vfs_file_open_def t_def)
  qed
qed

lemma vfs_open_cases:
  fixes s :: "'a vfs_state_scheme"
  assumes inv: "vfs_inv es s" and path: "is_cstr (mem_cstr (mem s) path) (0x2F # text)" "text \<noteq> []"
  shows "case find_entry text (tar_fs_start_address s) es of
      None \<Rightarrow> vfs_open loc path oflags s = Inr (- 1, s)
    | Some (h, data) \<Rightarrow>
        vfs_open loc path oflags s = Inl (Panic ''PMM_ALLOC: failed to allocate memory'') \<or>
        (\<exists>r t. vfs_open loc path oflags s = Inr (r, t) \<and> vfs_inv es t \<and>
          (if 0 \<in> set (open_files s) \<and> (\<exists>f\<in>set (vfs_opened_files s). fs_file_id f = 0)
           then r = of_nat (length (takeWhile (\<lambda>f. fs_file_id f \<noteq> 0) (vfs_opened_files s))) \<and> vfs_file_open es t r data 0 \<and>
             (\<forall>j d p. j \<noteq> r \<longrightarrow> vfs_file_open es s j d p \<longrightarrow> vfs_file_open es t j d p)
           else r = - 1 \<and> vfs_opened_files t = vfs_opened_files s))"
proof -
  have m: "mounted s" and u: "ustar_inv es s" using inv by (simp_all add: vfs_inv_def)
  note rel = mounted_rel_path [OF m path] and ops = mounted_operations [OF m]
  let ?d = "mounted_devices s ! 0" and ?c = "mem_cstr (mem s) (path + 1)"
  have open_eq: "vfs_open loc path oflags s =
      bindE (ustar_open (local_tar_filename loc) ?c oflags s) (\<lambda>(r, s).
        if (ucast r :: u32) = - 1 then Inr (- 1, s)
        else case find_slot (vfs_opened_files s) 0 of
          None \<Rightarrow> Inr (- 1, s)
        | Some vfs_id \<Rightarrow>
            bindE (kalloc 8 s) (\<lambda>(p, s).
            bindE (call_get_file_size ?d (scast (ucast r :: u32)) s) (\<lambda>sz.
            Inr (of_nat vfs_id, s\<lparr>vfs_opened_files := (vfs_opened_files s)[vfs_id :=
              \<lparr>fs_file_id = scast (ucast r :: u32), mountpoint_id = ucast (mp_id (mountpoints s ?d)), filename = 0,
               buf_read_pos = 0, buf_write_pos = 0, file_size = sz, file_buffer = 0\<rparr>]\<rparr>))))"
    using mounted_get_mountpoint [OF m] rel(1) ops(2,3) unfolding vfs_open_def Let_def
    by (simp add: call_open_def ustar_operations_def)
  note uo = ustar_open_cases [OF u rel(2) path(2), of "local_tar_filename loc" oflags]
  show ?thesis
  proof (cases "find_entry text (tar_fs_start_address s) es")
    case None
    then show ?thesis using uo open_eq by (simp add: int_minus_1)
  next
    case (Some e)
    then obtain h data where e: "find_entry text (tar_fs_start_address s) es = Some (h, data)" by (cases e) auto
    from uo e consider (panic) "ustar_open (local_tar_filename loc) ?c oflags s = Inl (Panic ''PMM_ALLOC: failed to allocate memory'')"
      | (ok) x t where "ustar_open (local_tar_filename loc) ?c oflags s = Inr (x, t)" "ustar_inv es t"
        "ustar_state.more t = ustar_state.more s" "\<forall>j d. file_open es s j d \<longrightarrow> file_open es t j d"
        "if 0 \<in> set (open_files s) then unat x < MAX_USTAR_OPEN_FILES \<and> open_files s ! unat x = 0 \<and> file_open es t x data else x = - 1"
      by auto
    then show ?thesis
    proof cases
      case panic
      then show ?thesis using e open_eq by simp
    next
      case ok
      note M = more_vfs [OF ok(3)]
      have mt: "mounted t" using m more_mounted [OF ok(3)] by simp
      show ?thesis
      proof (cases "0 \<in> set (open_files s) \<and> (\<exists>f\<in>set (vfs_opened_files s). fs_file_id f = 0)")
        case False
        then have "vfs_open loc path oflags s = Inr (- 1, t)"
          using open_eq ok(1,5) small_int(1) [of x] by (auto simp: int_minus_1 find_slot_eq M MAX_USTAR_OPEN_FILES_def split: if_splits)
        then show ?thesis using e False ok(2) mt M(4) by (auto simp: vfs_inv_def)
      next
        case True
        let ?i = "length (takeWhile (\<lambda>f. fs_file_id f \<noteq> 0) (vfs_opened_files s))"
        have x: "unat x < 512" "file_open es t x data" using ok(5) True by (simp_all add: MAX_USTAR_OPEN_FILES_def)
        note r = small_int [OF x(1)]
        have sl: "find_slot (vfs_opened_files t) 0 = Some ?i" using True by (simp add: find_slot_eq M(4))
        have sz: "unat (8 :: u64) + 48 + 4095 < 2 ^ 64" by simp
        from ustar_kalloc [OF ok(2) sz] show ?thesis
        proof (elim disjE exE conjE)
          assume "kalloc 8 t = Inl (Panic ''PMM_ALLOC: failed to allocate memory'')"
          then show ?thesis using e open_eq ok(1) r(1) sl by simp
        next
          fix p t2 assume t2: "kalloc 8 t = Inr (p, t2)" "ustar_inv es t2" "file_open es t2 = file_open es t"
            "ustar_state.more t2 = ustar_state.more t"
          note M2 = more_vfs [OF t2(4)]
          have inv2: "vfs_inv es t2" using t2(2) mt more_mounted [OF t2(4)] by (simp add: vfs_inv_def)
          have i: "?i < length (vfs_opened_files t2)" using first_slot [of "vfs_opened_files s"] True by (simp only: M2 M)
          note reg = vfs_register [OF inv2 _ x(1) i, of data]
          have o: "file_open es t2 x data" using x(2) t2(3) by simp
          have old: "vfs_file_open es t2 j d q" if "vfs_file_open es s j d q" for j d q
            using that ok(4) t2(3) by (simp add: vfs_file_open_def M M2 Let_def)
          show ?thesis
            using e True open_eq ok(1) r sl t2(1) reg [OF o] old by (auto simp: M M2)
        qed
      qed
    qed
  qed
qed

subsection \<open>Start\<close>

text \<open>The globals before \<open>vfs_init\<close>.\<close>

definition vfs_unmounted :: "'a vfs_state_scheme \<Rightarrow> bool" where
  "vfs_unmounted s \<longleftrightarrow> next_mountpoint_id s = 1 \<and> mounted_devices s = replicate MAX_MOUNTPOINTS 0 \<and> mounted_devices_num s = 0 \<and>
     length (vfs_opened_files s) = MAX_OPENED_FILES"

lemma kstrcpy_cstr:
  assumes "length text < unat n" and "\<forall>c\<in>set text. (of_char c :: u8) \<noteq> 0"
  shows "kstrcpy (\<lambda>_. 0) (cstr text) n = cstr text"
proof
  have "(of_char (text ! k) :: u8) \<noteq> 0" if "k < length text" for k using assms(2) nth_mem [OF that] by blast
  then show "kstrcpy (\<lambda>_. 0) (cstr text) n i = cstr text i" for i
    using assms(1) by (auto simp: kstrcpy_apply cstr_def)
qed

lemma kstrcmp_refl: "kstrcmp c c n"
  unfolding kstrcmp_eq_upto cstr_eq_upto_def by blast

lemma vfs_init_cases:
  fixes s :: "'a vfs_state_scheme"
  assumes inv: "ustar_inv es (ustar_set_start_address a s)" and un: "vfs_unmounted s"
  shows "vfs_init a dev s = Inl (Panic ''PMM_ALLOC: failed to allocate memory'') \<or>
    (\<exists>t. vfs_init a dev s = Inr t \<and> vfs_inv es t \<and> tar_fs_start_address t = a \<and> vfs_opened_files t = vfs_opened_files s \<and>
      open_files t = open_files s)"
proof -
  let ?s = "ustar_set_start_address a s"
  have s0: "vfs_unmounted ?s" "tar_fs_start_address ?s = a" "open_files ?s = open_files s" "vfs_opened_files ?s = vfs_opened_files s"
    using un by (simp_all add: vfs_unmounted_def ustar_set_start_address_def)
  have sz: "unat (568 :: u64) + 48 + 4095 < 2 ^ 64" "unat (64 :: u64) + 48 + 4095 < 2 ^ 64" by simp_all
  from ustar_kalloc [OF inv sz(1)] show ?thesis
  proof (elim disjE exE conjE)
    fix p1 t1 assume t1: "kalloc 568 ?s = Inr (p1, t1)" "p1 \<noteq> 0" "ustar_inv es t1" "ustar_state.more t1 = ustar_state.more ?s"
      "open_files t1 = open_files ?s" "tar_fs_start_address t1 = tar_fs_start_address ?s"
    note M1 = more_vfs [OF t1(4)]
    from ustar_kalloc [OF t1(3) sz(2)] show ?thesis
    proof (elim disjE exE conjE)
      fix p2 t2 assume t2: "kalloc 64 t1 = Inr (p2, t2)" "p2 \<noteq> 0" "ustar_inv es t2" "ustar_state.more t2 = ustar_state.more t1"
        "open_files t2 = open_files t1" "tar_fs_start_address t2 = tar_fs_start_address t1"
      note M2 = more_vfs [OF t2(4)]
      let ?t = "t2\<lparr>next_mountpoint_id := 2, fs_operations := (fs_operations t2)(p2 := ustar_operations),
          mountpoints := (mountpoints t2)(p1 := \<lparr>mp_id = 1, mp_type = cstr ''ustar'', mp_mountpoint = cstr ''/'',
            mp_device = dev, mp_operations = p2\<rparr>),
          mounted_devices := (replicate MAX_MOUNTPOINTS 0)[0 := p1], mounted_devices_num := 1\<rparr>"
      have ops: "zero_operations\<lparr>op_read := Some Ustar_read, op_open := Some Ustar_open, op_close := Some Ustar_close,
          op_get_file_size := Some Ustar_get_file_size, op_read_dir := Some Ustar_read_dir\<rparr> = ustar_operations"
        by (simp add: zero_operations_def ustar_operations_def)
      have "vfs_init a dev s = Inr ?t"
        unfolding vfs_init_def vfs_mount_def Let_def
        using t1(1) t2(1) s0(1) ops kstrcmp_refl [of "cstr ''ustar''" 5]
          kstrcpy_cstr [of "''ustar''" VFS_TYPE_LENGTH] kstrcpy_cstr [of "''/''" VFS_NAME_LENGTH]
        by (simp add: M1 M2 vfs_unmounted_def MAX_MOUNTPOINTS_def VFS_TYPE_LENGTH_def VFS_NAME_LENGTH_def)
      moreover have "ustar_inv es ?t = ustar_inv es t2" by (rule ustar_inv_cong) (simp_all add: memory_part_def)
      moreover have "mounted ?t"
        using s0(1) t1(2) t2(2) by (simp add: mounted_def root_mountpoint_def MAX_MOUNTPOINTS_def M1 M2 vfs_unmounted_def)
      ultimately show ?thesis using t1 t2 s0(2-4) by (simp add: vfs_inv_def M1 M2)
    qed (use t1(1) in \<open>simp add: vfs_init_def vfs_mount_def\<close>)
  qed (simp add: vfs_init_def vfs_mount_def)
qed

subsection \<open>Examples\<close>

text \<open>A mounted system over a given file system, whose first file is described by \<open>f\<close>.\<close>

definition vfs_demo :: "ustar_state \<Rightarrow> file_descriptor_t \<Rightarrow> vfs_state" where
  "vfs_demo s f = ustar_state.extend s (vfs_state.fields 2 ((replicate 12 0)[0 := 1]) 1 (f # replicate 511 f)
     (\<lambda>_. \<lparr>mp_id = 1, mp_type = cstr ''ustar'', mp_mountpoint = cstr ''/'', mp_device = 0, mp_operations = 1\<rparr>)
     (\<lambda>_. ustar_operations))"

definition file_demo :: "u64 \<Rightarrow> file_descriptor_t" where
  "file_demo n = \<lparr>fs_file_id = 0, mountpoint_id = 1, filename = 0, buf_read_pos = 0, buf_write_pos = 0, file_size = n, file_buffer = 0\<rparr>"

lemma vfs_demo_fields:
  "mem (vfs_demo s f) = mem s" "memory_part (vfs_demo s f) = memory_part s" "open_files (vfs_demo s f) = open_files s"
  "ustar_files (vfs_demo s f) = ustar_files s" "tar_fs_start_address (vfs_demo s f) = tar_fs_start_address s"
  "vfs_opened_files (vfs_demo s f) = f # replicate 511 f" "free_count (vfs_demo s f) = free_count s" "mounted (vfs_demo s f)"
  by (simp_all add: vfs_demo_def ustar_state.defs vfs_state.defs memory_part_def free_count_def page_used_def mounted_def
      root_mountpoint_def MAX_MOUNTPOINTS_def MAX_OPENED_FILES_def)

lemma vfs_demo_inv: "ustar_inv es s \<Longrightarrow> vfs_inv es (vfs_demo s f)"
  using ustar_inv_cong [OF vfs_demo_fields(2-5)] vfs_demo_fields(8) by (simp add: vfs_inv_def)

lemma vfs_demo_at:
  assumes "fs_ok archive_demo s" and "file_open archive_demo s 0 [0x2F, 0x61]"
    and "archive_area (tar_fs_start_address s) archive_demo \<subseteq> {x. 0xffff800000000000 \<le> x}"
  shows "vfs_at archive_demo 0 0x1000 512 (vfs_demo s (file_demo 2)) [0x2F, 0x61] 0"
proof -
  let ?s = "vfs_demo s (file_demo 2)"
  have o: "file_open archive_demo ?s = file_open archive_demo s" by (simp add: fun_eq_iff file_open_def vfs_demo_fields)
  then have "fs_ok archive_demo ?s" using assms(1) unfolding fs_ok_def vfs_demo_fields by simp
  moreover have "vfs_file_open archive_demo ?s 0 [0x2F, 0x61] 0"
    using assms(2) o by (simp add: vfs_file_open_def vfs_demo_fields file_demo_def)
  moreover have "x < 0xffff800000000000" if x: "x \<in> bytes_of 0x1000 512" for x :: u64
  proof -
    obtain i where i: "i < 512" "x = 0x1000 + of_nat i" using x unfolding bytes_of_iff by blast
    then have "unat x = 0x1000 + i" by (simp add: unat_add_small)
    then show ?thesis using i(1) by (simp add: word_less_nat_alt)
  qed
  then have "bytes_of 0x1000 512 \<inter> archive_area (tar_fs_start_address s) archive_demo = {}"
    using assms(3) by (force simp del: bytes_of_iff)
  ultimately show ?thesis by (simp add: vfs_at_def vfs_demo_fields)
qed

subsection \<open>Properties\<close>



text \<open>
  C16. Reads through the virtual file system, one after the other and of any sizes up to the
  buffer's, deliver the contents of the file from the read position in order and without gaps:
  together the first bytes of the rest of the file, as many as were asked for in all or as there
  are.
\<close>

theorem vfs_read_in_order:
  assumes "vfs_at es fid buf limit s data pos" and "pos \<le> length data" and "\<forall>n\<in>set ns. unat n \<le> limit"
  shows "\<exists>t. read_chunks (vfs_read fid buf) (buffer_bytes buf) ns s = Inr (take (sum_list (map unat ns)) (drop pos data), t) \<and>
    vfs_at es fid buf limit t data (min (pos + sum_list (map unat ns)) (length data))"
  by (rule vr.chunks_in_order [OF assms])

lemma vfs_read_in_order_witness:
  "\<exists>(s :: vfs_state) t. read_chunks (vfs_read 0 0x1000) (buffer_bytes 0x1000) [1, 0, 5] s = Inr ([0x2F, 0x61], t)"
proof -
  obtain s :: ustar_state where s: "fs_ok archive_demo s" "file_open archive_demo s 0 [0x2F, 0x61]"
    "archive_area (tar_fs_start_address s) archive_demo \<subseteq> {x. 0xffff800000000000 \<le> x}"
    using archive_demo_open unfolding ustar_inv_def by blast
  have "\<forall>n\<in>set [1, 0, 5 :: u64]. unat n \<le> 512" by simp
  from vfs_read_in_order [OF vfs_demo_at [OF s] _ this] show ?thesis by auto
qed

text \<open>
  A place of the table counts as free when its file number is 0, which is also the number of
  the first file that the tar file system opens. While that file is open in place 0, the next
  successful open is given place 0 again: two users then share the descriptor, and what was open
  there is replaced.
\<close>

theorem vfs_open_shares_descriptor:
  fixes s :: "'a vfs_state_scheme"
  assumes "vfs_inv es s" and "vfs_file_open es s 0 data pos" and "fs_file_id (vfs_opened_files s ! 0) = 0"
    and "is_cstr (mem_cstr (mem s) path) (0x2F # text)" and "text \<noteq> []"
    and "find_entry text (tar_fs_start_address s) es = Some (h, data')" and "0 \<in> set (open_files s)"
  shows "vfs_open loc path oflags s = Inl (Panic ''PMM_ALLOC: failed to allocate memory'') \<or>
    (\<exists>t. vfs_open loc path oflags s = Inr (0, t) \<and> vfs_file_open es t 0 data' 0)"
proof -
  obtain f fs where f: "vfs_opened_files s = f # fs" "fs_file_id f = 0"
    using assms(2,3) by (cases "vfs_opened_files s") (simp_all add: vfs_file_open_def)
  then show ?thesis using vfs_open_cases [OF assms(1,4,5), of loc oflags] assms(6,7) by auto
qed

lemma vfs_open_shares_descriptor_witness:
  "\<exists>(s :: vfs_state) path. vfs_file_open archive_demo s 0 [0x2F, 0x61] 0 \<and>
     (\<forall>loc. vfs_open loc path 0 s = Inl (Panic ''PMM_ALLOC: failed to allocate memory'') \<or>
       (\<exists>t. vfs_open loc path 0 s = Inr (0, t) \<and> vfs_file_open archive_demo t 0 [0x2F, 0x61] 0))"
proof -
  obtain s :: ustar_state where s: "ustar_inv archive_demo s" "file_open archive_demo s 0 [0x2F, 0x61]" "0 \<in> set (open_files s)"
    "archive_area (tar_fs_start_address s) archive_demo \<subseteq> {x. 0xffff800000000000 \<le> x}"
    "is_cstr (mem_cstr (mem s) (tar_fs_start_address s + 512)) [0x2F, 0x61]" using archive_demo_open by blast
  let ?s = "vfs_demo s (file_demo 2)" and ?p = "tar_fs_start_address s + 512"
  have inv: "vfs_inv archive_demo ?s" using s(1) by (rule vfs_demo_inv)
  have "fs_ok archive_demo s" using s(1) by (simp add: ustar_inv_def)
  then have f: "vfs_file_open archive_demo ?s 0 [0x2F, 0x61] 0" using vfs_demo_at [OF _ s(2,4)] by (simp add: vfs_at_def)
  have z: "fs_file_id (vfs_opened_files ?s ! 0) = 0" by (simp add: vfs_demo_fields file_demo_def)
  have p: "is_cstr (mem_cstr (mem ?s) ?p) (0x2F # [0x61])" using s(5) by (simp only: vfs_demo_fields)
  have e: "find_entry [0x61] (tar_fs_start_address ?s) archive_demo = Some (tar_fs_start_address s, [0x2F, 0x61])"
    by (simp add: vfs_demo_fields archive_demo_entry)
  have o: "0 \<in> set (open_files ?s)" using s(3) by (simp add: vfs_demo_fields)
  have "[0x61 :: u8] \<noteq> []" by simp
  note sh = vfs_open_shares_descriptor [OF inv f z p this e o, where oflags = 0]
  show ?thesis by (rule exI [of _ ?s], rule exI [of _ ?p]) (use f sh in blast)
qed

end
