(* ===== verification/Keyboard.thy ===== *)
theory Keyboard
  imports Idt Spinlock
begin

text \<open>
  The keyboard driver of \<open>keyboard.c\<close>: the shift and caps lock state, the one-character buffer
  under its lock, the two scan code tables and the interrupt handler, which reads the
  controller's data port twice. A special key's value, near \<open>2 ^ 32\<close>, is cut to eight bits when
  it is stored in the buffer.
\<close>

subsection \<open>Definitions\<close>

record keyboard_state =
  key_shift :: u8
  key_caps_lock :: u8
  keyboard_buffer :: u8
  keyboard_has_char :: bool
  keyboard_lock :: spinlock_t
  keyboard_ports :: io_trace

definition UNKNOWN :: u64 where "UNKNOWN = 0xFFFFFFFF"

text \<open>The other special keys are \<open>0xFFFFFFFF - n\<close>, in the order of the enumeration.\<close>

definition special :: "nat \<Rightarrow> u64" where
  "special n = 0xFFFFFFFF - of_nat n"

abbreviation ESC :: u64 where "ESC \<equiv> special 1"
abbreviation CTRL :: u64 where "CTRL \<equiv> special 2"
abbreviation LSHFT :: u64 where "LSHFT \<equiv> special 3"
abbreviation RSHFT :: u64 where "RSHFT \<equiv> special 4"
abbreviation ALT :: u64 where "ALT \<equiv> special 5"
abbreviation FKEY :: "nat \<Rightarrow> u64" where "FKEY n \<equiv> special (5 + n)"
abbreviation SCRLCK :: u64 where "SCRLCK \<equiv> special 18"
abbreviation HOME :: u64 where "HOME \<equiv> special 19"
abbreviation UP :: u64 where "UP \<equiv> special 20"
abbreviation LEFT :: u64 where "LEFT \<equiv> special 21"
abbreviation RIGHT :: u64 where "RIGHT \<equiv> special 22"
abbreviation DOWN :: u64 where "DOWN \<equiv> special 23"
abbreviation PGUP :: u64 where "PGUP \<equiv> special 24"
abbreviation PGDOWN :: u64 where "PGDOWN \<equiv> special 25"
abbreviation END :: u64 where "END \<equiv> special 26"
abbreviation INS :: u64 where "INS \<equiv> special 27"
abbreviation DEL :: u64 where "DEL \<equiv> special 28"
abbreviation CAPS :: u64 where "CAPS \<equiv> special 29"
abbreviation NUMLCK :: u64 where "NUMLCK \<equiv> special 32"

text \<open>The keys from scan code 55 on are the same in both tables.\<close>

definition common_keys :: "u64 list" where
  "common_keys =
     [of_char CHR ''*'', ALT, of_char CHR '' '', CAPS, FKEY 1, FKEY 2, FKEY 3, FKEY 4, FKEY 5,
      FKEY 6, FKEY 7, FKEY 8, FKEY 9, FKEY 10, NUMLCK, SCRLCK, HOME,
      UP, PGUP, of_char CHR ''-'', LEFT, UNKNOWN, RIGHT, of_char CHR ''+'', END,
      DOWN, PGDOWN, INS, DEL, UNKNOWN, UNKNOWN, UNKNOWN, FKEY 11, FKEY 12] @ replicate 39 UNKNOWN"

definition lower_case :: "u64 list" where
  "lower_case = [UNKNOWN, ESC] @ map of_char ''1234567890-='' @ [8, 9] @
     map of_char ''qwertyuiop[]'' @ [10, CTRL] @ map of_char ''asdfghjkl;'' @ [0x27, 0x60, LSHFT, 0x5C] @
     map of_char ''zxcvbnm,./'' @ [RSHFT] @ common_keys"

definition upper_case :: "u64 list" where
  "upper_case = [UNKNOWN, ESC] @ map of_char ''!@#$%^&*()_+'' @ [8, 9] @
     map of_char ''QWERTYUIOP{}'' @ [10, CTRL] @ map of_char ''ASDFGHJKL:'' @ [0x22, 0x7E, LSHFT, 0x7C] @
     map of_char ''ZXCVBNM<>?'' @ [RSHFT] @ common_keys"

definition ignored_keys :: "u8 set" where
  "ignored_keys = {1, 29, 56, 59, 60, 61, 62, 63, 64, 65, 66, 67, 68, 87, 88}"

definition keyboard_acquire :: "keyboard_state \<Rightarrow> keyboard_state result" where
  "keyboard_acquire s = bindE (spinlock_acquire (keyboard_lock s)) (\<lambda>l. Inr (s\<lparr>keyboard_lock := l\<rparr>))"

definition keyboard_release :: "keyboard_state \<Rightarrow> keyboard_state" where
  "keyboard_release s = s\<lparr>keyboard_lock := spinlock_release (keyboard_lock s)\<rparr>"

definition keyboard_handler :: "device \<Rightarrow> keyboard_state \<Rightarrow> keyboard_state result" where
  "keyboard_handler dev s =
     (let (v, tr) = inb dev 0x60 (keyboard_ports s);
          scancode = v AND 0x7f;
          (w, tr) = inb dev 0x60 tr;
          pressed = w AND 0x80;
          s = s\<lparr>keyboard_ports := tr\<rparr>
      in if scancode \<in> ignored_keys then Inr s
         else if scancode = 42 then
           Inr (if pressed = 0 then s\<lparr>key_shift := 1\<rparr> else s\<lparr>key_shift := 0\<rparr>)
         else if scancode = 58 then
           Inr (if key_caps_lock s = 0 \<and> pressed = 0 then s\<lparr>key_caps_lock := 1\<rparr>
                else if key_caps_lock s \<noteq> 0 \<and> pressed = 0 then s\<lparr>key_caps_lock := 0\<rparr>
                else s)
         else if pressed = 0 then
           bindE (keyboard_acquire s) (\<lambda>s.
             let s = (if key_shift s \<noteq> 0 \<and> key_caps_lock s \<noteq> 0
                      then s\<lparr>keyboard_buffer := ucast (lower_case ! unat scancode)\<rparr>
                      else if key_shift s \<noteq> 0 \<or> key_caps_lock s \<noteq> 0
                      then s\<lparr>keyboard_buffer := ucast (upper_case ! unat scancode)\<rparr>
                      else s\<lparr>keyboard_buffer := ucast (lower_case ! unat scancode)\<rparr>);
                 s = s\<lparr>keyboard_has_char := True\<rparr>
             in Inr (keyboard_release s))
         else Inr s)"

definition keyboard_getch :: "keyboard_state \<Rightarrow> (u8 \<times> keyboard_state) result" where
  "keyboard_getch s =
     bindE (keyboard_acquire s) (\<lambda>s.
       let res = keyboard_buffer s;
           s = s\<lparr>keyboard_buffer := 0\<rparr>;
           s = s\<lparr>keyboard_has_char := False\<rparr>
       in Inr (res, keyboard_release s))"

definition keyboard_checkch :: "keyboard_state \<Rightarrow> bool" where
  "keyboard_checkch s = keyboard_has_char s"

definition keyboard_getch_syscall :: "keyboard_state \<Rightarrow> (u64 \<times> keyboard_state) result" where
  "keyboard_getch_syscall s =
     (if keyboard_checkch s then bindE (keyboard_getch s) (\<lambda>(c, s). Inr (ucast c, s))
      else Inr (- 1, s))"

definition keyboard_init :: "'h \<Rightarrow> 'h option list \<Rightarrow> 'h option list result" where
  "keyboard_init keyboard_handler_ptr irq_handlers = irq_install_handler 1 keyboard_handler_ptr irq_handlers"

subsection \<open>The lock\<close>

lemma keyboard_acquire_free: "keyboard_lock s = 0 \<Longrightarrow> keyboard_acquire s = Inr (s\<lparr>keyboard_lock := 1\<rparr>)"
  by (simp add: keyboard_acquire_def)

lemma keyboard_release_lock [simp]: "keyboard_release s = s\<lparr>keyboard_lock := 0\<rparr>"
  by (simp add: keyboard_release_def)

subsection \<open>Letters\<close>

text \<open>The scan codes of the letters on a US keyboard.\<close>

definition letter_keys :: "(u8 \<times> u8) list" where
  "letter_keys = zip (map of_nat ([16..<26] @ [30..<39] @ [44..<51])) (map of_char ''qwertyuiopasdfghjklzxcvbnm'')"

lemma letter_keys_unfold: "letter_keys =
  [(16, 113), (17, 119), (18, 101), (19, 114), (20, 116), (21, 121), (22, 117), (23, 105), (24, 111), (25, 112),
   (30, 97), (31, 115), (32, 100), (33, 102), (34, 103), (35, 104), (36, 106), (37, 107), (38, 108),
   (44, 122), (45, 120), (46, 99), (47, 118), (48, 98), (49, 110), (50, 109)]"
  by (simp add: letter_keys_def upt_rec_numeral)

lemma letter_keys_tables:
  assumes "(code, c) \<in> set letter_keys"
  shows "code AND 0x7f = code" "code AND 0x80 = 0" "code \<notin> ignored_keys" "code \<noteq> 42" "code \<noteq> 58"
    "ucast (lower_case ! unat code) = c" "ucast (upper_case ! unat code) = c - 32"
  using assms unfolding letter_keys_unfold
  by (auto simp: ignored_keys_def lower_case_def upper_case_def nth_append)

lemma keyboard_handler_letter:
  assumes "(code, c) \<in> set letter_keys" and "\<forall>tr. dev tr 0x60 = code" and "keyboard_lock s = 0"
  shows "keyboard_handler dev s = Inr (s\<lparr>
    keyboard_ports := In 0x60 code # In 0x60 code # keyboard_ports s,
    keyboard_buffer := if (key_shift s \<noteq> 0) = (key_caps_lock s \<noteq> 0) then c else c - 32,
    keyboard_has_char := True\<rparr>)"
proof -
  note t = letter_keys_tables [OF assms(1)]
  show ?thesis
    using assms(3) by (simp add: keyboard_handler_def inb_def assms(2) t keyboard_acquire_free Let_def)
qed

subsection \<open>Invariant\<close>

definition keyboard_inv :: "keyboard_state \<Rightarrow> bool" where
  "keyboard_inv s \<longleftrightarrow> key_shift s \<in> {0, 1} \<and> key_caps_lock s \<in> {0, 1} \<and> keyboard_lock s = 0 \<and>
     (\<not> keyboard_has_char s \<longrightarrow> keyboard_buffer s = 0)"

lemma keyboard_handler_inv:
  assumes "keyboard_inv s"
  shows "\<exists>t. keyboard_handler dev s = Inr t \<and> keyboard_inv t"
  using assms by (auto simp: keyboard_handler_def keyboard_inv_def inb_def keyboard_acquire_free Let_def)

lemma keyboard_getch_inv:
  assumes "keyboard_inv s"
  shows "keyboard_getch s = Inr (keyboard_buffer s, s\<lparr>keyboard_buffer := 0, keyboard_has_char := False\<rparr>)"
    and "keyboard_inv (s\<lparr>keyboard_buffer := 0, keyboard_has_char := False\<rparr>)"
  using assms by (simp_all add: keyboard_getch_def keyboard_inv_def keyboard_acquire_free Let_def)

text \<open>Interrupts and system calls in any order.\<close>

datatype keyboard_event = Key_interrupt device | Getch_call

fun run_keyboard_event :: "keyboard_event \<Rightarrow> keyboard_state \<Rightarrow> keyboard_state result" where
  "run_keyboard_event (Key_interrupt dev) s = keyboard_handler dev s"
| "run_keyboard_event Getch_call s = bindE (keyboard_getch_syscall s) (\<lambda>(c, s). Inr s)"

fun keyboard_run :: "keyboard_event list \<Rightarrow> keyboard_state \<Rightarrow> keyboard_state result" where
  "keyboard_run [] s = Inr s"
| "keyboard_run (e # es) s = bindE (run_keyboard_event e s) (keyboard_run es)"

lemma keyboard_event_inv:
  assumes "keyboard_inv s"
  shows "\<exists>t. run_keyboard_event e s = Inr t \<and> keyboard_inv t"
proof (cases e)
  case (Key_interrupt dev)
  then show ?thesis using keyboard_handler_inv [OF assms] by simp
next
  case Getch_call
  then show ?thesis
    using assms keyboard_getch_inv [OF assms] by (simp add: keyboard_getch_syscall_def)
qed

subsection \<open>Properties\<close>

text \<open>
  C33. However key interrupts (with any bytes from the controller) and reads by programs are
  ordered, every one of them completes, the lock is free between them, the shift and caps lock
  states are 0 or 1, and the buffer is empty when there is no character.
\<close>

theorem keyboard_run_inv:
  assumes "keyboard_inv s"
  shows "\<exists>t. keyboard_run es s = Inr t \<and> keyboard_inv t"
  using assms
proof (induction es arbitrary: s)
  case (Cons e es)
  then show ?case using keyboard_event_inv [of s e] by auto
qed simp

definition keyboard_start :: keyboard_state where
  "keyboard_start = \<lparr>key_shift = 0, key_caps_lock = 0, keyboard_buffer = 0, keyboard_has_char = False,
     keyboard_lock = SPINLOCK_INIT, keyboard_ports = []\<rparr>"

theorem keyboard_run_inv_witness:
  "\<exists>t. keyboard_run [Key_interrupt (\<lambda>tr p. 42), Key_interrupt (\<lambda>tr p. 30), Getch_call] keyboard_start = Inr t \<and> keyboard_inv t"
  by (rule keyboard_run_inv) (simp add: keyboard_inv_def keyboard_start_def SPINLOCK_INIT_def)

text \<open>
  C34. Typing a letter: whatever was in the buffer, after the interrupt for a letter's scan code
  the next read returns that letter, in upper case exactly when one of shift and caps lock is
  on, and the read after it returns -1.
\<close>

theorem keyboard_letter_roundtrip:
  assumes "(code, c) \<in> set letter_keys" and "\<forall>tr. dev tr 0x60 = code" and "keyboard_lock s = 0"
  shows "\<exists>t u. keyboard_handler dev s = Inr t \<and>
    keyboard_getch_syscall t = Inr (ucast (if (key_shift s = 0) = (key_caps_lock s = 0) then c else c - 32), u) \<and>
    keyboard_getch_syscall u = Inr (- 1, u)"
proof -
  note h = keyboard_handler_letter [of code c dev s, OF assms]
  show ?thesis
    using assms(3)
    by (auto simp: h keyboard_getch_syscall_def keyboard_checkch_def keyboard_getch_def keyboard_acquire_free Let_def)
qed

theorem keyboard_letter_roundtrip_witness:
  "\<exists>t u. keyboard_handler (\<lambda>tr p. 30) (keyboard_start\<lparr>key_shift := 1\<rparr>) = Inr t \<and>
    keyboard_getch_syscall t = Inr (65, u) \<and> keyboard_getch_syscall u = Inr (- 1, u)"
proof -
  have "(30, 97) \<in> set letter_keys" by (simp add: letter_keys_unfold)
  from keyboard_letter_roundtrip [of 30 97 "\<lambda>tr p. 30" "keyboard_start\<lparr>key_shift := 1\<rparr>", OF this] show ?thesis
    by (simp add: keyboard_start_def SPINLOCK_INIT_def)
qed

text \<open>
  The right shift key is not a shift key: it leaves the shift state as it is and is delivered
  to the reader as the character \<open>0xFB\<close>.
\<close>

theorem keyboard_right_shift:
  assumes "\<forall>tr. dev tr 0x60 = 0x36" and "keyboard_lock s = 0"
  shows "\<exists>t. keyboard_handler dev s = Inr t \<and> key_shift t = key_shift s \<and> keyboard_has_char t \<and> keyboard_buffer t = 0xFB"
proof -
  have l: "lower_case ! 54 = 0xFFFFFFFB" "upper_case ! 54 = 0xFFFFFFFB"
    by (simp_all add: lower_case_def upper_case_def special_def nth_append)
  show ?thesis
    using assms by (simp add: keyboard_handler_def inb_def ignored_keys_def keyboard_acquire_free Let_def l)
qed

theorem keyboard_right_shift_witness:
  "\<exists>t. keyboard_handler (\<lambda>tr p. 0x36) keyboard_start = Inr t \<and> keyboard_buffer t = 0xFB"
  using keyboard_right_shift [of "\<lambda>tr p. 0x36" keyboard_start] by (auto simp: keyboard_start_def SPINLOCK_INIT_def)

end
