(* ===== verification/Prompt.thy ===== *)
theory Prompt
  imports Vfs Keyboard
begin

text \<open>
  The command line, \<open>terminal/prompt.c\<close>: the line buffer, its editing, the commands and the
  lock on the standard input. The buffer is an array in memory; its address, the addresses of the
  programs, of an array on the stack and of the process wrapper, the build flag and the serial
  device are the fields of \<open>kernel_image\<close>. Writing outside the buffer is a \<open>Fault\<close>.

  The reference for editing is \<open>edit\<close>, on the list of the characters of the line.
\<close>

subsection \<open>State\<close>

record kernel_state = vfs_state +
  line_len :: u8
  buffer_pointer :: u16
  line_num :: u8
  stdin_lock :: bool
  locker_id :: u64
  kbd :: keyboard_state

record kernel_image =
  prompt_buffer :: u64
  space_array :: u64
  prompt_process_ptr :: u64
  cat_command_ptr :: u64
  gol_game_loop_ptr :: u64
  snake_game_loop_ptr :: u64
  ls_command_ptr :: u64
  wrapper_ptr :: u64
  prod_mode :: bool
  serial_device :: device

definition PROMPT_BUFFER_SIZE :: nat where
  "PROMPT_BUFFER_SIZE = 1024"

subsection \<open>The standard input\<close>

definition prompt_lockstdin :: "u64 \<Rightarrow> 'a kernel_state_scheme \<Rightarrow> (u8 \<times> 'a kernel_state_scheme) result" where
  "prompt_lockstdin caller_id s =
     bindE (spinlock_acquire SPINLOCK_INIT) (\<lambda>lock.
       if \<not> stdin_lock s then Inr (1, s\<lparr>locker_id := caller_id, stdin_lock := True\<rparr>) else Inr (0, s))"

definition prompt_unlockstdin :: "u64 \<Rightarrow> 'a kernel_state_scheme \<Rightarrow> 'a kernel_state_scheme result" where
  "prompt_unlockstdin caller_id s =
     bindE (spinlock_acquire SPINLOCK_INIT) (\<lambda>lock.
       if stdin_lock s \<and> locker_id s = caller_id then Inr (s\<lparr>locker_id := 0, stdin_lock := False\<rparr>) else Inr s)"

definition prompt_lockstdin_syscall :: "u64 \<Rightarrow> 'a kernel_state_scheme \<Rightarrow> (u64 \<times> 'a kernel_state_scheme) result" where
  "prompt_lockstdin_syscall frame s =
     (let p = process_get_current s in
      if p = 0 then Inl Fault
      else bindE (prompt_lockstdin (pid (procs s p)) s) (\<lambda>(r, s). Inr (ucast r, s)))"

definition prompt_unlockstdin_syscall :: "u64 \<Rightarrow> 'a kernel_state_scheme \<Rightarrow> (u64 \<times> 'a kernel_state_scheme) result" where
  "prompt_unlockstdin_syscall frame s =
     (let p = process_get_current s in
      if p = 0 then Inl Fault
      else
        bindE (prompt_unlockstdin (pid (procs s p)) s) (\<lambda>s.
        bindE (print_text (list_cstr [0x0A, 0x24, 0x3A, 0x20, 0]) [] s) (\<lambda>s. Inr (0, s))))"

subsection \<open>Editing\<close>

definition clear_buffer :: "kernel_image \<Rightarrow> memory \<Rightarrow> memory" where
  "clear_buffer im m = fold (\<lambda>i m. m(prompt_buffer im + of_nat i := 0)) [0..<PROMPT_BUFFER_SIZE] m"

text \<open>\<open>char space[143] = {[0 ... 100] = ' '}\<close>, printed 49 times behind the sequence \<open>ESC [ F\<close>.\<close>

definition clear_line :: "kernel_image \<Rightarrow> nat \<Rightarrow> 'a kernel_state_scheme \<Rightarrow> 'a kernel_state_scheme result" where
  "clear_line im i s = print_text (list_cstr [0x1B, 0x5B, 0x46, 0x25, 0x73, 0]) [space_array im] s"

definition prompt_clear :: "kernel_image \<Rightarrow> 'a kernel_state_scheme \<Rightarrow> 'a kernel_state_scheme result" where
  "prompt_clear im s =
     (let s = s\<lparr>mem := write_cstr (mem s) (space_array im) 143 (\<lambda>i. if i \<le> 100 then 0x20 else 0)\<rparr> in
      bindE (foldE (clear_line im) (rev [0..<49]) s) (\<lambda>s.
      bindE (print_text (list_cstr [0x1B, 0x5B, 0x46, 0]) [] s) (\<lambda>s.
      Inr (s\<lparr>line_num := 1, line_len := 0\<rparr>))))"

definition prompt_char_handler :: "kernel_image \<Rightarrow> u8 \<Rightarrow> 'a kernel_state_scheme \<Rightarrow> 'a kernel_state_scheme result" where
  "prompt_char_handler im c s =
     (if c = 0x0A then Inr s
      else if PROMPT_BUFFER_SIZE \<le> unat (buffer_pointer s) then Inl Fault
      else
        let s = s\<lparr>line_len := line_len s + 1\<rparr>;
            s = s\<lparr>mem := (mem s)(prompt_buffer im + ucast (buffer_pointer s) := c)\<rparr>;
            s = s\<lparr>buffer_pointer := buffer_pointer s + 1\<rparr>
        in print_text (cstr ''%c'') [scast c] s)"

definition prompt_backspace_handler :: "kernel_image \<Rightarrow> 'a kernel_state_scheme \<Rightarrow> 'a kernel_state_scheme result" where
  "prompt_backspace_handler im s =
     (if line_len s = 0 then Inr s
      else
        let s = s\<lparr>line_len := line_len s - 1\<rparr>; s = s\<lparr>buffer_pointer := buffer_pointer s - 1\<rparr>
        in if PROMPT_BUFFER_SIZE \<le> unat (buffer_pointer s) then Inl Fault
           else
             let s = s\<lparr>mem := (mem s)(prompt_buffer im + ucast (buffer_pointer s) := 0)\<rparr>
             in print_text (list_cstr [0x08, 0x20, 0x08, 0]) [] s)"

subsection \<open>Commands\<close>

definition start_program ::
  "kernel_image \<Rightarrow> string \<Rightarrow> u64 \<Rightarrow> u64 \<Rightarrow> 'a kernel_state_scheme \<Rightarrow> (bool \<times> 'a kernel_state_scheme) result" where
  "start_program im name function_ptr arg s =
     bindE (process_create (prod_mode im) (serial_device im) (wrapper_ptr im) (cstr name) function_ptr arg s)
       (\<lambda>(p, s). Inr (True, s))"

definition run_command :: "kernel_image \<Rightarrow> 'a kernel_state_scheme \<Rightarrow> (bool \<times> 'a kernel_state_scheme) result" where
  "run_command im s =
     (let buffer = mem_cstr (mem s) (prompt_buffer im) in
      if kstrcmp buffer (cstr ''clear'') 5 then bindE (prompt_clear im s) (\<lambda>s. Inr (False, s))
      else if kstrcmp buffer (cstr ''cat'') 3 then start_program im ''cat'' (cat_command_ptr im) (prompt_buffer im) s
      else if kstrcmp buffer (cstr ''gol'') 3 then start_program im ''gol'' (gol_game_loop_ptr im) 3 s
      else if kstrcmp buffer (cstr ''snake'') 5 then start_program im ''snake'' (snake_game_loop_ptr im) 3 s
      else if kstrcmp buffer (cstr ''ls'') 2 then start_program im ''ls'' (ls_command_ptr im) (prompt_buffer im) s
      else bindE (print_text (list_cstr [0x25, 0x73, 0x0A, 0]) [prompt_buffer im] s) (\<lambda>s. Inr (False, s)))"

definition prompt_enter_handler :: "kernel_image \<Rightarrow> 'a kernel_state_scheme \<Rightarrow> 'a kernel_state_scheme result" where
  "prompt_enter_handler im s =
     bindE (print_text (list_cstr [0x0A, 0]) [] s) (\<lambda>s.
     bindE (if line_len s > 0 then run_command im (s\<lparr>line_num := line_num s + 1\<rparr>) else Inr (False, s)) (\<lambda>(yield, s).
     let s = s\<lparr>mem := clear_buffer im (mem s)\<rparr>;
         s = s\<lparr>line_len := 0\<rparr>;
         s = s\<lparr>line_num := line_num s + 1\<rparr>;
         s = s\<lparr>buffer_pointer := 0\<rparr>
     in if yield then Inr s else print_text (cstr ''$: '') [] s))"

definition prompt_handler :: "kernel_image \<Rightarrow> u8 \<Rightarrow> 'a kernel_state_scheme \<Rightarrow> 'a kernel_state_scheme result" where
  "prompt_handler im c s =
     (if c = 0x08 then prompt_backspace_handler im s
      else if c = 0x0A then prompt_enter_handler im s
      else prompt_char_handler im c s)"

text \<open>The body of the process' endless loop; \<open>getch\<close> is system call 5.\<close>

definition prompt_process_step ::
  "('a kernel_state_scheme \<Rightarrow> (u64 \<times> 'a kernel_state_scheme) result) \<Rightarrow> kernel_image \<Rightarrow> 'a kernel_state_scheme \<Rightarrow>
   'a kernel_state_scheme result" where
  "prompt_process_step getch im s =
     (if stdin_lock s then Inr s
      else bindE (getch s) (\<lambda>(call_result, s).
        if call_result \<noteq> - 1 then prompt_handler im (ucast call_result) s else Inr s))"

text \<open>The process, for a number of rounds of its loop: how often it runs is the scheduler's choice.\<close>

definition prompt_process ::
  "('a kernel_state_scheme \<Rightarrow> (u64 \<times> 'a kernel_state_scheme) result) \<Rightarrow> kernel_image \<Rightarrow> nat \<Rightarrow> 'a kernel_state_scheme \<Rightarrow>
   'a kernel_state_scheme result" where
  "prompt_process getch im rounds s =
     foldE (\<lambda>_. prompt_process_step getch im) [0..<rounds] (s\<lparr>mem := clear_buffer im (mem s)\<rparr>)"

definition prompt_init :: "kernel_image \<Rightarrow> 'a kernel_state_scheme \<Rightarrow> 'a kernel_state_scheme result" where
  "prompt_init im s =
     bindE (process_create (prod_mode im) (serial_device im) (wrapper_ptr im) (cstr ''prompt'') (prompt_process_ptr im) 0 s)
       (\<lambda>(p, s). print_text (cstr ''$: '') [] s)"

subsection \<open>The edited line\<close>

definition edit :: "u8 \<Rightarrow> u8 list \<Rightarrow> u8 list" where
  "edit c text = (if c = 0x08 then butlast text else text @ [c])"

definition prompt_inv :: "kernel_image \<Rightarrow> 'a kernel_state_scheme \<Rightarrow> u8 list \<Rightarrow> bool" where
  "prompt_inv im s text \<longleftrightarrow> length text < 256 \<and> line_len s = of_nat (length text) \<and> buffer_pointer s = of_nat (length text) \<and>
     (\<forall>i<PROMPT_BUFFER_SIZE. mem s (prompt_buffer im + of_nat i) = (if i < length text then text ! i else 0)) \<and> term_ready (screen s)"

lemma print_text_eq:
  assumes "is_cstr fmt bs" and "fmt_ok (mem s) bs args" and "length (render (mem s) bs args) < 1024"
    and "0 \<notin> set (render (mem s) bs args)" and "term_ready (screen s)"
  shows "print_text fmt args s = Inr (s\<lparr>screen := (screen s)\<lparr>term_writes := term_writes (screen s) @ [render (mem s) bs args]\<rparr>\<rparr>)"
  using vkprintf_eq [OF assms] by (simp add: print_text_def kprintf_def)

lemma print_plain:
  assumes "is_cstr fmt bs" and "0x25 \<notin> set bs" and "length bs < 1024" and "term_ready (screen s)"
  shows "print_text fmt [] s = Inr (s\<lparr>screen := (screen s)\<lparr>term_writes := term_writes (screen s) @ [bs]\<rparr>\<rparr>)"
proof -
  have "of_char CHR ''%'' \<notin> set bs" using assms(2) by simp
  from render_plain [OF this] fmt_ok_plain [OF this] have "render (mem s) bs [] = bs" "fmt_ok (mem s) bs []" by auto
  moreover have "0 \<notin> set bs" using assms(1) by (simp add: is_cstr_def)
  ultimately show ?thesis using print_text_eq [of fmt bs s "[]"] assms by simp
qed

lemma print_char:
  assumes "c \<noteq> 0" and "term_ready (screen s)"
  shows "print_text (cstr ''%c'') [scast (c :: u8)] s = Inr (s\<lparr>screen := (screen s)\<lparr>term_writes := term_writes (screen s) @ [[c]]\<rparr>\<rparr>)"
proof -
  have c: "ucast (ucast (scast c :: u64) :: u32) = c" by (rule bit_word_eqI) (simp add: bit_simps)
  have r: "render (mem s) [0x25, 0x63] [scast c] = [c]"
    by (simp add: takes_arg_def conv_text_def signed_spec_def hex_spec_def c)
  have "is_cstr (cstr ''%c'') [0x25, 0x63]" by (simp add: is_cstr_Cons) (simp add: cstr_def shift_def)
  moreover have "fmt_ok (mem s) [0x25, 0x63] [scast c]" by (simp add: takes_arg_def conv_ok_def)
  ultimately show ?thesis using print_text_eq [of "cstr ''%c''" "[0x25, 0x63]" s "[scast c]"] r assms by simp
qed

lemma ucast_of_nat_16: "n < 65536 \<Longrightarrow> (ucast (of_nat n :: u16) :: u64) = of_nat n"
  by (simp add: word_unat_eq_iff unsigned_ucast_eq take_bit_nat_eq_self)

lemma buffer_byte_inj: "i < 1024 \<Longrightarrow> j < 1024 \<Longrightarrow> a + of_nat i = a + (of_nat j :: u64) \<longleftrightarrow> i = j"
  using of_nat_eq_small [of i j, where 'a = 64] by simp

lemma prompt_char_edit:
  assumes inv: "prompt_inv im s text" and c: "c \<noteq> 0" "c \<noteq> 0x0A" "c \<noteq> 0x08" and len: "length text < 255"
  shows "\<exists>t. prompt_handler im c s = Inr t \<and> prompt_inv im t (text @ [c]) \<and>
    term_writes (screen t) = term_writes (screen s) @ [[c]]"
proof -
  let ?n = "length text" and ?b = "prompt_buffer im"
  let ?s = "s\<lparr>line_len := line_len s + 1, mem := (mem s)(?b + of_nat ?n := c), buffer_pointer := buffer_pointer s + 1\<rparr>"
  let ?t = "?s\<lparr>screen := (screen s)\<lparr>term_writes := term_writes (screen s) @ [[c]]\<rparr>\<rparr>"
  have i: "line_len s = of_nat ?n" "buffer_pointer s = of_nat ?n" "term_ready (screen s)"
    "\<And>i. i < 1024 \<Longrightarrow> mem s (?b + of_nat i) = (if i < ?n then text ! i else 0)"
    using inv by (simp_all add: prompt_inv_def PROMPT_BUFFER_SIZE_def)
  have u: "unat (buffer_pointer s) = ?n" "ucast (buffer_pointer s) = (of_nat ?n :: u64)"
    using i(2) len by (simp_all add: ucast_of_nat_16)
  have "prompt_handler im c s = print_text (cstr ''%c'') [scast c] ?s"
    using c len u by (simp add: prompt_handler_def prompt_char_handler_def PROMPT_BUFFER_SIZE_def)
  also have "\<dots> = Inr ?t" using print_char [OF c(1), of ?s] i(3) by simp
  finally have "prompt_handler im c s = Inr ?t" .
  moreover have "prompt_inv im ?t (text @ [c])"
    unfolding prompt_inv_def PROMPT_BUFFER_SIZE_def
  proof (intro conjI allI impI)
    fix k :: nat assume k: "k < 1024"
    show "mem ?t (?b + of_nat k) = (if k < length (text @ [c]) then (text @ [c]) ! k else 0)"
    proof (cases "k = ?n")
      case False
      then have "?b + of_nat k \<noteq> ?b + (of_nat ?n :: u64)" using buffer_byte_inj [OF k, of ?n ?b] len by simp
      then show ?thesis using i(4) [OF k] False by (simp add: nth_append)
    qed simp
  qed (use i len in simp_all)
  ultimately show ?thesis by simp
qed

lemma prompt_backspace_edit:
  assumes inv: "prompt_inv im s text"
  shows "\<exists>t. prompt_handler im 0x08 s = Inr t \<and> prompt_inv im t (butlast text)"
proof (cases "text = []")
  case True
  then show ?thesis using inv by (simp add: prompt_handler_def prompt_backspace_handler_def prompt_inv_def)
next
  case False
  let ?n = "length text - 1" and ?b = "prompt_buffer im"
  have i: "line_len s = of_nat (length text)" "buffer_pointer s = of_nat (length text)" "term_ready (screen s)" "length text < 256"
    "\<And>i. i < 1024 \<Longrightarrow> mem s (?b + of_nat i) = (if i < length text then text ! i else 0)"
    using inv by (simp_all add: prompt_inv_def PROMPT_BUFFER_SIZE_def)
  have len: "length text = Suc ?n" using False by (cases "text") simp_all
  have nz: "line_len s \<noteq> 0" using i(1,4) of_nat_eq_small [of "length text" 0, where 'a = 8] False by simp
  have d: "line_len s - 1 = of_nat ?n" "buffer_pointer s - 1 = of_nat ?n" using i(1,2) len by (metis add_diff_cancel_left' of_nat_Suc)+
  have u: "unat (buffer_pointer s - 1) = ?n" "ucast (buffer_pointer s - 1) = (of_nat ?n :: u64)"
    using d(2) i(4) by (simp_all add: ucast_of_nat_16)
  let ?s = "s\<lparr>line_len := of_nat ?n, buffer_pointer := of_nat ?n, mem := (mem s)(?b + of_nat ?n := 0)\<rparr>"
  let ?t = "?s\<lparr>screen := (screen s)\<lparr>term_writes := term_writes (screen s) @ [[0x08, 0x20, 0x08]]\<rparr>\<rparr>"
  have "is_cstr (list_cstr [0x08, 0x20, 0x08, 0]) [0x08, 0x20, 0x08]" using is_cstr_list [of "[0x08, 0x20, 0x08]" "[0]"] by simp
  from print_plain [OF this, of ?s] have pr: "print_text (list_cstr [0x08, 0x20, 0x08, 0]) [] ?s = Inr ?t" using i(3) by simp
  have "prompt_handler im 0x08 s = Inr ?t"
    using nz u d i(4) pr by (simp add: prompt_handler_def prompt_backspace_handler_def PROMPT_BUFFER_SIZE_def Let_def)
  moreover have "prompt_inv im ?t (butlast text)"
    unfolding prompt_inv_def PROMPT_BUFFER_SIZE_def
  proof (intro conjI allI impI)
    fix k :: nat assume k: "k < 1024"
    show "mem ?t (?b + of_nat k) = (if k < length (butlast text) then butlast text ! k else 0)"
    proof (cases "k = ?n")
      case False
      then have "?b + of_nat k \<noteq> ?b + (of_nat ?n :: u64)" using buffer_byte_inj [OF k, of ?n ?b] i(4) by simp
      then show ?thesis using i(5) [OF k] False len by (simp add: nth_butlast)
    qed simp
  qed (use i in simp_all)
  ultimately show ?thesis by simp
qed

lemma length_edit: "length (edit c text) \<le> Suc (length text)"
  by (auto simp: edit_def)

lemma prompt_keys:
  assumes "prompt_inv im s text" and "0 \<notin> set keys" and "0x0A \<notin> set keys" and "length text + length keys < 256"
  shows "\<exists>t. foldE (prompt_handler im) keys s = Inr t \<and> prompt_inv im t (fold edit keys text)"
  using assms
proof (induction keys arbitrary: s "text")
  case (Cons c keys)
  obtain t where t: "prompt_handler im c s = Inr t" "prompt_inv im t (edit c text)"
  proof (cases "c = 0x08")
    case True
    then show ?thesis using prompt_backspace_edit [OF Cons.prems(1)] that by (auto simp: edit_def)
  next
    case False
    then show ?thesis using prompt_char_edit [OF Cons.prems(1) _ _ False] Cons.prems that by (auto simp: edit_def)
  qed
  then show ?case using Cons.IH [OF t(2)] Cons.prems length_edit [of c "text"] by simp
qed simp

subsection \<open>The command of a line\<close>

text \<open>A command is recognised by its first characters only.\<close>

definition command_of :: "u8 list \<Rightarrow> string option" where
  "command_of line = List.find (\<lambda>name. take (length name) line = map of_char name) [''clear'', ''cat'', ''gol'', ''snake'', ''ls'']"

definition program_of :: "kernel_image \<Rightarrow> string \<Rightarrow> u64 \<times> u64" where
  "program_of im name =
     (if name = ''cat'' then (cat_command_ptr im, prompt_buffer im)
      else if name = ''gol'' then (gol_game_loop_ptr im, 3)
      else if name = ''snake'' then (snake_game_loop_ptr im, 3)
      else (ls_command_ptr im, prompt_buffer im))"

lemma kstrcmp_prefix:
  assumes line: "is_cstr buffer line" and name: "0 \<notin> set (map of_char name :: u8 list)" and n: "unat n = length name" "name \<noteq> []"
  shows "kstrcmp buffer (cstr name) n \<longleftrightarrow> take (length name) line = map of_char name"
proof -
  have nz: "cstr name k \<noteq> 0" "cstr name k = of_char (name ! k)" if "k < length name" for k
    using name that imageI [OF nth_mem [OF that], of of_char] by (auto simp: cstr_def)
  have "n \<noteq> 0" using n by auto
  then have eq: "kstrcmp buffer (cstr name) n \<longleftrightarrow> (\<forall>k<length name. (\<forall>j<k. buffer j \<noteq> 0) \<longrightarrow> buffer k = cstr name k)"
    using n by (simp add: kstrcmp_eq_upto cstr_eq_upto_def Suc_pred)
  show ?thesis
  proof
    assume "kstrcmp buffer (cstr name) n"
    then have h: "\<And>k. k < length name \<Longrightarrow> \<forall>j<k. buffer j \<noteq> 0 \<Longrightarrow> buffer k = cstr name k" using eq by blast
    have b: "buffer k = cstr name k" if "k < length name" for k
      using that
    proof (induction k rule: less_induct)
      case (less k)
      then have "\<forall>j<k. buffer j \<noteq> 0" using nz(1) by simp
      then show ?case using h less.prems by blast
    qed
    have "\<not> length line < length name" using b [of "length line"] nz(1) [of "length line"] line by (auto simp: is_cstr_def)
    then show "take (length name) line = map of_char name"
      using b nz(2) line by (intro nth_equalityI) (simp_all add: is_cstr_def)
  next
    assume t: "take (length name) line = map of_char name"
    have "buffer k = cstr name k" if k: "k < length name" for k
    proof -
      have "length (take (length name) line) = length name" using t by simp
      then have "k < length line" using k by simp
      then have "buffer k = take (length name) line ! k" using line k by (simp add: is_cstr_def)
      then show ?thesis using t k nz(2) by simp
    qed
    then show "kstrcmp buffer (cstr name) n" unfolding eq by simp
  qed
qed

lemma prompt_line:
  assumes "prompt_inv im s line" and "0 \<notin> set line"
  shows "is_cstr (mem_cstr (mem s) (prompt_buffer im)) line"
  using assms unfolding is_cstr_def prompt_inv_def PROMPT_BUFFER_SIZE_def mem_cstr_def by simp

lemma run_command_eq:
  assumes "is_cstr (mem_cstr (mem s) (prompt_buffer im)) line"
  shows "run_command im s = (case command_of line of
      None \<Rightarrow> bindE (print_text (list_cstr [0x25, 0x73, 0x0A, 0]) [prompt_buffer im] s) (\<lambda>s. Inr (False, s))
    | Some name \<Rightarrow> if name = ''clear'' then bindE (prompt_clear im s) (\<lambda>s. Inr (False, s))
        else start_program im name (fst (program_of im name)) (snd (program_of im name)) s)"
proof -
  have "kstrcmp (mem_cstr (mem s) (prompt_buffer im)) (cstr ''clear'') 5 \<longleftrightarrow> take (length ''clear'') line = map of_char ''clear''"
    by (rule kstrcmp_prefix [OF assms]) simp_all
  moreover have "kstrcmp (mem_cstr (mem s) (prompt_buffer im)) (cstr ''cat'') 3 \<longleftrightarrow> take (length ''cat'') line = map of_char ''cat''"
    by (rule kstrcmp_prefix [OF assms]) simp_all
  moreover have "kstrcmp (mem_cstr (mem s) (prompt_buffer im)) (cstr ''gol'') 3 \<longleftrightarrow> take (length ''gol'') line = map of_char ''gol''"
    by (rule kstrcmp_prefix [OF assms]) simp_all
  moreover have "kstrcmp (mem_cstr (mem s) (prompt_buffer im)) (cstr ''snake'') 5 \<longleftrightarrow> take (length ''snake'') line = map of_char ''snake''"
    by (rule kstrcmp_prefix [OF assms]) simp_all
  moreover have "kstrcmp (mem_cstr (mem s) (prompt_buffer im)) (cstr ''ls'') 2 \<longleftrightarrow> take (length ''ls'') line = map of_char ''ls''"
    by (rule kstrcmp_prefix [OF assms]) simp_all
  ultimately show ?thesis by (simp add: run_command_def command_of_def program_of_def)
qed

lemma prompt_cleared:
  assumes "term_ready (screen s)"
  shows "prompt_inv im (s\<lparr>mem := clear_buffer im (mem s), line_len := 0, line_num := n, buffer_pointer := 0\<rparr>) []"
proof -
  have "fold (\<lambda>i m. m(b + of_nat i := 0)) is m x = (if x \<in> (\<lambda>i. b + of_nat i) ` set is then 0 else m x)"
    for b x :: u64 and "is" :: "nat list" and m :: memory
    by (induction "is" arbitrary: m) auto
  then show ?thesis using assms by (simp add: prompt_inv_def clear_buffer_def)
qed

lemma prompt_echo:
  assumes "prompt_inv im s line" and "0 \<notin> set line"
  shows "print_text (list_cstr [0x25, 0x73, 0x0A, 0]) [prompt_buffer im] s =
    Inr (s\<lparr>screen := (screen s)\<lparr>term_writes := term_writes (screen s) @ [line @ [0x0A]]\<rparr>\<rparr>)"
proof -
  have c: "is_cstr (mem_cstr (mem s) (prompt_buffer im)) line" by (rule prompt_line [OF assms])
  then have "cstr_text (mem_cstr (mem s) (prompt_buffer im)) = line" "\<exists>n. mem_cstr (mem s) (prompt_buffer im) n = 0"
    by (auto simp: cstr_text_eq is_cstr_def)
  then have r: "render (mem s) [0x25, 0x73, 0x0A] [prompt_buffer im] = line @ [0x0A]"
    "fmt_ok (mem s) [0x25, 0x73, 0x0A] [prompt_buffer im]"
    by (simp_all add: takes_arg_def conv_text_def conv_ok_def signed_spec_def hex_spec_def)
  have "is_cstr (list_cstr [0x25, 0x73, 0x0A, 0]) [0x25, 0x73, 0x0A]" using is_cstr_list [of "[0x25, 0x73, 0x0A]" "[0]"] by simp
  from print_text_eq [OF this r(2)] show ?thesis using assms r(1) by (simp add: prompt_inv_def)
qed

subsection \<open>Owners of the standard input\<close>

datatype stdin_event = Lock_stdin u64 | Unlock_stdin u64

fun stdin_run :: "stdin_event list \<Rightarrow> 'a kernel_state_scheme \<Rightarrow> (u8 list \<times> 'a kernel_state_scheme) result" where
  "stdin_run [] s = Inr ([], s)"
| "stdin_run (Lock_stdin p # es) s =
     bindE (prompt_lockstdin p s) (\<lambda>(r, s). bindE (stdin_run es s) (\<lambda>(rs, s). Inr (r # rs, s)))"
| "stdin_run (Unlock_stdin p # es) s = bindE (prompt_unlockstdin p s) (stdin_run es)"

definition stdin_owner :: "'a kernel_state_scheme \<Rightarrow> u64 option" where
  "stdin_owner s = (if stdin_lock s then Some (locker_id s) else None)"

lemma stdin_owner_lock:
  "prompt_lockstdin p s = Inr (if stdin_owner s = None then (1, s\<lparr>locker_id := p, stdin_lock := True\<rparr>) else (0, s))"
  by (simp add: prompt_lockstdin_def stdin_owner_def SPINLOCK_INIT_def)

lemma stdin_owner_unlock:
  "prompt_unlockstdin p s = Inr (if stdin_owner s = Some p then s\<lparr>locker_id := 0, stdin_lock := False\<rparr> else s)"
  by (simp add: prompt_unlockstdin_def stdin_owner_def SPINLOCK_INIT_def)

subsection \<open>Properties\<close>

definition prompt_demo :: "kernel_state" where
  "prompt_demo = vfs_state.extend (vfs_demo ustar_demo (file_demo 0)) (kernel_state.fields 0 0 1 False 0
     \<lparr>key_shift = 0, key_caps_lock = 0, keyboard_buffer = 0, keyboard_has_char = False, keyboard_lock = 0, keyboard_ports = []\<rparr>)
   \<lparr>mem := (\<lambda>_. 0), screen := console_demo\<rparr>"

definition image_demo :: kernel_image where
  "image_demo = \<lparr>prompt_buffer = 0x1000, space_array = 0x2000, prompt_process_ptr = 0x3000, cat_command_ptr = 0x3010,
     gol_game_loop_ptr = 0x3020, snake_game_loop_ptr = 0x3030, ls_command_ptr = 0x3040, wrapper_ptr = 0x3050,
     prod_mode = False, serial_device = (\<lambda>_ _. 0x20)\<rparr>"

lemma prompt_demo_fields: "mem prompt_demo = (\<lambda>_. 0)" "screen prompt_demo = console_demo" "line_len prompt_demo = 0"
  "buffer_pointer prompt_demo = 0" "stdin_lock prompt_demo = False"
  by (simp_all add: prompt_demo_def vfs_state.defs kernel_state.defs)

lemma prompt_demo_inv: "prompt_inv image_demo prompt_demo []"
  by (simp add: prompt_inv_def prompt_demo_fields console_demo_def)

text \<open>
  C30. Line editing. Typing characters and backspaces, fewer than 256 in all on one line, leaves
  in the buffer exactly the line that remains when each backspace removes the last character
  (and does nothing on an empty line), followed by zeros, with the length and the position in
  step; no key is lost and nothing is written outside the buffer.
\<close>

theorem prompt_edits_line:
  assumes "prompt_inv im s line" and "0 \<notin> set keys" and "0x0A \<notin> set keys" and "length line + length keys < 256"
  shows "\<exists>t. foldE (prompt_handler im) keys s = Inr t \<and> prompt_inv im t (fold edit keys line)"
  by (rule prompt_keys [OF assms])

lemma prompt_edits_line_witness:
  "\<exists>t. foldE (prompt_handler image_demo) [0x6C, 0x74, 0x08, 0x73] prompt_demo = Inr t \<and> prompt_inv image_demo t [0x6C, 0x73]"
  using prompt_edits_line [OF prompt_demo_inv, of "[0x6C, 0x74, 0x08, 0x73]"] by (simp add: edit_def)

text \<open>
  C31. The enter key on a line that is not empty. A command is any line that begins with its
  name, the first of clear, cat, gol, snake and ls that matches; for a program the handler is the
  creation of its process followed by clearing the line. Any other line is printed back, and the
  prompt with an empty line follows.
\<close>

theorem prompt_enter_dispatch:
  assumes "prompt_inv im s line" and "0 \<notin> set line" and "line \<noteq> []"
  shows "case command_of line of
      None \<Rightarrow> \<exists>t. prompt_enter_handler im s = Inr t \<and> prompt_inv im t [] \<and>
        term_writes (screen t) = term_writes (screen s) @ [[0x0A], line @ [0x0A], [0x24, 0x3A, 0x20]]
    | Some name \<Rightarrow> name \<noteq> ''clear'' \<longrightarrow> prompt_enter_handler im s =
        bindE (process_create (prod_mode im) (serial_device im) (wrapper_ptr im) (cstr name) (fst (program_of im name))
                (snd (program_of im name))
                (s\<lparr>screen := (screen s)\<lparr>term_writes := term_writes (screen s) @ [[0x0A]]\<rparr>, line_num := line_num s + 1\<rparr>))
          (\<lambda>(p, t). Inr (t\<lparr>mem := clear_buffer im (mem t), line_len := 0, line_num := line_num t + 1, buffer_pointer := 0\<rparr>))"
proof -
  let ?s = "s\<lparr>screen := (screen s)\<lparr>term_writes := term_writes (screen s) @ [[0x0A]]\<rparr>, line_num := line_num s + 1\<rparr>"
  have i: "line_len s = of_nat (length line)" "length line < 256" "term_ready (screen s)" using assms(1) by (simp_all add: prompt_inv_def)
  have gt: "0 < line_len s" using i assms(3) of_nat_eq_small [of "length line" 0, where 'a = 8] by (simp add: word_gt_0)
  have nl: "is_cstr (list_cstr [0x0A, 0]) [0x0A]" using is_cstr_list [of "[0x0A]" "[0]"] by simp
  have inv: "prompt_inv im ?s line" using assms(1) by (simp add: prompt_inv_def)
  have enter: "prompt_enter_handler im s = bindE (run_command im ?s) (\<lambda>(yield, s).
      let s = s\<lparr>mem := clear_buffer im (mem s), line_len := 0, line_num := line_num s + 1, buffer_pointer := 0\<rparr>
      in if yield then Inr s else print_text (cstr ''$: '') [] s)"
    using print_plain [OF nl, of s] i(3) gt by (simp add: prompt_enter_handler_def)
  note run = run_command_eq [OF prompt_line [OF inv assms(2)]]
  show ?thesis
  proof (cases "command_of line")
    case None
    let ?u = "?s\<lparr>screen := (screen ?s)\<lparr>term_writes := term_writes (screen ?s) @ [line @ [0x0A]]\<rparr>\<rparr>"
    let ?v = "?u\<lparr>mem := clear_buffer im (mem ?u), line_len := 0, line_num := line_num ?u + 1, buffer_pointer := 0\<rparr>"
    have d: "is_cstr (cstr ''$: '') [0x24, 0x3A, 0x20]" using is_cstr_literal [of "''$: ''"] by simp
    have v: "prompt_inv im ?v []" using prompt_cleared [of ?u im "line_num ?u + 1"] i(3) by simp
    have "prompt_enter_handler im s = print_text (cstr ''$: '') [] ?v"
      using enter run None prompt_echo [OF inv assms(2)] by simp
    also have "\<dots> = Inr (?v\<lparr>screen := (screen ?v)\<lparr>term_writes := term_writes (screen ?v) @ [[0x24, 0x3A, 0x20]]\<rparr>\<rparr>)"
      by (rule print_plain [OF d]) (use i(3) in simp_all)
    finally show ?thesis using None v by (simp add: prompt_inv_def)
  next
    case (Some name)
    have "run_command im ?s = start_program im name (fst (program_of im name)) (snd (program_of im name)) ?s" if "name \<noteq> ''clear''"
      using run Some that by simp
    then show ?thesis unfolding Some option.case enter start_program_def
      by (cases "process_create (prod_mode im) (serial_device im) (wrapper_ptr im) (cstr name) (fst (program_of im name))
            (snd (program_of im name)) ?s") auto
  qed
qed

lemma prompt_enter_dispatch_witness:
  "\<exists>s t. prompt_inv image_demo s [0x68, 0x69] \<and> command_of [0x68, 0x69] = None \<and>
     prompt_enter_handler image_demo s = Inr (t :: kernel_state) \<and> prompt_inv image_demo t []"
proof -
  obtain s :: kernel_state where s: "prompt_inv image_demo s [0x68, 0x69]"
    using prompt_keys [OF prompt_demo_inv, of "[0x68, 0x69]"] by (auto simp: edit_def)
  have c: "command_of [0x68, 0x69] = None" by (simp add: command_of_def)
  then show ?thesis using prompt_enter_dispatch [OF s] s by auto
qed



end
