(* ===== verification/Syscalls.thy ===== *)
theory Syscalls
  imports Prompt
begin

text \<open>
  System calls, \<open>userland/sys.c\<close> and \<open>userland/syscall.asm\<close>: the table of 32 handlers, its
  set-up, the dispatcher and the calling side. A handler takes the frame's address and the four
  argument registers. The call instruction stores the registers in a frame, whose address and
  other contents are arguments, and the value of \<open>rax\<close> in the frame is what the caller gets.
  A number outside the table and a null entry are a \<open>Fault\<close>.
\<close>

subsection \<open>Definitions\<close>

type_synonym 's syscall = "u64 \<Rightarrow> u64 \<Rightarrow> u64 \<Rightarrow> u64 \<Rightarrow> u64 \<Rightarrow> 's \<Rightarrow> (u64 \<times> 's) result"

definition syscall_handler ::
  "'a proc_state_scheme syscall option list \<Rightarrow> u64 \<Rightarrow> 'a proc_state_scheme \<Rightarrow> (u64 \<times> 'a proc_state_scheme) result" where
  "syscall_handler syscall_handlers frame s =
     bindE (handler_at syscall_handlers (rdi (frames s frame))) (\<lambda>h.
     case h of
       None \<Rightarrow> Inl Fault
     | Some handler \<Rightarrow>
         bindE (handler frame (rsi (frames s frame)) (rdx (frames s frame)) (rcx (frames s frame)) (r8 (frames s frame)) s) (\<lambda>(r, s).
         let s = s\<lparr>frames := (frames s)(frame := (frames s frame)\<lparr>rax := r\<rparr>)\<rparr>;
             s = update_ports (pic_eoi 128) s
         in Inr (frame, s)))"

definition syscall_install_handler :: "u8 \<Rightarrow> 's syscall \<Rightarrow> 's syscall option list \<Rightarrow> 's syscall option list result" where
  "syscall_install_handler offset handler table = install offset (Some handler) table"

function syscall_copy_loop :: "u64 \<Rightarrow> u64 \<Rightarrow> u64 \<Rightarrow> u64 \<Rightarrow> memory \<Rightarrow> memory" where
  "syscall_copy_loop d src i sz m = (if i < sz then syscall_copy_loop d src (i + 1) sz (m(d + i := m (src + i))) else m)"
  by pat_completeness auto
termination
  by (relation "measure (\<lambda>(d, src, i, sz, m). unat sz - unat i)") (auto simp: word_less_nat_alt)

declare syscall_copy_loop.simps [simp del]

definition syscall_memcpy_handler :: "'a kernel_state_scheme syscall" where
  "syscall_memcpy_handler frame dest src sz unused s = Inr (sz, s\<lparr>mem := syscall_copy_loop dest src 0 sz (mem s)\<rparr>)"

text \<open>The print call's handler has no return statement; \<open>left\<close> is what the register then holds.\<close>

definition print_handler :: "u64 \<Rightarrow> 'a kernel_state_scheme syscall" where
  "print_handler left frame a0 a1 a2 a3 s = bindE (print_syscall (mem s) frame a0 (screen s)) (\<lambda>con. Inr (left, s\<lparr>screen := con\<rparr>))"

definition getch_handler :: "'a kernel_state_scheme syscall" where
  "getch_handler frame a0 a1 a2 a3 s = bindE (keyboard_getch_syscall (kbd s)) (\<lambda>(r, k). Inr (r, s\<lparr>kbd := k\<rparr>))"

definition syscall_init ::
  "vfs_locals \<Rightarrow> u64 \<Rightarrow> 'a kernel_state_scheme syscall option list \<Rightarrow> 'a kernel_state_scheme syscall option list result" where
  "syscall_init loc left table =
     bindE (syscall_install_handler 0 syscall_memcpy_handler table) (\<lambda>table.
     bindE (syscall_install_handler 1 (\<lambda>frame a0 a1 a2 a3 s. vfs_open_syscall loc frame a0 a1 s) table) (\<lambda>table.
     bindE (syscall_install_handler 2 (\<lambda>frame a0 a1 a2 a3 s. vfs_close_syscall frame a0 s) table) (\<lambda>table.
     bindE (syscall_install_handler 3 (\<lambda>frame a0 a1 a2 a3 s. vfs_read_syscall frame a0 a1 a2 s) table) (\<lambda>table.
     bindE (syscall_install_handler 4 (print_handler left) table) (\<lambda>table.
     bindE (syscall_install_handler 5 getch_handler table) (\<lambda>table.
     bindE (syscall_install_handler 6 (\<lambda>frame a0 a1 a2 a3 s. prompt_lockstdin_syscall frame s) table) (\<lambda>table.
     syscall_install_handler 7 (\<lambda>frame a0 a1 a2 a3 s. prompt_unlockstdin_syscall frame s) table)))))))"

definition do_syscall ::
  "'a proc_state_scheme syscall option list \<Rightarrow> execution_context \<Rightarrow> u64 \<Rightarrow> u64 \<Rightarrow> u64 \<Rightarrow> u64 \<Rightarrow> u64 \<Rightarrow> u64 \<Rightarrow>
   'a proc_state_scheme \<Rightarrow> (u64 \<times> 'a proc_state_scheme) result" where
  "do_syscall syscall_handlers regs frame num a0 a1 a2 a3 s =
     (let s = s\<lparr>frames := (frames s)(frame := regs\<lparr>rdi := num, rsi := a0, rdx := a1, rcx := a2, r8 := a3,
                int_number := 0x80, error_code := 0\<rparr>)\<rparr>
      in bindE (syscall_handler syscall_handlers frame s) (\<lambda>(frame, s). Inr (rax (frames s frame), s)))"

definition syscall_memcpy ::
  "'a proc_state_scheme syscall option list \<Rightarrow> execution_context \<Rightarrow> u64 \<Rightarrow> u64 \<Rightarrow> u64 \<Rightarrow> u64 \<Rightarrow> 'a proc_state_scheme \<Rightarrow>
   (u64 \<times> 'a proc_state_scheme) result" where
  "syscall_memcpy syscall_handlers regs frame dest src sz s = do_syscall syscall_handlers regs frame 0 dest src sz 0 s"

subsection \<open>The services\<close>

definition services :: "vfs_locals \<Rightarrow> u64 \<Rightarrow> 'a kernel_state_scheme syscall list" where
  "services loc left =
     [syscall_memcpy_handler,
      (\<lambda>frame a0 a1 a2 a3 s. vfs_open_syscall loc frame a0 a1 s),
      (\<lambda>frame a0 a1 a2 a3 s. vfs_close_syscall frame a0 s),
      (\<lambda>frame a0 a1 a2 a3 s. vfs_read_syscall frame a0 a1 a2 s),
      print_handler left, getch_handler,
      (\<lambda>frame a0 a1 a2 a3 s. prompt_lockstdin_syscall frame s),
      (\<lambda>frame a0 a1 a2 a3 s. prompt_unlockstdin_syscall frame s)]"

lemma syscall_init_table: "syscall_init loc left (replicate 32 None) = Inr (map Some (services loc left) @ replicate 24 None)"
  by (simp add: syscall_init_def syscall_install_handler_def install_def) (simp add: services_def numeral_eq_Suc)

definition entered :: "execution_context \<Rightarrow> u64 \<Rightarrow> u64 \<Rightarrow> u64 \<Rightarrow> u64 \<Rightarrow> u64 \<Rightarrow> u64 \<Rightarrow> 'a proc_state_scheme \<Rightarrow> 'a proc_state_scheme" where
  "entered regs frame num a0 a1 a2 a3 s = s\<lparr>frames := (frames s)(frame := regs\<lparr>rdi := num, rsi := a0, rdx := a1, rcx := a2,
     r8 := a3, int_number := 0x80, error_code := 0\<rparr>)\<rparr>"

definition returned :: "u64 \<Rightarrow> u64 \<Rightarrow> 'a proc_state_scheme \<Rightarrow> 'a proc_state_scheme" where
  "returned frame r s = update_ports (pic_eoi 128) (s\<lparr>frames := (frames s)(frame := (frames s frame)\<lparr>rax := r\<rparr>)\<rparr>)"

lemma do_syscall_eq:
  assumes "length table = 32"
  shows "do_syscall table regs frame num a0 a1 a2 a3 s =
    (if unat num < 32 then
       case table ! unat num of
         None \<Rightarrow> Inl Fault
       | Some handler \<Rightarrow> bindE (handler frame a0 a1 a2 a3 (entered regs frame num a0 a1 a2 a3 s)) (\<lambda>(r, t). Inr (r, returned frame r t))
     else Inl Fault)"
  using assms
  by (auto simp: do_syscall_def syscall_handler_def handler_at_def entered_def returned_def update_ports_def bindE_assoc
      split: option.split intro!: bindE_cong)

lemma services_length [simp]: "length (services loc left) = 8"
  by (simp add: services_def)

lemma service_at:
  "unat num < 32 \<Longrightarrow> (map Some (services loc left) @ replicate 24 None) ! unat num =
     (if unat num < 8 then Some (services loc left ! unat num) else None)"
  by (simp add: nth_append)

lemma do_syscall_service:
  assumes "syscall_init loc left (replicate 32 None) = Inr table"
  shows "do_syscall table regs frame num a0 a1 a2 a3 s =
    (if unat num < 8
     then bindE ((services loc left ! unat num) frame a0 a1 a2 a3 (entered regs frame num a0 a1 a2 a3 s)) (\<lambda>(r, t). Inr (r, returned frame r t))
     else Inl Fault)"
proof -
  have t: "table = map Some (services loc left) @ replicate 24 None" using assms by (simp add: syscall_init_table)
  have "length table = 32" by (simp add: t)
  note eq = do_syscall_eq [OF this, of regs frame num a0 a1 a2 a3 s]
  show ?thesis
  proof (cases "unat num < 32")
    case True
    then have "table ! unat num = (if unat num < 8 then Some (services loc left ! unat num) else None)"
      unfolding t by (rule service_at)
    then show ?thesis using True eq by simp
  qed (use eq in simp)
qed

lemma syscall_copy_loop_memcpy:
  "i \<le> sz \<Longrightarrow> syscall_copy_loop d src i sz m = memcpy m (d + i) (src + i) (sz - i)"
proof (induction d src i sz m rule: syscall_copy_loop.induct)
  case (1 d src i sz m)
  show ?case
  proof (cases "i < sz")
    case True
    then have le: "i + 1 \<le> sz" and pos: "0 < sz - i" by (simp_all add: inc_le word_gt_0)
    have "syscall_copy_loop d src i sz m = syscall_copy_loop d src (i + 1) sz (m(d + i := m (src + i)))"
      unfolding syscall_copy_loop.simps [of d src i] using True by (rule if_P)
    also have "\<dots> = memcpy (m(d + i := m (src + i))) (d + (i + 1)) (src + (i + 1)) (sz - (i + 1))" by (rule "1.IH" [OF True le])
    also have "\<dots> = memcpy m (d + i) (src + i) (sz - i)"
      unfolding memcpy.simps [of m "d + i"] if_P [OF pos] by (simp only: add.assoc diff_diff_eq)
    finally show ?thesis .
  next
    case False
    then have "sz = i" using "1.prems" by simp
    then show ?thesis using False by (simp add: syscall_copy_loop.simps [of d src i] memcpy.simps [of m "d + i"])
  qed
qed

subsection \<open>Properties\<close>

text \<open>
  C20. The system call interface. With the table that \<open>syscall_init\<close> builds, the numbers 0 to 7
  run memory copy, open, close, read, print, keyboard read, and taking and releasing the standard
  input, on the four arguments, and the caller gets the service's result; every other number,
  inside or outside the table, is a call through an invalid pointer.
\<close>

theorem syscall_dispatch:
  assumes "syscall_init loc left (replicate 32 None) = Inr table"
  shows "do_syscall table regs frame num a0 a1 a2 a3 s =
    (if unat num < 8
     then bindE ((services loc left ! unat num) frame a0 a1 a2 a3 (entered regs frame num a0 a1 a2 a3 s)) (\<lambda>(r, t). Inr (r, returned frame r t))
     else Inl Fault)"
  by (rule do_syscall_service [OF assms])

definition locals_demo :: vfs_locals where
  "locals_demo = \<lparr>local_mountpoint = (\<lambda>_ _. 0), local_tar_filename = (\<lambda>_. 0), local_pathes = replicate 50 0, literal_nul = 0x3000\<rparr>"

lemma syscall_dispatch_witness:
  "\<exists>table. syscall_init locals_demo 0 (replicate 32 None) = Inr table \<and>
     do_syscall table zero_context 0x5000 9 0 0 0 0 prompt_demo = Inl Fault \<and>
     (\<exists>t. do_syscall table zero_context 0x5000 5 0 0 0 0 prompt_demo = Inr (- 1, t))"
proof -
  let ?t = "map Some (services locals_demo 0) @ replicate 24 None"
  have t: "syscall_init locals_demo 0 (replicate 32 None) = Inr ?t" by (rule syscall_init_table)
  have "kbd prompt_demo = \<lparr>key_shift = 0, key_caps_lock = 0, keyboard_buffer = 0, keyboard_has_char = False, keyboard_lock = 0,
      keyboard_ports = []\<rparr>" by (simp add: prompt_demo_def vfs_state.defs kernel_state.defs)
  then have "\<exists>t. do_syscall ?t zero_context 0x5000 5 0 0 0 0 prompt_demo = Inr (- 1, t)"
    unfolding syscall_dispatch [OF t]
    by (simp add: services_def getch_handler_def keyboard_getch_syscall_def keyboard_checkch_def entered_def)
  moreover have "do_syscall ?t zero_context 0x5000 9 0 0 0 0 prompt_demo = Inl Fault"
    unfolding syscall_dispatch [OF t] by simp
  ultimately show ?thesis using t by blast
qed

text \<open>
  The memory copy service copies as long as source and destination do not overlap, and changes
  no other byte.
\<close>

lemma syscall_memcpy_copies:
  fixes s :: "'a kernel_state_scheme"
  assumes "syscall_init loc left (replicate 32 None) = Inr table"
    and "\<And>i j. i < unat sz \<Longrightarrow> j < unat sz \<Longrightarrow> dest + of_nat i \<noteq> src + of_nat j"
  shows "\<exists>t. syscall_memcpy table regs frame dest src sz s = Inr (sz, t) \<and>
    (\<forall>x. mem t x = (if unat (x - dest) < unat sz then mem s (src + (x - dest)) else mem s x))"
proof -
  have "mem (returned frame r u) = mem u" for r and u :: "'a kernel_state_scheme" by (simp add: returned_def update_ports_def)
  then show ?thesis
    using memcpy_apply [of sz dest src "mem s"] assms(2) syscall_copy_loop_memcpy [of 0 sz dest src "mem s"]
    by (simp add: syscall_memcpy_def do_syscall_service [OF assms(1)] services_def syscall_memcpy_handler_def entered_def)
qed

end
