(* ===== verification/Stubs.thy ===== *)
theory Stubs
  imports Syscalls
begin

text \<open>
  The interrupt entry points of \<open>interrupts/interrupt_vector.asm\<close>, as lists of instructions and
  an executor for them. The processor's part, what it pushes before the entry point and what
  \<open>iretq\<close> takes back, is \<open>interrupt\<close> and \<open>IRETQ\<close>; \<open>sp0\<close> is the stack pointer it starts from, the
  aligned stack pointer of the interrupted program or the one of the task state segment. A called
  C function is a parameter that gets the first argument, the memory and the rest of the kernel's
  state; \<open>left\<close> is what it leaves in the registers. Its own use of the stack is part of what it does to
  the memory.

  The properties: the C handler finds the interrupted program's registers in the
  \<open>execution_context\<close> it is given, and the registers it returns are the ones the processor continues
  with.
\<close>

subsection \<open>Instructions\<close>

datatype reg = RAX | RBX | RCX | RDX | RDI | RSI | R8 | R9 | R10 | R11 | R12 | R13 | R14 | R15 | RBP

datatype callee = Isr_handler | Irq_handler | Syscall_handler | Pic_eoi

datatype instr = PUSH reg | PUSHI u64 | POP reg | MOV_RDI_RSP | MOV_RSP_RAX | ADD_RSP u64 | CLI | STI | CALL callee | IRETQ

record 's cpu =
  gpr :: "reg \<Rightarrow> u64"
  rsp :: u64
  rip :: u64
  cs :: u64
  ss :: u64
  rflags :: u64
  ram :: memory
  kernel :: 's

type_synonym 's c_function = "u64 \<Rightarrow> memory \<Rightarrow> 's \<Rightarrow> (u64 \<times> memory \<times> 's) result"

definition push64 :: "u64 \<Rightarrow> 's cpu \<Rightarrow> 's cpu" where
  "push64 v c = c\<lparr>rsp := rsp c - 8, ram := store64 (ram c) (rsp c - 8) v\<rparr>"

fun exec1 :: "(callee \<Rightarrow> 's c_function) \<Rightarrow> (reg \<Rightarrow> u64) \<Rightarrow> instr \<Rightarrow> 's cpu \<Rightarrow> 's cpu result" where
  "exec1 call left (PUSH r) c = Inr (push64 (gpr c r) c)"
| "exec1 call left (PUSHI v) c = Inr (push64 v c)"
| "exec1 call left (POP r) c = Inr (c\<lparr>gpr := (gpr c)(r := load64 (ram c) (rsp c)), rsp := rsp c + 8\<rparr>)"
| "exec1 call left MOV_RDI_RSP c = Inr (c\<lparr>gpr := (gpr c)(RDI := rsp c)\<rparr>)"
| "exec1 call left MOV_RSP_RAX c = Inr (c\<lparr>rsp := gpr c RAX\<rparr>)"
| "exec1 call left (ADD_RSP n) c = Inr (c\<lparr>rsp := rsp c + n\<rparr>)"
| "exec1 call left CLI c = Inr (c\<lparr>rflags := unset_bit 9 (rflags c)\<rparr>)"
| "exec1 call left STI c = Inr (c\<lparr>rflags := set_bit 9 (rflags c)\<rparr>)"
| "exec1 call left (CALL f) c =
     bindE (call f (gpr c RDI) (ram c) (kernel c)) (\<lambda>(r, m, k). Inr (c\<lparr>gpr := left(RAX := r), ram := m, kernel := k\<rparr>))"
| "exec1 call left IRETQ c =
     Inr (c\<lparr>rip := load64 (ram c) (rsp c), cs := load64 (ram c) (rsp c + 8), rflags := load64 (ram c) (rsp c + 16),
            rsp := load64 (ram c) (rsp c + 24), ss := load64 (ram c) (rsp c + 32)\<rparr>)"

primrec exec :: "(callee \<Rightarrow> 's c_function) \<Rightarrow> (reg \<Rightarrow> u64) \<Rightarrow> instr list \<Rightarrow> 's cpu \<Rightarrow> 's cpu result" where
  "exec call left [] c = Inr c"
| "exec call left (i # is) c = bindE (exec1 call left i c) (exec call left is)"

text \<open>What the processor does before the entry point, for interrupts and exceptions without an error
  code; the gates are interrupt gates, so it also clears the interrupt flag.\<close>

definition interrupt :: "u64 \<Rightarrow> 's cpu \<Rightarrow> 's cpu" where
  "interrupt sp0 c = (fold push64 [ss c, rsp c, rflags c, cs c, rip c] (c\<lparr>rsp := sp0\<rparr>))\<lparr>rflags := unset_bit 9 (rflags c)\<rparr>"

text \<open>The exceptions for which the processor pushes an error code, after the processor's manual, and
  what it does for any vector.\<close>

definition pushes_error :: "nat \<Rightarrow> bool" where
  "pushes_error v \<longleftrightarrow> v \<in> {8, 10, 11, 12, 13, 14, 17, 21, 29, 30}"

definition deliver :: "nat \<Rightarrow> u64 \<Rightarrow> u64 \<Rightarrow> 's cpu \<Rightarrow> 's cpu" where
  "deliver v err sp0 c = (if pushes_error v then push64 err (interrupt sp0 c) else interrupt sp0 c)"

subsection \<open>The entry points\<close>

definition isr_stub :: "instr list" where
  "isr_stub =
    [PUSH RAX, PUSH RBX, PUSH RCX, PUSH RDX, PUSH RDI, PUSH RSI, PUSH R8, PUSH R9, PUSH R10, PUSH R11, PUSH R12, PUSH R13,
     PUSH R14, PUSH R15, PUSH RBP,
     MOV_RDI_RSP, CALL Isr_handler, MOV_RSP_RAX,
     POP RBP, POP R15, POP R14, POP R13, POP R12, POP R11, POP R10, POP R9, POP R8, POP RSI, POP RDI, POP RDX, POP RCX,
     POP RBX, POP RAX,
     ADD_RSP 16, STI, CALL Pic_eoi, IRETQ]"

definition irq_stub :: "instr list" where
  "irq_stub =
    [PUSH RAX, PUSH RBX, PUSH RCX, PUSH RDX, PUSH RDI, PUSH RSI, PUSH R8, PUSH R9, PUSH R10, PUSH R11, PUSH R12, PUSH R13,
     PUSH R14, PUSH R15, PUSH RBP,
     MOV_RDI_RSP, CALL Irq_handler, MOV_RSP_RAX,
     POP RBP, POP R15, POP R14, POP R13, POP R12, POP R11, POP R10, POP R9, POP R8, POP RSI, POP RDI, POP RDX, POP RCX,
     POP RBX, POP RAX,
     ADD_RSP 16, STI, IRETQ]"

definition syscall_stub :: "instr list" where
  "syscall_stub =
    [PUSH RAX, PUSH RBX, PUSH RCX, PUSH RDX, PUSH RDI, PUSH RSI, PUSH R8, PUSH R9, PUSH R10, PUSH R11, PUSH R12, PUSH R13,
     PUSH R14, PUSH R15, PUSH RBP,
     MOV_RDI_RSP, CALL Syscall_handler, MOV_RSP_RAX,
     POP RBP, POP R15, POP R14, POP R13, POP R12, POP R11, POP R10, POP R9, POP R8, POP RSI, POP RDI, POP RDX, POP RCX,
     POP RBX, POP RAX,
     ADD_RSP 16, STI, IRETQ]"

definition isr :: "u64 \<Rightarrow> instr list" where
  "isr n = [CLI, PUSHI 0, PUSHI n] @ isr_stub"

definition isr_err :: "u64 \<Rightarrow> instr list" where
  "isr_err n = [CLI, PUSHI n] @ isr_stub"

definition irq :: "u64 \<Rightarrow> instr list" where
  "irq n = [CLI, PUSHI 0, PUSHI n] @ irq_stub"

definition isr128 :: "instr list" where
  "isr128 = [CLI, PUSHI 0, PUSHI 0x80] @ syscall_stub"

text \<open>The code at the entry of each vector: the \<open>%rep\<close> blocks and the \<open>irq\<close> lines.\<close>

definition entry_point :: "nat \<Rightarrow> instr list option" where
  "entry_point v =
     (if v < 8 \<or> v = 9 \<or> 15 \<le> v \<and> v < 32 then Some (isr (of_nat v))
      else if v < 15 then Some (isr_err (of_nat v))
      else if v < 48 then Some (irq (of_nat v))
      else if v = 128 then Some isr128
      else None)"

subsection \<open>The saved context\<close>

definition context_at :: "memory \<Rightarrow> u64 \<Rightarrow> execution_context" where
  "context_at m a = \<lparr>rbp = load64 m a, r15 = load64 m (a + 8), r14 = load64 m (a + 16), r13 = load64 m (a + 24),
     r12 = load64 m (a + 32), r11 = load64 m (a + 40), r10 = load64 m (a + 48), r9 = load64 m (a + 56), r8 = load64 m (a + 64),
     rsi = load64 m (a + 72), rdi = load64 m (a + 80), rdx = load64 m (a + 88), rcx = load64 m (a + 96), rbx = load64 m (a + 104),
     rax = load64 m (a + 112), int_number = load64 m (a + 120), error_code = load64 m (a + 128), iret_rip = load64 m (a + 136),
     iret_cs = load64 m (a + 144), iret_flags = load64 m (a + 152), iret_rsp = load64 m (a + 160), iret_ss = load64 m (a + 168)\<rparr>"

definition context_of :: "u64 \<Rightarrow> u64 \<Rightarrow> 's cpu \<Rightarrow> execution_context" where
  "context_of n err c = \<lparr>rbp = gpr c RBP, r15 = gpr c R15, r14 = gpr c R14, r13 = gpr c R13, r12 = gpr c R12, r11 = gpr c R11,
     r10 = gpr c R10, r9 = gpr c R9, r8 = gpr c R8, rsi = gpr c RSI, rdi = gpr c RDI, rdx = gpr c RDX, rcx = gpr c RCX,
     rbx = gpr c RBX, rax = gpr c RAX, int_number = n, error_code = err, iret_rip = rip c, iret_cs = cs c, iret_flags = rflags c,
     iret_rsp = rsp c, iret_ss = ss c\<rparr>"

definition context_reg :: "execution_context \<Rightarrow> reg \<Rightarrow> u64" where
  "context_reg x r = (case r of RAX \<Rightarrow> rax x | RBX \<Rightarrow> rbx x | RCX \<Rightarrow> rcx x | RDX \<Rightarrow> rdx x | RDI \<Rightarrow> rdi x | RSI \<Rightarrow> rsi x
     | R8 \<Rightarrow> r8 x | R9 \<Rightarrow> r9 x | R10 \<Rightarrow> r10 x | R11 \<Rightarrow> r11 x | R12 \<Rightarrow> r12 x | R13 \<Rightarrow> r13 x | R14 \<Rightarrow> r14 x | R15 \<Rightarrow> r15 x
     | RBP \<Rightarrow> rbp x)"

text \<open>The processor continuing in a context.\<close>

definition resume :: "execution_context \<Rightarrow> memory \<Rightarrow> 's \<Rightarrow> 's cpu" where
  "resume x m k = \<lparr>gpr = context_reg x, rsp = iret_rsp x, rip = iret_rip x, cs = iret_cs x, ss = iret_ss x, rflags = iret_flags x,
     ram = m, kernel = k\<rparr>"

definition frame_values :: "u64 \<Rightarrow> u64 \<Rightarrow> 's cpu \<Rightarrow> u64 list" where
  "frame_values n err c = [ss c, rsp c, rflags c, cs c, rip c, err, n, gpr c RAX, gpr c RBX, gpr c RCX, gpr c RDX, gpr c RDI,
     gpr c RSI, gpr c R8, gpr c R9, gpr c R10, gpr c R11, gpr c R12, gpr c R13, gpr c R14, gpr c R15, gpr c RBP]"

definition saved :: "u64 \<Rightarrow> u64 \<Rightarrow> u64 \<Rightarrow> 's cpu \<Rightarrow> memory" where
  "saved n err sp0 c = ram (fold push64 (frame_values n err c) (c\<lparr>rsp := sp0\<rparr>))"

lemma words_disjoint:
  assumes "8 \<le> d" and "d \<le> 2 ^ 64 - 8"
  shows "bytes_of a 8 \<inter> bytes_of (a + of_nat d) 8 = {}"
proof -
  have "x \<notin> bytes_of (a + of_nat d) 8" if x: "x \<in> bytes_of a 8" for x
  proof
    assume "x \<in> bytes_of (a + of_nat d) 8"
    then obtain i j where ij: "i < 8" "j < 8" "x = a + of_nat i" "x = a + of_nat d + of_nat j" using x by (auto simp: bytes_of_iff)
    then have "(of_nat i :: u64) = of_nat (d + j)" by simp
    then have "unat (of_nat i :: u64) = unat (of_nat (d + j) :: u64)" by simp
    then have "i = d + j" using assms ij by (simp add: unat_of_nat del: of_nat_add)
    then show False using ij assms by simp
  qed
  then show ?thesis by blast
qed

lemma push_all_rsp: "rsp (fold push64 vs c) = rsp c - of_nat (8 * length vs)"
  by (induction vs arbitrary: c) (simp_all add: push64_def)

lemma push_all_load:
  "8 * length vs < 2 ^ 63 \<Longrightarrow> i < length vs \<Longrightarrow>
   load64 (ram (fold push64 vs c)) (rsp c - of_nat (8 * Suc i)) = vs ! i"
proof (induction vs rule: rev_induct)
  case (snoc v vs)
  let ?a = "rsp c - of_nat (8 * Suc (length vs))"
  have r: "ram (fold push64 (vs @ [v]) c) = store64 (ram (fold push64 vs c)) ?a v"
    by (simp add: push64_def push_all_rsp algebra_simps)
  show ?case
  proof (cases "i = length vs")
    case False
    then have i: "i < length vs" using snoc.prems by simp
    then have b: "rsp c - of_nat (8 * Suc i) = ?a + of_nat (8 * (length vs - i))" by (simp add: of_nat_diff algebra_simps)
    have "bytes_of ?a 8 \<inter> bytes_of (rsp c - of_nat (8 * Suc i)) 8 = {}"
      unfolding b by (rule words_disjoint) (use i snoc.prems in simp_all)
    then show ?thesis using snoc i unfolding r by (simp add: load64_store64_disjoint nth_append del: of_nat_Suc)
  qed (unfold r, simp)
qed simp

lemma push_all_other:
  "8 * length vs < 2 ^ 63 \<Longrightarrow> x \<notin> bytes_of (rsp c - of_nat (8 * length vs)) (8 * length vs) \<Longrightarrow>
   ram (fold push64 vs c) x = ram c x"
proof (induction vs rule: rev_induct)
  case (snoc v vs)
  let ?a = "rsp c - of_nat (8 * Suc (length vs))"
  have r: "ram (fold push64 (vs @ [v]) c) = store64 (ram (fold push64 vs c)) ?a v"
    by (simp add: push64_def push_all_rsp algebra_simps)
  have "x \<notin> bytes_of ?a 8" using snoc.prems(2) bytes_of_mono [of 8 "8 * length (vs @ [v])" ?a] by auto
  moreover have "x \<notin> bytes_of (rsp c - of_nat (8 * length vs)) (8 * length vs)"
  proof
    assume "x \<in> bytes_of (rsp c - of_nat (8 * length vs)) (8 * length vs)"
    then obtain i where "i < 8 * length vs" "x = rsp c - of_nat (8 * length vs) + of_nat i" by (auto simp: bytes_of_iff)
    then have "i + 8 < 8 * length (vs @ [v])" "x = rsp c - of_nat (8 * length (vs @ [v])) + of_nat (i + 8)" by simp_all
    then show False using snoc.prems(2) unfolding bytes_of_iff by blast
  qed
  ultimately show ?case using snoc unfolding r by (simp add: store64_other)
qed simp

lemma frame_values_length [simp]: "length (frame_values n err c) = 22"
  by (simp add: frame_values_def)

lemma saved_context: "context_at (saved n err sp0 c) (sp0 - 176) = context_of n err c"
proof -
  have l: "load64 (saved n err sp0 c) (sp0 - of_nat (8 * Suc i)) = frame_values n err c ! i" if "i < 22" for i
    using push_all_load [of "frame_values n err c" i "c\<lparr>rsp := sp0\<rparr>"] that by (simp add: saved_def)
  show ?thesis
    using l [of 0] l [of 1] l [of 2] l [of 3] l [of 4] l [of 5] l [of 6] l [of 7] l [of 8] l [of 9] l [of 10] l [of 11]
      l [of 12] l [of 13] l [of 14] l [of 15] l [of 16] l [of 17] l [of 18] l [of 19] l [of 20] l [of 21]
    by (simp add: context_at_def context_of_def frame_values_def)
qed

lemma saved_other: "x \<notin> bytes_of (sp0 - 176) 176 \<Longrightarrow> saved n err sp0 c x = ram c x"
  using push_all_other [of "frame_values n err c" x "c\<lparr>rsp := sp0\<rparr>"] by (simp add: saved_def)

lemma context_at_cong: "(\<And>x. x \<in> bytes_of a 176 \<Longrightarrow> m x = m' x) \<Longrightarrow> context_at m a = context_at m' a"
proof -
  assume eq: "\<And>x. x \<in> bytes_of a 176 \<Longrightarrow> m x = m' x"
  have l: "load64 m (a + of_nat (8 * i)) = load64 m' (a + of_nat (8 * i))" if "i < 22" for i
  proof (rule load64_cong)
    fix x assume "x \<in> bytes_of (a + of_nat (8 * i)) 8"
    then obtain j where "j < 8" "x = a + of_nat (8 * i + j)" by (auto simp: bytes_of_iff)
    moreover have "8 * i + j < 176" using calculation that by simp
    ultimately show "m x = m' x" using eq unfolding bytes_of_iff by blast
  qed
  show ?thesis
    using l [of 0] l [of 1] l [of 2] l [of 3] l [of 4] l [of 5] l [of 6] l [of 7] l [of 8] l [of 9] l [of 10] l [of 11]
      l [of 12] l [of 13] l [of 14] l [of 15] l [of 16] l [of 17] l [of 18] l [of 19] l [of 20] l [of 21]
    by (simp add: context_at_def)
qed

lemma resume_context_of: "resume (context_of n err c) m k = c\<lparr>ram := m, kernel := k\<rparr>"
proof -
  have "context_reg (context_of n err c) = gpr c" by (rule ext) (simp add: context_reg_def context_of_def split: reg.split)
  then show ?thesis by (simp add: resume_def) (simp add: context_of_def)
qed

subsection \<open>Running the entry points\<close>

lemma exec_append: "exec call left (is @ js) c = bindE (exec call left is c) (exec call left js)"
proof (induction "is" arbitrary: c)
  case (Cons i "is")
  show ?case unfolding append_Cons exec.simps bindE_assoc by (rule bindE_cong [OF refl]) (rule Cons.IH)
qed simp

definition save_all :: "instr list" where
  "save_all = [PUSH RAX, PUSH RBX, PUSH RCX, PUSH RDX, PUSH RDI, PUSH RSI, PUSH R8, PUSH R9, PUSH R10, PUSH R11, PUSH R12,
     PUSH R13, PUSH R14, PUSH R15, PUSH RBP]"

definition load_all :: "instr list" where
  "load_all = [MOV_RSP_RAX, POP RBP, POP R15, POP R14, POP R13, POP R12, POP R11, POP R10, POP R9, POP R8, POP RSI, POP RDI,
     POP RDX, POP RCX, POP RBX, POP RAX, ADD_RSP 16, STI]"

lemma stub_parts:
  "isr_stub = save_all @ MOV_RDI_RSP # CALL Isr_handler # load_all @ [CALL Pic_eoi, IRETQ]"
  "irq_stub = save_all @ MOV_RDI_RSP # CALL Irq_handler # load_all @ [IRETQ]"
  "syscall_stub = save_all @ MOV_RDI_RSP # CALL Syscall_handler # load_all @ [IRETQ]"
  by (simp_all add: isr_stub_def irq_stub_def syscall_stub_def save_all_def load_all_def)

lemma enter:
  "\<exists>d. exec call left (CLI # PUSHI 0 # PUSHI n # save_all @ [MOV_RDI_RSP]) (interrupt sp0 c) = Inr d \<and>
     gpr d RDI = sp0 - 176 \<and> ram d = saved n 0 sp0 c \<and> kernel d = kernel c"
  by (simp add: save_all_def interrupt_def push64_def saved_def frame_values_def)

lemma enter_error:
  "\<exists>d. exec call left (CLI # PUSHI n # save_all @ [MOV_RDI_RSP]) (push64 err (interrupt sp0 c)) = Inr d \<and>
     gpr d RDI = sp0 - 176 \<and> ram d = saved n err sp0 c \<and> kernel d = kernel c"
  by (simp add: save_all_def interrupt_def push64_def saved_def frame_values_def)

text \<open>A dummy error code on top of the processor's own: the handler's frame starts 8 bytes too low.\<close>

lemma enter_twice:
  "\<exists>d. exec call left (CLI # PUSHI 0 # PUSHI n # save_all @ [MOV_RDI_RSP]) (push64 err (interrupt sp0 c)) = Inr d \<and>
     gpr d RDI = sp0 - 184 \<and> int_number (context_at (ram d) (sp0 - 184)) = n \<and> error_code (context_at (ram d) (sp0 - 184)) = 0 \<and>
     iret_rip (context_at (ram d) (sp0 - 184)) = err \<and> iret_cs (context_at (ram d) (sp0 - 184)) = rip c"
proof -
  let ?vs = "[ss c, rsp c, rflags c, cs c, rip c, err, 0, n, gpr c RAX, gpr c RBX, gpr c RCX, gpr c RDX, gpr c RDI,
     gpr c RSI, gpr c R8, gpr c R9, gpr c R10, gpr c R11, gpr c R12, gpr c R13, gpr c R14, gpr c R15, gpr c RBP]"
  let ?m = "ram (fold push64 ?vs (c\<lparr>rsp := sp0\<rparr>))"
  have "load64 ?m (sp0 - of_nat (8 * Suc i)) = ?vs ! i" if "i < 23" for i
    using push_all_load [of ?vs i "c\<lparr>rsp := sp0\<rparr>"] that by simp
  from this [of 7] this [of 6] this [of 5] this [of 4]
  have "int_number (context_at ?m (sp0 - 184)) = n" "error_code (context_at ?m (sp0 - 184)) = 0"
    "iret_rip (context_at ?m (sp0 - 184)) = err" "iret_cs (context_at ?m (sp0 - 184)) = rip c"
    by (simp_all add: context_at_def)
  then show ?thesis by (simp add: save_all_def interrupt_def push64_def)
qed

lemma load_resumes:
  assumes "gpr d RAX = f"
  shows "exec call left (load_all @ [IRETQ]) d = Inr (resume (context_at (ram d) f) (ram d) (kernel d))"
  using assms
  by (cases d) (auto simp: load_all_def resume_def context_at_def context_reg_def fun_eq_iff add.commute split: reg.split)

lemma stub_runs:
  assumes "stub = CLI # PUSHI 0 # PUSHI n # save_all @ MOV_RDI_RSP # CALL h # load_all @ [IRETQ]"
  shows "exec call left stub (interrupt sp0 c) =
    bindE (call h (sp0 - 176) (saved n 0 sp0 c) (kernel c)) (\<lambda>(f, m, k). Inr (resume (context_at m f) m k))"
proof -
  obtain d where d: "exec call left (CLI # PUSHI 0 # PUSHI n # save_all @ [MOV_RDI_RSP]) (interrupt sp0 c) = Inr d"
    "gpr d RDI = sp0 - 176" "ram d = saved n 0 sp0 c" "kernel d = kernel c" using enter by blast
  have "stub = (CLI # PUSHI 0 # PUSHI n # save_all @ [MOV_RDI_RSP]) @ CALL h # load_all @ [IRETQ]" using assms by simp
  then have "exec call left stub (interrupt sp0 c) = exec call left (CALL h # load_all @ [IRETQ]) d"
    by (simp only: exec_append d(1) bindE_Inr)
  also have "\<dots> = bindE (call h (sp0 - 176) (saved n 0 sp0 c) (kernel c)) (\<lambda>(f, m, k). Inr (resume (context_at m f) m k))"
    by (simp add: d bindE_assoc case_prod_unfold load_resumes)
  finally show ?thesis .
qed

lemma entry_codes:
  "32 \<le> v \<Longrightarrow> v < 48 \<Longrightarrow> entry_point v = Some (irq (of_nat v))"
  "entry_point 128 = Some isr128"
  "v < 32 \<Longrightarrow> \<not> (v = 8 \<or> 10 \<le> v \<and> v \<le> 14) \<Longrightarrow> entry_point v = Some (isr (of_nat v))"
  "v = 8 \<or> 10 \<le> v \<and> v \<le> 14 \<Longrightarrow> entry_point v = Some (isr_err (of_nat v))"
  by (auto simp: entry_point_def)

lemma entry_parts:
  "32 \<le> v \<Longrightarrow> v < 48 \<Longrightarrow> entry_point v = Some (CLI # PUSHI 0 # PUSHI (of_nat v) # save_all @ MOV_RDI_RSP # CALL Irq_handler # load_all @ [IRETQ])"
  "entry_point 128 = Some (CLI # PUSHI 0 # PUSHI 128 # save_all @ MOV_RDI_RSP # CALL Syscall_handler # load_all @ [IRETQ])"
  "v < 32 \<Longrightarrow> \<not> (v = 8 \<or> 10 \<le> v \<and> v \<le> 14) \<Longrightarrow>
     entry_point v = Some ((CLI # PUSHI 0 # PUSHI (of_nat v) # save_all @ [MOV_RDI_RSP]) @ CALL Isr_handler # load_all @ [CALL Pic_eoi, IRETQ])"
  "v = 8 \<or> 10 \<le> v \<and> v \<le> 14 \<Longrightarrow>
     entry_point v = Some ((CLI # PUSHI (of_nat v) # save_all @ [MOV_RDI_RSP]) @ CALL Isr_handler # load_all @ [CALL Pic_eoi, IRETQ])"
  by (simp_all only: entry_codes irq_def isr128_def isr_def isr_err_def stub_parts append.simps append_assoc not_False_eq_True)

lemma exception_enters:
  assumes "entry_point v = Some (pre @ CALL Isr_handler # post)"
    and "\<exists>d. exec call left pre (deliver v err sp0 c) = Inr d \<and> P (context_at (ram d) (gpr d RDI))"
  shows "\<exists>pre post d. entry_point v = Some (pre @ CALL Isr_handler # post) \<and> exec call left pre (deliver v err sp0 c) = Inr d \<and>
     (let x = context_at (ram d) (gpr d RDI) in P x)"
  using assms unfolding Let_def by blast

lemma no_error_code: "\<not> pushes_error v \<Longrightarrow> deliver v err sp0 c = interrupt sp0 c"
  by (simp add: deliver_def)

subsection \<open>Properties\<close>

text \<open>
  C8. The entry code of the hardware interrupts (vectors 32 to 47) and of the system call (128)
  exchanges contexts. The C handler is called with the address of a frame below the processor's
  stack pointer that read as an \<open>execution_context\<close> holds exactly the interrupted program's registers
  and the vector, the memory outside this frame is unchanged, and after the handler the processor
  continues with exactly the registers, flags, stack and instruction pointer of the context the handler
  returns.
\<close>

theorem entry_exchanges_contexts:
  assumes "32 \<le> v \<and> v < 48 \<or> v = 128"
  shows "\<exists>code m. entry_point v = Some code \<and> context_at m (sp0 - 176) = context_of (of_nat v) 0 c \<and>
     (\<forall>x. x \<notin> bytes_of (sp0 - 176) 176 \<longrightarrow> m x = ram c x) \<and>
     exec call left code (deliver v err sp0 c) =
       bindE (call (if v = 128 then Syscall_handler else Irq_handler) (sp0 - 176) m (kernel c))
         (\<lambda>(f, m', k). Inr (resume (context_at m' f) m' k))"
proof -
  let ?h = "if v = 128 then Syscall_handler else Irq_handler"
  let ?code = "CLI # PUSHI 0 # PUSHI (of_nat v) # save_all @ MOV_RDI_RSP # CALL ?h # load_all @ [IRETQ]"
  have "entry_point v = Some ?code" using entry_parts(1,2) assms by (auto split: if_splits)
  moreover have "deliver v err sp0 c = interrupt sp0 c" using assms by (intro no_error_code) (auto simp: pushes_error_def)
  ultimately show ?thesis
    by (intro exI [of _ ?code] exI [of _ "saved (of_nat v) 0 sp0 c"]) (simp add: stub_runs saved_context saved_other del: exec.simps)
qed

definition cpu_demo :: "unit cpu" where
  "cpu_demo = \<lparr>gpr = (\<lambda>_. 7), rsp = 0x8000, rip = 0x400000, cs = 0x28, ss = 0x30, rflags = 0x202, ram = (\<lambda>_. 0), kernel = ()\<rparr>"

theorem entry_exchanges_contexts_witness:
  "\<exists>code m. entry_point 33 = Some code \<and> context_at m 0x7F50 = context_of 33 0 cpu_demo \<and> m 0 = 0 \<and>
     exec (\<lambda>_ f m k. Inr (f, m, k)) (\<lambda>_. 0) code (deliver 33 0 0x8000 cpu_demo) = Inr (cpu_demo\<lparr>ram := m\<rparr>)"
proof -
  obtain code m where m: "entry_point 33 = Some code" "context_at m 0x7F50 = context_of 33 0 cpu_demo"
      "0 \<notin> bytes_of 0x7F50 176 \<longrightarrow> m 0 = ram cpu_demo 0"
      "exec (\<lambda>_ f m k. Inr (f, m, k)) (\<lambda>_. 0) code (deliver 33 0 0x8000 cpu_demo) = Inr (resume (context_at m 0x7F50) m ())"
    using entry_exchanges_contexts [of 33 "0x8000" cpu_demo "\<lambda>_ f m k. Inr (f, m, k)" "\<lambda>_. 0" 0] by (force simp: cpu_demo_def)
  moreover have "(0 :: u64) \<notin> bytes_of 0x7F50 176" by (simp add: bytes_of_offset)
  ultimately show ?thesis by (auto simp: resume_context_of) (simp_all add: cpu_demo_def)
qed

text \<open>
  C26. The entry code of the exceptions gives the C handler a well-formed \<open>execution_context\<close>: the
  interrupted program's registers, the vector, and the processor's error code where it pushes one or
  0. This holds for every exception except 17, 21, 29 and 30, for which the processor pushes an error
  code and the entry code pushes a second one, so that the handler finds the error code where the
  instruction pointer should be and the instruction pointer where the code segment should be.
\<close>

theorem exception_frame_typed:
  assumes "v < 32"
  shows "\<exists>pre post d. entry_point v = Some (pre @ CALL Isr_handler # post) \<and> exec call left pre (deliver v err sp0 c) = Inr d \<and>
     (let x = context_at (ram d) (gpr d RDI) in
      if v \<in> {17, 21, 29, 30} then int_number x = of_nat v \<and> error_code x = 0 \<and> iret_rip x = err \<and> iret_cs x = rip c
      else x = context_of (of_nat v) (if pushes_error v then err else 0) c)"
proof -
  consider "v \<in> {17, 21, 29, 30}" | "v = 8 \<or> 10 \<le> v \<and> v \<le> 14" | "\<not> pushes_error v"
    unfolding pushes_error_def by fastforce
  then show ?thesis
  proof cases
    case 1
    then have "pushes_error v" "\<not> (v = 8 \<or> 10 \<le> v \<and> v \<le> 14)" by (auto simp: pushes_error_def)
    then show ?thesis
      using 1 enter_twice [of call left "of_nat v" err sp0 c]
      by (intro exception_enters [OF entry_parts(3)] assms) (auto simp: deliver_def simp del: exec.simps)
  next
    case 2
    then have "pushes_error v" "v \<notin> {17, 21, 29, 30}" by (auto simp: pushes_error_def)
    then show ?thesis
      using enter_error [of call left "of_nat v" err sp0 c] saved_context [of "of_nat v" err sp0 c]
      by (intro exception_enters [OF entry_parts(4) [OF 2]]) (auto simp: deliver_def simp del: exec.simps)
  next
    case 3
    then have "v \<notin> {17, 21, 29, 30}" "\<not> (v = 8 \<or> 10 \<le> v \<and> v \<le> 14)" by (auto simp: pushes_error_def)
    then show ?thesis
      using 3 enter [of call left "of_nat v" sp0 c] saved_context [of "of_nat v" 0 sp0 c]
      by (intro exception_enters [OF entry_parts(3)] assms) (auto simp: deliver_def simp del: exec.simps)
  qed
qed

theorem exception_frame_typed_witness:
  "\<exists>pre post d. entry_point 14 = Some (pre @ CALL Isr_handler # post) \<and>
     exec (\<lambda>_ f m k. Inr (f, m, k)) (\<lambda>_. 0) pre (deliver 14 2 0x8000 cpu_demo) = Inr d \<and>
     context_at (ram d) (gpr d RDI) = context_of 14 2 cpu_demo"
  using exception_frame_typed [of 14 "\<lambda>_ f m k. Inr (f, m, k)" "\<lambda>_. 0" 2 "0x8000" cpu_demo]
  by (simp add: Let_def pushes_error_def)

text \<open>
  A suspended program continues as if it had not been interrupted. When a later interrupt, of
  whatever program and on whatever stack, returns the frame that was saved for the suspended program
  and the frame's 176 bytes are the ones that were saved, then the processor is exactly in the state in
  which the program was suspended, except for the memory and the kernel's state the handler leaves.
\<close>

theorem suspended_program_resumes:
  assumes "call Irq_handler (sp1 - 176) (saved n1 0 sp1 c1) (kernel c1) = Inr (sp0 - 176, m, k)"
    and "\<And>x. x \<in> bytes_of (sp0 - 176) 176 \<Longrightarrow> m x = saved n0 0 sp0 c0 x"
  shows "exec call left (irq n1) (interrupt sp1 c1) = Inr (c0\<lparr>ram := m, kernel := k\<rparr>)"
proof -
  have "context_at m (sp0 - 176) = context_of n0 0 c0" using context_at_cong [OF assms(2)] saved_context [of n0 0 sp0 c0] by simp
  moreover have "irq n1 = CLI # PUSHI 0 # PUSHI n1 # save_all @ MOV_RDI_RSP # CALL Irq_handler # load_all @ [IRETQ]"
    by (simp add: irq_def stub_parts)
  ultimately show ?thesis using assms(1) by (simp add: stub_runs resume_context_of del: exec.simps)
qed

theorem suspended_program_resumes_witness:
  "exec (\<lambda>_ f m k. Inr (f, m, k)) (\<lambda>_. 0) (irq 32) (interrupt 0x8000 cpu_demo) =
     Inr (cpu_demo\<lparr>ram := saved 32 0 0x8000 cpu_demo\<rparr>)"
  using suspended_program_resumes [of "\<lambda>_ f m k. Inr (f, m, k)" "0x8000" 32 cpu_demo "0x8000" "saved 32 0 0x8000 cpu_demo" "()" 32 cpu_demo "\<lambda>_. 0"]
  by (simp add: cpu_demo_def)

end
