(* ===== verification/Gol.thy ===== *)
theory Gol
  imports Syscalls
begin

text \<open>
  The Game of Life, \<open>programs/gameoflife/gameoflife.c\<close>. The board is an array of 40 times 70
  bytes; the test of a neighbour's index lets 2800 through, the byte behind the array, whose value
  is the argument \<open>behind\<close>. Writing outside the array is a \<open>Fault\<close>. The arrays of indices that an
  update collects are lists of the entries written so far.

  A program waits and polls while interrupts change the state: its loops run over a list of what
  happens to the state before each round, and end early when the loop is left.

  The reference is \<open>life\<close>, the rule of the game for a cell.
\<close>

subsection \<open>Loops under interrupts\<close>

fun rounds :: "('s \<Rightarrow> (bool \<times> 's) result) \<Rightarrow> ('s \<Rightarrow> 's) list \<Rightarrow> 's \<Rightarrow> (bool \<times> 's) result" where
  "rounds body [] s = Inr (False, s)"
| "rounds body (e # es) s = bindE (body (e s)) (\<lambda>(stop, s). if stop then Inr (True, s) else rounds body es s)"

subsection \<open>The board\<close>

definition GOL_WIDTH :: nat where "GOL_WIDTH = 40"
definition GOL_HEIGHT :: nat where "GOL_HEIGHT = 70"
definition GOL_BORDER :: u8 where "GOL_BORDER = of_char CHR ''*''"
definition GOL_CELL :: u8 where "GOL_CELL = of_char CHR ''#''"
definition GOL_EMPTY :: u8 where "GOL_EMPTY = of_char CHR '' ''"
definition GOL_CURSOR :: u8 where "GOL_CURSOR = of_char CHR ''X''"

definition GOL_CI :: "nat \<Rightarrow> nat \<Rightarrow> nat" where
  "GOL_CI i j = i * GOL_HEIGHT + j"

definition gol_init_cells :: "u8 list \<Rightarrow> u8 list" where
  "gol_init_cells cells = fold (\<lambda>i cells. cells[i := 0]) [0..<GOL_WIDTH * GOL_HEIGHT] cells"

text \<open>The indices are computed as \<open>int\<close> and stored in 16 bits.\<close>

definition gol_indeces :: "u8 \<Rightarrow> u8 \<Rightarrow> u16 list" where
  "gol_indeces i j =
     (let i = uint i; j = uint j; h = int GOL_HEIGHT
      in map word_of_int
        [i * h + (j - 1), i * h + (j + 1), (i - 1) * h + j, (i + 1) * h + j,
         (i - 1) * h + (j - 1), (i - 1) * h + (j + 1), (i + 1) * h + (j - 1), (i + 1) * h + (j + 1)])"

definition gol_cell :: "u8 \<Rightarrow> u8 list \<Rightarrow> u16 \<Rightarrow> u8" where
  "gol_cell behind cells index = (if unat index < length cells then cells ! unat index else behind)"

fun count_loop :: "u8 \<Rightarrow> u8 list \<Rightarrow> u16 list \<Rightarrow> u8 \<Rightarrow> u8" where
  "count_loop behind cells [] count = count"
| "count_loop behind cells (index # indeces) count =
     (if GOL_WIDTH * GOL_HEIGHT < unat index then count_loop behind cells indeces count
      else if gol_cell behind cells index \<noteq> 0 then count_loop behind cells indeces (count + 1)
      else count_loop behind cells indeces count)"

definition gol_get_alive_neighbors :: "u8 \<Rightarrow> u8 list \<Rightarrow> u8 \<Rightarrow> u8 \<Rightarrow> u8" where
  "gol_get_alive_neighbors behind cells i j = count_loop behind cells (gol_indeces i j) 0"

definition collect_cell :: "u8 \<Rightarrow> u8 list \<Rightarrow> nat \<times> nat \<Rightarrow> u16 list \<times> u16 list \<Rightarrow> u16 list \<times> u16 list" where
  "collect_cell behind cells = (\<lambda>(i, j) (toBeKilled, toBeRevived).
     let index = of_nat (GOL_CI i j) :: u16;
         neighbor_count = gol_get_alive_neighbors behind cells (of_nat i) (of_nat j)
     in if cells ! unat index \<noteq> 0 then
          if neighbor_count < 2 \<or> 3 < neighbor_count then (toBeKilled @ [index], toBeRevived) else (toBeKilled, toBeRevived)
        else if neighbor_count = 3 then (toBeKilled, toBeRevived @ [index])
        else (toBeKilled, toBeRevived))"

definition gol_update :: "u8 \<Rightarrow> u8 list \<Rightarrow> u8 list" where
  "gol_update behind cells =
     (let (toBeKilled, toBeRevived) =
            fold (collect_cell behind cells) (List.product [0..<GOL_WIDTH] [0..<GOL_HEIGHT]) ([], []);
          cells = fold (\<lambda>index cells. cells[unat index := 0]) toBeKilled cells
      in fold (\<lambda>index cells. cells[unat index := 1]) toBeRevived cells)"

subsection \<open>Drawing and keys\<close>

definition gol_char :: "u8 list \<Rightarrow> u8 \<times> u8 \<Rightarrow> nat \<Rightarrow> nat \<Rightarrow> u8" where
  "gol_char cells cursor i j =
     (if i = 0 \<or> i = GOL_WIDTH - 1 \<or> j = 0 \<or> j = GOL_HEIGHT - 1 then GOL_BORDER
      else if (fst cursor \<noteq> 0 \<or> snd cursor \<noteq> 0) \<and> unat (fst cursor) = i \<and> unat (snd cursor) = j then GOL_CURSOR
      else if cells ! GOL_CI i j \<noteq> 0 then GOL_CELL
      else GOL_EMPTY)"

definition gol_draw_line ::
  "u8 list \<Rightarrow> u8 \<times> u8 \<Rightarrow> nat \<Rightarrow> u8 list \<times> 'a proc_state_scheme \<Rightarrow> (u8 list \<times> 'a proc_state_scheme) result" where
  "gol_draw_line cells cursor i = (\<lambda>(line, s).
     let line = fold (\<lambda>j line. line[j := gol_char cells cursor i j]) [0..<GOL_HEIGHT] line
     in bindE (print_text (list_cstr line) [] s) (\<lambda>s. Inr (line, s)))"

definition gol_draw :: "u8 list \<Rightarrow> u8 \<times> u8 \<Rightarrow> 'a proc_state_scheme \<Rightarrow> 'a proc_state_scheme result" where
  "gol_draw cells cursor s =
     (let line = replicate (GOL_HEIGHT + 2) 0;
          line = line[GOL_HEIGHT + 1 := 0];
          line = line[GOL_HEIGHT := 0x0A]
      in bindE (foldE (gol_draw_line cells cursor) [0..<GOL_WIDTH] (line, s)) (\<lambda>(line, s). Inr s))"

record gol_game =
  gol_cells :: "u8 list"
  gol_cursor :: "u8 \<times> u8"
  gol_state :: u8

text \<open>What a key does to the game; comparisons of an unsigned coordinate with \<open>< 0\<close> never hold.\<close>

definition gol_key :: "u8 \<Rightarrow> gol_game \<Rightarrow> gol_game result" where
  "gol_key key g =
     (let (r, c) = gol_cursor g in
      if key = of_char CHR ''w'' then
        Inr (g\<lparr>gol_cursor := (if GOL_WIDTH < unat (r - 1) then of_nat GOL_WIDTH else r - 1, c)\<rparr>)
      else if key = of_char CHR ''s'' then Inr (g\<lparr>gol_cursor := (r + 1, c)\<rparr>)
      else if key = of_char CHR ''a'' then Inr (g\<lparr>gol_cursor := (r, c - 1)\<rparr>)
      else if key = of_char CHR ''d'' then
        Inr (g\<lparr>gol_cursor := (r, if GOL_HEIGHT < unat (c + 1) then of_nat GOL_HEIGHT else c + 1)\<rparr>)
      else if key = of_char CHR ''e'' then
        let index = GOL_CI (unat r) (unat c) in
        if index < length (gol_cells g)
        then Inr (g\<lparr>gol_cells := (gol_cells g)[index := if gol_cells g ! index = 0 then 1 else 0]\<rparr>)
        else Inl Fault
      else if key = of_char CHR ''f'' then
        if gol_state g = 0 then Inr (g\<lparr>gol_state := 1, gol_cursor := (0, 0)\<rparr>)
        else if gol_state g = 1 then
          Inr (g\<lparr>gol_state := 0, gol_cursor := (of_nat (GOL_WIDTH div 2), of_nat (GOL_HEIGHT div 2)),
                 gol_cells := gol_init_cells (gol_cells g)\<rparr>)
        else Inr g
      else if key = of_char CHR ''q'' then Inr (g\<lparr>gol_state := 2\<rparr>)
      else Inr g)"

definition read_key :: "'a kernel_state_scheme \<Rightarrow> (u8 \<times> 'a kernel_state_scheme) result" where
  "read_key s = bindE (keyboard_getch (kbd s)) (\<lambda>(key, k). Inr (key, s\<lparr>kbd := k\<rparr>))"

definition gol_key_handler :: "gol_game \<Rightarrow> 'a kernel_state_scheme \<Rightarrow> (gol_game \<times> 'a kernel_state_scheme) result" where
  "gol_key_handler g s = bindE (read_key s) (\<lambda>(key, s). bindE (gol_key key g) (\<lambda>g. Inr (g, s)))"

subsection \<open>The game loop\<close>

definition wait_stdin :: "'a kernel_state_scheme \<Rightarrow> (bool \<times> 'a kernel_state_scheme) result" where
  "wait_stdin s = bindE (prompt_lockstdin_syscall 0 s) (\<lambda>(success, s). Inr (success \<noteq> 0, s))"

definition gol_round ::
  "kernel_image \<Rightarrow> u8 \<Rightarrow> u64 \<times> gol_game \<times> 'a kernel_state_scheme \<Rightarrow> (bool \<times> u64 \<times> gol_game \<times> 'a kernel_state_scheme) result" where
  "gol_round im behind = (\<lambda>(delta_time, g, s).
     if timer_get_uptime s - delta_time < 50 then Inr (False, delta_time, g, s)
     else
       let delta_time = timer_get_uptime s in
       bindE (prompt_clear im s) (\<lambda>s.
       bindE (gol_key_handler g s) (\<lambda>(g, s).
       if gol_state g = 2 then Inr (True, delta_time, g, s)
       else
         let g = (if gol_state g = 1 then g\<lparr>gol_cells := gol_update behind (gol_cells g)\<rparr> else g)
         in bindE (gol_draw (gol_cells g) (gol_cursor g) s) (\<lambda>s. Inr (False, delta_time, g, s)))))"

definition gol_start :: gol_game where
  "gol_start = \<lparr>gol_cells = replicate (GOL_WIDTH * GOL_HEIGHT) 0,
     gol_cursor = (of_nat (GOL_WIDTH div 2), of_nat (GOL_HEIGHT div 2)), gol_state = 0\<rparr>"

text \<open>The interrupts while waiting for the standard input, and those between the rounds of the game.\<close>

definition gol_game_loop ::
  "kernel_image \<Rightarrow> u8 \<Rightarrow> ('a kernel_state_scheme \<Rightarrow> 'a kernel_state_scheme) list \<Rightarrow>
   ('a kernel_state_scheme \<Rightarrow> 'a kernel_state_scheme) list \<Rightarrow> 'a kernel_state_scheme \<Rightarrow> (bool \<times> 'a kernel_state_scheme) result" where
  "gol_game_loop im behind waits events s =
     bindE (rounds wait_stdin waits s) (\<lambda>(locked, s).
     if \<not> locked then Inr (False, s)
     else
       bindE (log_line (prod_mode im) (serial_device im) ''Game of life started'' '''' s) (\<lambda>s.
       bindE (rounds (gol_round im behind) (map (\<lambda>e (d, g, s). (d, g, e s)) events) (timer_get_uptime s, gol_start, s))
         (\<lambda>(left, d, g, s).
       if left then bindE (prompt_unlockstdin_syscall 0 s) (\<lambda>(r, s). Inr (True, s)) else Inr (False, s))))"

subsection \<open>The rule\<close>

definition life :: "u8 \<Rightarrow> nat \<Rightarrow> u8" where
  "life c n = (if c \<noteq> 0 then if n = 2 \<or> n = 3 then c else 0 else if n = 3 then 1 else 0)"

text \<open>
  The neighbours of a cell by its number, on a strip of 2800 cells: left, right, and the three
  cells 70 positions away on either side. The position behind the strip is let through.
\<close>

definition strip_neighbours :: "nat \<Rightarrow> int list" where
  "strip_neighbours k = [int k - 1, int k + 1, int k - 70, int k + 70, int k - 71, int k - 69, int k + 69, int k + 71]"

definition strip_cell :: "u8 \<Rightarrow> u8 list \<Rightarrow> int \<Rightarrow> bool" where
  "strip_cell behind cells x \<longleftrightarrow> 0 \<le> x \<and> x \<le> 2800 \<and> (if x < 2800 then cells ! nat x else behind) \<noteq> 0"

definition strip_count :: "u8 \<Rightarrow> u8 list \<Rightarrow> nat \<Rightarrow> nat" where
  "strip_count behind cells k = length (filter (strip_cell behind cells) (strip_neighbours k))"

text \<open>The eight neighbours on the board.\<close>

definition live_neighbours :: "u8 list \<Rightarrow> nat \<Rightarrow> nat \<Rightarrow> nat" where
  "live_neighbours cells i j =
     length (filter (\<lambda>(a, b). (a, b) \<noteq> (i, j) \<and> cells ! GOL_CI a b \<noteq> 0) (List.product [i - 1, i, i + 1] [j - 1, j, j + 1]))"

lemmas gol_sizes = GOL_WIDTH_def GOL_HEIGHT_def GOL_CI_def

lemma uint_of_nat_small: "n < 2 ^ LENGTH('a) \<Longrightarrow> uint (of_nat n :: 'a::len word) = int n"
proof -
  assume "n < 2 ^ LENGTH('a)"
  then have "int (unat (of_nat n :: 'a word)) = int n" by (simp only: unat_of_nat_small)
  then show ?thesis by simp
qed

lemma gol_ci_less: "i < 40 \<Longrightarrow> j < 70 \<Longrightarrow> GOL_CI i j < 2800"
  by (simp add: gol_sizes)

lemma count_loop_eq:
  "count_loop behind cells indeces count =
     count + of_nat (length (filter (\<lambda>index. unat index \<le> 2800 \<and> gol_cell behind cells index \<noteq> 0) indeces))"
  by (induction indeces arbitrary: count) (auto simp: gol_sizes)

lemma index_in_strip:
  assumes "length cells = 2800" and "- 71 \<le> x" and "x < 65465"
  shows "unat (word_of_int x :: u16) \<le> 2800 \<and> gol_cell behind cells (word_of_int x) \<noteq> 0 \<longleftrightarrow> strip_cell behind cells x"
proof (cases "0 \<le> x")
  case True
  then have "unat (word_of_int x :: u16) = nat x" using assms(3) by (simp add: unat_eq_nat_uint uint_word_of_int_eq take_bit_int_eq_self)
  then show ?thesis using True assms(1) by (auto simp: strip_cell_def gol_cell_def nat_less_iff nat_le_iff)
next
  case False
  then have "uint (word_of_int x :: u16) = x + 65536"
    using assms(2) mod_add_self2 [of x 65536] mod_pos_pos_trivial [of "x + 65536" 65536] by (simp add: uint_word_of_int_eq take_bit_eq_mod)
  then have "\<not> unat (word_of_int x :: u16) \<le> 2800" using assms(2) by (simp add: unat_eq_nat_uint)
  then show ?thesis using False by (simp add: strip_cell_def)
qed

lemma neighbors_strip:
  assumes "length cells = 2800" and "i < 40" and "j < 70"
  shows "gol_get_alive_neighbors behind cells (of_nat i) (of_nat j) = of_nat (strip_count behind cells (GOL_CI i j))"
proof -
  have u: "uint (of_nat i :: u8) = int i" "uint (of_nat j :: u8) = int j" using assms(2,3) uint_of_nat_small [of i, where 'a = 8] uint_of_nat_small [of j, where 'a = 8] by simp_all
  have k: "int (GOL_CI i j) = int i * 70 + int j" "GOL_CI i j < 2800" using assms by (simp_all add: gol_sizes)
  have ind: "gol_indeces (of_nat i) (of_nat j) = map word_of_int (strip_neighbours (GOL_CI i j))"
    unfolding gol_indeces_def strip_neighbours_def u k Let_def by (simp add: gol_sizes algebra_simps)
  have b: "\<forall>x\<in>set (strip_neighbours (GOL_CI i j)). - 71 \<le> x \<and> x < 65465" using k(2) by (simp add: strip_neighbours_def)
  have "filter (\<lambda>x. unat (word_of_int x :: u16) \<le> 2800 \<and> gol_cell behind cells (word_of_int x) \<noteq> 0) (strip_neighbours (GOL_CI i j)) =
      filter (strip_cell behind cells) (strip_neighbours (GOL_CI i j))"
    by (rule filter_cong [OF refl], rule index_in_strip [OF assms(1)]) (use b in blast)+
  then show ?thesis unfolding gol_get_alive_neighbors_def count_loop_eq ind strip_count_def filter_map comp_def length_map by simp
qed

lemma strip_count_bound: "strip_count behind cells k \<le> 8"
  using length_filter_le [of "strip_cell behind cells" "strip_neighbours k"] by (simp add: strip_count_def strip_neighbours_def)

lemma length_filter_sum: "length (filter P xs) = (\<Sum>x\<leftarrow>xs. of_bool (P x))"
  by (induction xs) auto

lemma strip_is_board:
  assumes "length cells = 2800" and "0 < i" "i < 39" "0 < j" "j < 69"
  shows "strip_count behind cells (GOL_CI i j) = live_neighbours cells i j"
proof -
  obtain a b where ab: "i = Suc a" "j = Suc b" using assms(2,4) by (metis gr0_implies_Suc)
  let ?ns = "[GOL_CI i b, GOL_CI i (Suc j), GOL_CI a j, GOL_CI (Suc i) j,
      GOL_CI a b, GOL_CI a (Suc j), GOL_CI (Suc i) b, GOL_CI (Suc i) (Suc j)]"
  have n: "strip_neighbours (GOL_CI i j) = map int ?ns" by (simp add: strip_neighbours_def gol_sizes ab)
  have lt: "\<forall>k\<in>set ?ns. k < 2800" using assms ab by (simp add: gol_sizes)
  have "filter (\<lambda>k. strip_cell behind cells (int k)) ?ns = filter (\<lambda>k. cells ! k \<noteq> 0) ?ns"
  proof (rule filter_cong [OF refl])
    fix k assume "k \<in> set ?ns"
    then have "k < 2800" by (rule bspec [OF lt])
    then show "strip_cell behind cells (int k) = (cells ! k \<noteq> 0)" by (simp add: strip_cell_def)
  qed
  then have "strip_count behind cells (GOL_CI i j) = length (filter (\<lambda>k. cells ! k \<noteq> 0) ?ns)"
    unfolding strip_count_def n filter_map comp_def by (simp only: length_map)
  also have "\<dots> = live_neighbours cells i j" unfolding live_neighbours_def length_filter_sum by (simp add: ab)
  finally show ?thesis .
qed

subsection \<open>One update\<close>

definition dies :: "u8 \<Rightarrow> u8 list \<Rightarrow> nat \<Rightarrow> bool" where
  "dies behind cells k \<longleftrightarrow> cells ! k \<noteq> 0 \<and> (strip_count behind cells k < 2 \<or> 3 < strip_count behind cells k)"

definition is_born :: "u8 \<Rightarrow> u8 list \<Rightarrow> nat \<Rightarrow> bool" where
  "is_born behind cells k \<longleftrightarrow> cells ! k = 0 \<and> strip_count behind cells k = 3"

lemma collect_cell_eq:
  assumes "length cells = 2800" and "i < 40" and "j < 70"
  shows "collect_cell behind cells (i, j) (K, R) =
    (K @ (if dies behind cells (GOL_CI i j) then [of_nat (GOL_CI i j)] else []),
     R @ (if is_born behind cells (GOL_CI i j) then [of_nat (GOL_CI i j)] else []))"
proof -
  let ?c = "strip_count behind cells (GOL_CI i j)"
  have n: "gol_get_alive_neighbors behind cells (of_nat i) (of_nat j) = of_nat ?c" by (rule neighbors_strip [OF assms])
  have c: "?c < 256" using strip_count_bound [of behind cells "GOL_CI i j"] by simp
  then have "(of_nat ?c :: u8) < 2 \<longleftrightarrow> ?c < 2" "3 < (of_nat ?c :: u8) \<longleftrightarrow> 3 < ?c" "(of_nat ?c :: u8) = 3 \<longleftrightarrow> ?c = 3"
    by (simp_all add: word_less_nat_alt word_unat_eq_iff)
  moreover have "unat (of_nat (GOL_CI i j) :: u16) = GOL_CI i j" using gol_ci_less [OF assms(2,3)] by (intro unat_of_nat_small) simp
  ultimately show ?thesis by (simp add: collect_cell_def n dies_def is_born_def Let_def)
qed

lemma collect_all:
  assumes "length cells = 2800" and "\<forall>(i, j)\<in>set ps. i < 40 \<and> j < 70"
  shows "fold (collect_cell behind cells) ps (K, R) =
    (K @ map of_nat (filter (dies behind cells) (map (\<lambda>(i, j). GOL_CI i j) ps)),
     R @ map of_nat (filter (is_born behind cells) (map (\<lambda>(i, j). GOL_CI i j) ps)))"
  using assms(2) by (induction ps arbitrary: K R) (auto simp: collect_cell_eq [OF assms(1)])

lemma fold_set_cells:
  "length (fold (\<lambda>index cells. cells[unat index := v]) ks cells) = length cells"
  "k < length cells \<Longrightarrow> fold (\<lambda>index cells. cells[unat index := v]) ks cells ! k = (if k \<in> unat ` set ks then v else cells ! k)"
  by (induction ks arbitrary: cells) (auto simp: nth_list_update)

lemma cell_numbers: "(\<lambda>(i, j). GOL_CI i j) ` set (List.product [0..<GOL_WIDTH] [0..<GOL_HEIGHT]) = {..<2800}"
proof (intro equalityI subsetI)
  fix k assume "k \<in> {..<2800 :: nat}"
  then have "k div 70 < 40" "k mod 70 < 70" "k = GOL_CI (k div 70) (k mod 70)" by (simp_all add: gol_sizes less_mult_imp_div_less)
  then show "k \<in> (\<lambda>(i, j). GOL_CI i j) ` set (List.product [0..<GOL_WIDTH] [0..<GOL_HEIGHT])"
    by (intro image_eqI [of _ _ "(k div 70, k mod 70)"]) (simp_all add: gol_sizes)
qed (auto simp: gol_sizes)

lemma gol_update_rule:
  assumes "length cells = 2800"
  shows "length (gol_update behind cells) = 2800"
    and "k < 2800 \<Longrightarrow> gol_update behind cells ! k = life (cells ! k) (strip_count behind cells k)"
proof -
  let ?ps = "List.product [0..<GOL_WIDTH] [0..<GOL_HEIGHT]"
  let ?ks = "map (\<lambda>(i, j). GOL_CI i j) ?ps"
  have "\<forall>(i, j)\<in>set ?ps. i < 40 \<and> j < 70" by (auto simp: gol_sizes)
  from collect_all [OF assms this] have u: "gol_update behind cells =
      fold (\<lambda>index cells. cells[unat index := 1]) (map (of_nat :: nat \<Rightarrow> u16) (filter (is_born behind cells) ?ks))
        (fold (\<lambda>index cells. cells[unat index := 0]) (map (of_nat :: nat \<Rightarrow> u16) (filter (dies behind cells) ?ks)) cells)"
    by (simp add: gol_update_def)
  then show "length (gol_update behind cells) = 2800" by (simp add: fold_set_cells(1) assms)
  have s: "unat ` set (map (of_nat :: nat \<Rightarrow> u16) (filter P ?ks)) = {k. k < 2800 \<and> P k}" for P
  proof -
    have "set ?ks = {..<2800}" using cell_numbers by simp
    then have "set (filter P ?ks) = {k. k < 2800 \<and> P k}" by auto
    then have "unat ` set (map (of_nat :: nat \<Rightarrow> u16) (filter P ?ks)) = (\<lambda>k. unat (of_nat k :: u16)) ` {k. k < 2800 \<and> P k}"
      by (simp only: set_map image_image)
    also have "\<dots> = (\<lambda>k. k) ` {k. k < 2800 \<and> P k}" by (rule image_cong) simp_all
    finally show ?thesis by simp
  qed
  show "gol_update behind cells ! k = life (cells ! k) (strip_count behind cells k)" if k: "k < 2800"
  proof -
    let ?d = "fold (\<lambda>index cells. cells[unat index := 0]) (map (of_nat :: nat \<Rightarrow> u16) (filter (dies behind cells) ?ks)) cells"
    have len: "k < length cells" "k < length ?d" using k assms by (simp_all only: fold_set_cells(1))
    have d: "?d ! k = (if dies behind cells k then 0 else cells ! k)"
      by (rule trans [OF fold_set_cells(2) [OF len(1)]], unfold s) (use k in simp)
    have "gol_update behind cells ! k = (if is_born behind cells k then 1 else ?d ! k)"
      unfolding u by (rule trans [OF fold_set_cells(2) [OF len(2)]], unfold s) (use k in simp)
    then show ?thesis unfolding d by (auto simp: dies_def is_born_def life_def)
  qed
qed

subsection \<open>The picture\<close>

definition gol_picture :: "u8 list \<Rightarrow> u8 \<times> u8 \<Rightarrow> u8 list list" where
  "gol_picture cells cursor = map (\<lambda>i. map (gol_char cells cursor i) [0..<70] @ [0x0A]) [0..<40]"

lemma fold_row: "n \<le> length line \<Longrightarrow> fold (\<lambda>j line. line[j := f j]) [0..<n] line = map f [0..<n] @ drop n line"
  by (induction n) (auto simp: list_update_append Cons_nth_drop_Suc [symmetric] split: nat.split)

lemma gol_char_visible: "gol_char cells cursor i j \<in> {0x2A, 0x58, 0x23, 0x20}"
  by (simp add: gol_char_def GOL_BORDER_def GOL_CURSOR_def GOL_CELL_def GOL_EMPTY_def)

definition wrote :: "u8 list list \<Rightarrow> 'a proc_state_scheme \<Rightarrow> 'a proc_state_scheme" where
  "wrote ls s = s\<lparr>screen := (screen s)\<lparr>term_writes := term_writes (screen s) @ ls\<rparr>\<rparr>"

lemma wrote_simps [simp]: "wrote [] s = s" "wrote ls' (wrote ls s) = wrote (ls @ ls') s"
  "term_ready (screen (wrote ls s)) = term_ready (screen s)" "mem (wrote ls s) = mem s"
  by (simp_all add: wrote_def)

lemma gol_draw_line_eq:
  assumes line: "length line = 72" "line ! 70 = 0x0A" "line ! 71 = 0" and t: "term_ready (screen s)"
  shows "gol_draw_line cells cursor i (line, s) =
    Inr (map (gol_char cells cursor i) [0..<70] @ [0x0A, 0], wrote [map (gol_char cells cursor i) [0..<70] @ [0x0A]] s)"
proof -
  let ?row = "map (gol_char cells cursor i) [0..<70]"
  have "drop 70 line = [0x0A, 0]"
    using line by (intro nth_equalityI) (auto simp: less_Suc_eq numeral_2_eq_2)
  then have f: "fold (\<lambda>j line. line[j := gol_char cells cursor i j]) [0..<70] line = ?row @ [0x0A, 0]"
    using fold_row [of 70 line "gol_char cells cursor i"] line(1) by simp
  have "gol_char cells cursor i j \<noteq> 0 \<and> gol_char cells cursor i j \<noteq> 0x25" for j using gol_char_visible [of cells cursor i j] by auto
  then have nz: "0 \<notin> set (?row @ [0x0A])" "0x25 \<notin> set (?row @ [0x0A])" by (auto simp: image_iff)
  have "is_cstr (list_cstr ((?row @ [0x0A]) @ [0])) (?row @ [0x0A])" by (rule is_cstr_list [OF nz(1)]) simp
  from print_plain [OF this nz(2) _ t] have "print_text (list_cstr (?row @ [0x0A, 0])) [] s = Inr (wrote [?row @ [0x0A]] s)"
    by (simp add: wrote_def)
  then show ?thesis by (simp add: gol_draw_line_def GOL_HEIGHT_def f)
qed

lemma gol_draw_lines:
  assumes "length line = 72" "line ! 70 = 0x0A" "line ! 71 = 0" and "term_ready (screen s)"
  shows "\<exists>line'. foldE (gol_draw_line cells cursor) is (line, s) =
    Inr (line', wrote (map (\<lambda>i. map (gol_char cells cursor i) [0..<70] @ [0x0A]) is) s)"
  using assms
proof (induction "is" arbitrary: line s)
  case (Cons i "is")
  let ?line = "map (gol_char cells cursor i) [0..<70] @ [0x0A, 0]"
  have "length ?line = 72" "?line ! 70 = 0x0A" "?line ! 71 = 0" by (simp_all add: nth_append)
  from Cons.IH [OF this, of "wrote [map (gol_char cells cursor i) [0..<70] @ [0x0A]] s"] Cons.prems(4)
  show ?case using gol_draw_line_eq [OF Cons.prems] by simp
qed simp

lemma gol_draw_eq:
  assumes "term_ready (screen s)"
  shows "gol_draw cells cursor s = Inr (wrote (gol_picture cells cursor) s)"
proof -
  let ?line = "((replicate 72 0)[71 := 0 :: u8])[70 := 0x0A]"
  have "length ?line = 72" "?line ! 70 = 0x0A" "?line ! 71 = 0" by simp_all
  from gol_draw_lines [OF this assms, of cells cursor "[0..<40]"] obtain line' where
    "foldE (gol_draw_line cells cursor) [0..<40] (?line, s) = Inr (line', wrote (gol_picture cells cursor) s)"
    unfolding gol_picture_def by blast
  then show ?thesis by (simp add: gol_draw_def gol_sizes Let_def)
qed

subsection \<open>Every state of the game\<close>

datatype gol_event = Key u8 | Generation u8

fun gol_act :: "gol_event \<Rightarrow> gol_game \<Rightarrow> gol_game result" where
  "gol_act (Key key) g = gol_key key g"
| "gol_act (Generation behind) g = Inr (g\<lparr>gol_cells := gol_update behind (gol_cells g)\<rparr>)"

definition gol_typed :: "gol_game \<Rightarrow> bool" where
  "gol_typed g \<longleftrightarrow> length (gol_cells g) = 2800 \<and> set (gol_cells g) \<subseteq> {0, 1}"

lemma gol_init_cells_eq: "length cells = 2800 \<Longrightarrow> gol_init_cells cells = replicate 2800 0"
  using fold_row [of 2800 cells "\<lambda>_. 0"] by (simp add: gol_init_cells_def gol_sizes map_replicate_const)

lemma gol_update_typed:
  assumes "length cells = 2800" and "set cells \<subseteq> {0, 1}"
  shows "set (gol_update behind cells) \<subseteq> {0, 1}"
proof
  fix c assume "c \<in> set (gol_update behind cells)"
  then obtain k where k: "k < 2800" "c = gol_update behind cells ! k" using gol_update_rule(1) [OF assms(1)] by (metis in_set_conv_nth)
  moreover have "cells ! k \<in> set cells" using k(1) assms(1) by simp
  ultimately show "c \<in> {0, 1}" using assms(2) gol_update_rule(2) [OF assms(1) k(1), of behind] by (auto simp: life_def)
qed

lemma gol_event_typed:
  assumes "gol_typed g" and "gol_act e g = Inr h"
  shows "gol_typed h"
proof (cases e)
  case (Generation b)
  then show ?thesis
    using assms gol_update_rule(1) [of "gol_cells g" b] gol_update_typed [of "gol_cells g" b] by (auto simp: gol_typed_def simp del: insert_iff subset_insert_iff)
next
  case (Key key)
  have upd: "x = 0 \<or> x = 1" if "x \<in> set ((gol_cells g)[i := c])" "c = 0 \<or> c = 1" for x i c
    using set_update_subset_insert [of "gol_cells g" i c] assms(1) that by (auto simp: gol_typed_def)
  then show ?thesis
    using assms Key by (auto simp: gol_key_def gol_typed_def gol_init_cells_eq Let_def dest!: upd split: if_splits prod.splits)
qed

lemma gol_run_typed: "gol_typed g \<Longrightarrow> foldE gol_act es g = Inr h \<Longrightarrow> gol_typed h"
  by (induction es arbitrary: g) (auto simp: result_simps dest: gol_event_typed)

lemma gol_start_typed: "gol_typed gol_start"
  by (auto simp: gol_typed_def gol_start_def gol_sizes)

subsection \<open>Properties\<close>

text \<open>
  C37. One generation. An update of the board, which collects the cells to kill and to revive and
  then writes them, is the simultaneous rule of Conway's game: a live cell stays with two or
  three live neighbours and dies otherwise, an empty one is born with three. For every cell the
  neighbours are those of the strip in which a row goes over into the next one, with the byte
  behind the array; for the cells inside the drawn border they are the eight neighbours on the
  board.
\<close>

theorem gol_update_is_life:
  assumes "length cells = 2800"
  shows "length (gol_update behind cells) = 2800 \<and>
    (\<forall>k<2800. gol_update behind cells ! k = life (cells ! k) (strip_count behind cells k)) \<and>
    (\<forall>i j. 0 < i \<and> i < 39 \<and> 0 < j \<and> j < 69 \<longrightarrow>
       gol_update behind cells ! GOL_CI i j = life (cells ! GOL_CI i j) (live_neighbours cells i j))"
proof (intro conjI allI impI)
  fix i j :: nat assume ij: "0 < i \<and> i < 39 \<and> 0 < j \<and> j < 69"
  then have "GOL_CI i j < 2800" by (intro gol_ci_less) simp_all
  then show "gol_update behind cells ! GOL_CI i j = life (cells ! GOL_CI i j) (live_neighbours cells i j)"
    using gol_update_rule(2) [OF assms] strip_is_board [OF assms, of i j] ij by simp
qed (use gol_update_rule [OF assms] in simp_all)

text \<open>Three cells in a row: the middle one stays, the cell above it is born.\<close>

lemma gol_update_is_life_witness:
  "let cells = (replicate 2800 0)[GOL_CI 10 9 := 1, GOL_CI 10 10 := 1, GOL_CI 10 11 := 1]
   in gol_update 0 cells ! GOL_CI 10 10 = 1 \<and> gol_update 0 cells ! GOL_CI 9 10 = 1 \<and> gol_update 0 cells ! GOL_CI 10 9 = 0"
proof -
  let ?cells = "(replicate 2800 0)[GOL_CI 10 9 := 1, GOL_CI 10 10 := 1, GOL_CI 10 11 := 1 :: u8]"
  have "length ?cells = 2800" by simp
  from gol_update_is_life [OF this, of 0] have r: "\<And>i j. 0 < i \<Longrightarrow> i < 39 \<Longrightarrow> 0 < j \<Longrightarrow> j < 69 \<Longrightarrow>
      gol_update 0 ?cells ! GOL_CI i j = life (?cells ! GOL_CI i j) (live_neighbours ?cells i j)" by blast
  have "live_neighbours ?cells 10 10 = 2" "live_neighbours ?cells 9 10 = 3" "live_neighbours ?cells 10 9 = 1"
    unfolding live_neighbours_def length_filter_sum by (simp_all add: gol_sizes nth_list_update)
  moreover have "?cells ! GOL_CI 10 10 = 1" "?cells ! GOL_CI 9 10 = 0" "?cells ! GOL_CI 10 9 = 1" by (simp_all add: gol_sizes nth_list_update)
  ultimately show ?thesis using r [of 10 10] r [of 9 10] r [of 10 9] by (simp add: life_def)
qed



text \<open>
  The cursor can leave the board: the test after moving up lets row 40 through, and the next
  change of a cell there is a write behind the array.
\<close>

lemma gol_key_up:
  "gol_cursor g = (r, c) \<Longrightarrow> gol_key 0x77 g = Inr (g\<lparr>gol_cursor := (if 40 < unat (r - 1) then 40 else r - 1, c)\<rparr>)"
  by (simp add: gol_key_def gol_sizes)

lemma gol_keys_up:
  "n \<le> 40 \<Longrightarrow> gol_cursor g = (of_nat n, c) \<Longrightarrow> foldE gol_key (replicate n 0x77) g = Inr (g\<lparr>gol_cursor := (0, c)\<rparr>)"
proof (induction n arbitrary: g)
  case (Suc n)
  then have "gol_key 0x77 g = Inr (g\<lparr>gol_cursor := (of_nat n, c)\<rparr>)" by (simp add: gol_key_up)
  then show ?case using Suc.IH [of "g\<lparr>gol_cursor := (of_nat n, c)\<rparr>"] Suc.prems by simp
qed simp

lemma gol_cursor_leaves_board: "bindE (foldE gol_key (replicate 20 0x77) gol_start) (foldE gol_key [0x77, 0x65]) = Inl Fault"
proof -
  have "gol_cursor gol_start = (of_nat 20, 35)" by (simp add: gol_start_def gol_sizes)
  moreover have "unat (- 1 :: u8) = 255" by (simp add: unsigned_minus_1_eq_mask mask_eq_exp_minus_1)
  ultimately show ?thesis
    using gol_keys_up [of 20 gol_start 35] by (simp add: gol_key_up) (simp add: gol_key_def gol_start_def gol_sizes)
qed

end
