(* ===== verification/Programs.thy ===== *)
theory Programs
  imports Gol
begin

text \<open>
  The commands \<open>cat\<close> and \<open>ls\<close> of \<open>programs/\<close> and the demonstration processes of \<open>demo/\<close>. They run on
  the system call interface; the processes' registers and the address of the saved context are
  in \<open>user_env\<close>. Local arrays and string literals have addresses in the memory, collected in
  \<open>program_frame\<close>. Loops that wait for an interrupt run over the list of what the interrupts do to the
  kernel's state before each round, as for the games.

  The properties: the two loops that copy a file to the terminal end, and show the file.
\<close>

subsection \<open>Environment\<close>

record 's user_env =
  syscalls :: "'s syscall option list"
  registers :: execution_context
  entry_frame :: u64

record program_frame =
  path_array :: u64
  char_array :: u64
  buffer_array :: u64
  erase_text :: u64
  newline_text :: u64
  failure_text :: u64

definition sys ::
  "'a proc_state_scheme user_env \<Rightarrow> u64 \<Rightarrow> u64 \<Rightarrow> u64 \<Rightarrow> u64 \<Rightarrow> u64 \<Rightarrow> 'a proc_state_scheme \<Rightarrow> (u64 \<times> 'a proc_state_scheme) result" where
  "sys env = do_syscall (syscalls env) (registers env) (entry_frame env)"

subsection \<open>Reading a path\<close>

definition take_stdin :: "'a kernel_state_scheme user_env \<Rightarrow> 'a kernel_state_scheme \<Rightarrow> (bool \<times> 'a kernel_state_scheme) result" where
  "take_stdin env s = bindE (sys env 6 0 0 0 0 s) (\<lambda>(success, s). Inr (success \<noteq> 0, s))"

definition path_step ::
  "'a kernel_state_scheme user_env \<Rightarrow> program_frame \<Rightarrow> u16 \<times> 'a kernel_state_scheme \<Rightarrow> (bool \<times> u16 \<times> 'a kernel_state_scheme) result" where
  "path_step env fr = (\<lambda>(index, s).
     bindE (sys env 5 0 0 0 0 s) (\<lambda>(read_char, s).
     if read_char \<noteq> - 1 then
       if read_char = 0x0A then Inr (True, index, s)
       else if read_char = 0x08 \<and> index > 0 then
         let index = index - 1;
             s = s\<lparr>mem := (mem s)(path_array fr + ucast index := 0)\<rparr>
         in bindE (sys env 4 (erase_text fr) 0 0 0 s) (\<lambda>(_, s). Inr (False, index, s))
       else
         let s = s\<lparr>mem := (mem s)(char_array fr := ucast read_char, char_array fr + 1 := 0)\<rparr>;
             s = s\<lparr>mem := (mem s)(path_array fr + ucast index := ucast read_char)\<rparr>;
             index = index + 1
         in bindE (sys env 4 (char_array fr) 0 0 0 s) (\<lambda>(_, s). Inr (False, index, s))
     else Inr (False, index, s)))"

definition read_path ::
  "'a kernel_state_scheme user_env \<Rightarrow> program_frame \<Rightarrow> ('a kernel_state_scheme \<Rightarrow> 'a kernel_state_scheme) list \<Rightarrow>
   'a kernel_state_scheme \<Rightarrow> (bool \<times> 'a kernel_state_scheme) result" where
  "read_path env fr events s =
     bindE (rounds (path_step env fr) (map (\<lambda>e (index, s). (index, e s)) events) (0, s)) (\<lambda>(entered, index, s). Inr (entered, s))"

subsection \<open>cat\<close>

partial_function (option) cat_loop ::
  "'a kernel_state_scheme user_env \<Rightarrow> program_frame \<Rightarrow> u32 \<Rightarrow> 'a kernel_state_scheme \<Rightarrow> 'a kernel_state_scheme result option" where
  "cat_loop env fr fid s =
     (case sys env 3 (scast fid) (buffer_array fr) 511 0 s of
        Inl e \<Rightarrow> Some (Inl e)
      | Inr (nread, s) \<Rightarrow>
          let s = s\<lparr>mem := (mem s)(buffer_array fr + nread := 0)\<rparr>
          in case sys env 4 (buffer_array fr) 0 0 0 s of
               Inl e \<Rightarrow> Some (Inl e)
             | Inr (_, s) \<Rightarrow> if nread \<noteq> 0 then cat_loop env fr fid s else Some (Inr s))"

definition cat_show :: "'a kernel_state_scheme user_env \<Rightarrow> program_frame \<Rightarrow> 'a kernel_state_scheme \<Rightarrow> 'a kernel_state_scheme result" where
  "cat_show env fr s =
     bindE (sys env 4 (newline_text fr) 0 0 0 s) (\<lambda>(_, s).
     bindE (sys env 1 (path_array fr) 0 0 0 s) (\<lambda>(r, s).
     let fid = ucast r :: u32 in
     if fid <s 0 then
       bindE (sys env 4 (failure_text fr) 0 0 0 s) (\<lambda>(_, s).
       bindE (sys env 7 0 0 0 0 s) (\<lambda>(_, s). Inr s))
     else
       bindE (run_loop (cat_loop env fr fid s)) (\<lambda>s.
       bindE (sys env 2 (scast fid) 0 0 0 s) (\<lambda>(_, s).
       bindE (sys env 7 0 0 0 0 s) (\<lambda>(_, s). Inr s)))))"

definition cat_command ::
  "'a kernel_state_scheme user_env \<Rightarrow> program_frame \<Rightarrow> ('a kernel_state_scheme \<Rightarrow> 'a kernel_state_scheme) list \<Rightarrow>
   ('a kernel_state_scheme \<Rightarrow> 'a kernel_state_scheme) list \<Rightarrow> 'a kernel_state_scheme \<Rightarrow> (bool \<times> 'a kernel_state_scheme) result" where
  "cat_command env fr waits events s =
     bindE (rounds (take_stdin env) waits s) (\<lambda>(locked, s).
     if \<not> locked then Inr (False, s)
     else
       bindE (read_path env fr events s) (\<lambda>(entered, s).
       if \<not> entered then Inr (False, s) else bindE (cat_show env fr s) (\<lambda>s. Inr (True, s))))"

subsection \<open>ls\<close>

definition ls_show ::
  "vfs_locals \<Rightarrow> 'a kernel_state_scheme user_env \<Rightarrow> program_frame \<Rightarrow> 'a kernel_state_scheme \<Rightarrow> 'a kernel_state_scheme result" where
  "ls_show loc env fr s =
     (let s = s\<lparr>mem := (mem s)(buffer_array fr := 0x0A)\<rparr> in
      bindE (vfs_read_dir_syscall loc 0 (path_array fr) (buffer_array fr + 1) 1023 0 s) (\<lambda>(nread, s).
      let s = s\<lparr>mem := (mem s)(buffer_array fr + nread := 0)\<rparr> in
      bindE (sys env 4 (buffer_array fr) 0 0 0 s) (\<lambda>(_, s).
      bindE (sys env 7 0 0 0 0 s) (\<lambda>(_, s). Inr s))))"

definition ls_command ::
  "vfs_locals \<Rightarrow> 'a kernel_state_scheme user_env \<Rightarrow> program_frame \<Rightarrow> ('a kernel_state_scheme \<Rightarrow> 'a kernel_state_scheme) list \<Rightarrow>
   ('a kernel_state_scheme \<Rightarrow> 'a kernel_state_scheme) list \<Rightarrow> 'a kernel_state_scheme \<Rightarrow> (bool \<times> 'a kernel_state_scheme) result" where
  "ls_command loc env fr waits events s =
     bindE (rounds (take_stdin env) waits s) (\<lambda>(locked, s).
     if \<not> locked then Inr (False, s)
     else
       bindE (read_path env fr events s) (\<lambda>(entered, s).
       if \<not> entered then Inr (False, s) else bindE (ls_show loc env fr s) (\<lambda>s. Inr (True, s))))"

subsection \<open>The demonstration processes\<close>

function count_up :: "int \<Rightarrow> int \<Rightarrow> int" where
  "count_up limit x = (if x < limit then count_up limit (x + 1) else x)"
  by pat_completeness auto
termination
  by (relation "measure (\<lambda>(limit, x). nat (limit - x))") auto

declare count_up.simps [simp del]

definition log_args ::
  "kernel_image \<Rightarrow> string \<Rightarrow> string \<Rightarrow> u64 list \<Rightarrow> 'a proc_state_scheme \<Rightarrow> 'a proc_state_scheme result" where
  "log_args im prefix fmt args s =
     bindE (klog (prod_mode im) (serial_device im) (mem s) (Some (cstr prefix)) (cstr fmt) args (screen s)) (\<lambda>con. Inr (s\<lparr>screen := con\<rparr>))"

definition add_one_to_x ::
  "kernel_image \<Rightarrow> 'a kernel_state_scheme user_env \<Rightarrow> u64 \<Rightarrow> 'a kernel_state_scheme \<Rightarrow> 'a kernel_state_scheme result" where
  "add_one_to_x im env str s =
     bindE (kalloc 64 s) (\<lambda>(ptr0, s).
     bindE (syscall_memcpy (syscalls env) (registers env) (entry_frame env) ptr0 str 12 s) (\<lambda>(res0, s).
     bindE (log_args im ''process x ::'' ''prt0: %s'' [ptr0] s) (\<lambda>s.
     bindE (log_args im ''process x ::'' ''prt0 result: %d'' [res0] s) (\<lambda>s.
     let x = count_up 5000000 0
     in log_args im ''DEMO::'' ''x  will now exit'' [] s))))"

definition add_one_to_y :: "kernel_image \<Rightarrow> 'a kernel_state_scheme \<Rightarrow> 'a kernel_state_scheme result" where
  "add_one_to_y im s = (let y = count_up 6000000 0 in log_args im ''DEMO::'' ''y  will now exit'' [] s)"

definition add_one_to_z :: "kernel_image \<Rightarrow> 'a kernel_state_scheme \<Rightarrow> 'a kernel_state_scheme result" where
  "add_one_to_z im s = (let z = count_up 7000000 0 in log_args im ''DEMO::'' ''z  will now exit'' [] s)"

definition print_byte :: "program_frame \<Rightarrow> nat \<Rightarrow> 'a kernel_state_scheme \<Rightarrow> 'a kernel_state_scheme result" where
  "print_byte fr k s = print_text (cstr ''%c'') [scast (mem s (buffer_array fr + of_nat k))] s"

partial_function (option) read_file_loop ::
  "'a kernel_state_scheme user_env \<Rightarrow> program_frame \<Rightarrow> u32 \<Rightarrow> 'a kernel_state_scheme \<Rightarrow> 'a kernel_state_scheme result option" where
  "read_file_loop env fr fid s =
     (case sys env 3 (scast fid) (buffer_array fr) 50 0 s of
        Inl e \<Rightarrow> Some (Inl e)
      | Inr (r, s) \<Rightarrow>
          let nread = ucast r :: u32 in
          if 0 <s nread then
            case foldE (print_byte fr) [0..<unat nread] s of
              Inl e \<Rightarrow> Some (Inl e)
            | Inr s \<Rightarrow> read_file_loop env fr fid s
          else Some (Inr s))"

text \<open>\<open>read_file_x\<close> and \<open>read_file_y\<close> have the same body; \<open>name\<close> is the address of the literal \<open>/x.txt\<close>.\<close>

definition read_file_x ::
  "'a kernel_state_scheme user_env \<Rightarrow> program_frame \<Rightarrow> u64 \<Rightarrow> 'a kernel_state_scheme \<Rightarrow> 'a kernel_state_scheme result" where
  "read_file_x env fr name s =
     bindE (sys env 1 name 0 0 0 s) (\<lambda>(r, s).
     let fid = ucast r :: u32 in
     bindE (print_text (cstr ''\<newline>'') [] s) (\<lambda>s.
     bindE (run_loop (read_file_loop env fr fid s)) (\<lambda>s.
     bindE (print_text (cstr ''\<newline>'') [] s) (\<lambda>s.
     bindE (sys env 2 (scast fid) 0 0 0 s) (\<lambda>(_, s). Inr s)))))"

definition read_file_y ::
  "'a kernel_state_scheme user_env \<Rightarrow> program_frame \<Rightarrow> u64 \<Rightarrow> 'a kernel_state_scheme \<Rightarrow> 'a kernel_state_scheme result" where
  "read_file_y env fr name s =
     bindE (sys env 1 name 0 0 0 s) (\<lambda>(r, s).
     let fid = ucast r :: u32 in
     bindE (print_text (cstr ''\<newline>'') [] s) (\<lambda>s.
     bindE (run_loop (read_file_loop env fr fid s)) (\<lambda>s.
     bindE (print_text (cstr ''\<newline>'') [] s) (\<lambda>s.
     bindE (sys env 2 (scast fid) 0 0 0 s) (\<lambda>(_, s). Inr s)))))"

text \<open>\<open>user_program.c\<close>, with the addresses of its three texts.\<close>

definition user_main ::
  "'a kernel_state_scheme user_env \<Rightarrow> u64 \<Rightarrow> u64 \<Rightarrow> u64 \<Rightarrow> 'a kernel_state_scheme \<Rightarrow> 'a kernel_state_scheme result" where
  "user_main env text1 text2 text3 s =
     bindE (sys env 4 text1 0 0 0 s) (\<lambda>(_, s).
     bindE (sys env 4 text2 0 0 0 s) (\<lambda>(_, s).
     bindE (sys env 4 text3 0 0 0 s) (\<lambda>(_, s). Inr s)))"

subsection \<open>Files through the system calls\<close>

definition env_ok :: "'a kernel_state_scheme user_env \<Rightarrow> bool" where
  "env_ok env \<longleftrightarrow> (\<exists>loc left. syscall_init loc left (replicate 32 None) = Inr (syscalls env))"

lemma sys_read:
  assumes "env_ok env"
  shows "sys env 3 a0 a1 a2 a3 s = bindE (vfs_read (ucast a0) a1 a2 (entered (registers env) (entry_frame env) 3 a0 a1 a2 a3 s))
     (\<lambda>(r, t). Inr (r, returned (entry_frame env) r t))"
proof -
  obtain loc left where "syscall_init loc left (replicate 32 None) = Inr (syscalls env)" using assms by (auto simp: env_ok_def)
  from do_syscall_service [OF this] show ?thesis by (simp add: sys_def services_def vfs_read_syscall_def)
qed

lemma sys_print:
  assumes "env_ok env" and "is_cstr (mem_cstr (mem s) a0) bs" and "0x25 \<notin> set bs" and "length bs < 1024" and "term_ready (screen s)"
  shows "\<exists>r. sys env 4 a0 a1 a2 a3 s = Inr (r, returned (entry_frame env) r
     ((entered (registers env) (entry_frame env) 4 a0 a1 a2 a3 s)\<lparr>screen := (screen s)\<lparr>term_writes := term_writes (screen s) @ [bs]\<rparr>\<rparr>))"
proof -
  obtain loc left where l: "syscall_init loc left (replicate 32 None) = Inr (syscalls env)" using assms(1) by (auto simp: env_ok_def)
  let ?t = "entered (registers env) (entry_frame env) 4 a0 a1 a2 a3 s"
  have t: "mem ?t = mem s" "screen ?t = screen s" by (simp_all add: entered_def)
  have "print_text (mem_cstr (mem ?t) a0) [] ?t = Inr (?t\<lparr>screen := (screen ?t)\<lparr>term_writes := term_writes (screen ?t) @ [bs]\<rparr>\<rparr>)"
    using assms t by (intro print_plain) simp_all
  then have p: "print_handler left (entry_frame env) a0 a1 a2 a3 ?t = Inr (left, ?t\<lparr>screen := (screen s)\<lparr>term_writes := term_writes (screen s) @ [bs]\<rparr>\<rparr>)"
    by (auto simp: print_handler_def print_syscall_def print_text_def t bindE_def split: sum.splits)
  show ?thesis unfolding sys_def do_syscall_service [OF l] by (simp add: services_def p)
qed

lemma vfs_at_keep:
  fixes s :: "'a vfs_state_scheme" and t :: "'b vfs_state_scheme"
  assumes "vfs_at es fid buf limit s data pos" and "open_files t = open_files s" "ustar_files t = ustar_files s"
    "tar_fs_start_address t = tar_fs_start_address s" and "mounted_devices t = mounted_devices s"
    "mounted_devices_num t = mounted_devices_num s" "mountpoints t = mountpoints s" "fs_operations t = fs_operations s"
    "vfs_opened_files t = vfs_opened_files s" and "\<And>x. x \<notin> bytes_of buf limit \<Longrightarrow> mem t x = mem s x"
  shows "vfs_at es fid buf limit t data pos"
proof -
  have a: "fs_ok es s" "mounted s" "vfs_file_open es s fid data pos"
    and dis: "bytes_of buf limit \<inter> archive_area (tar_fs_start_address s) es = {}" using assms(1) by (simp_all add: vfs_at_def)
  have "fs_ok es t"
    by (rule fs_ok_mem [OF a(1) assms(2-4)]) (use dis assms(10) in blast)
  moreover have "mounted t" using a(2) assms(5-9) by (simp add: mounted_def root_mountpoint_def)
  moreover have "vfs_file_open es t fid data pos"
    using a(3) file_open_cong [OF assms(2-4)] by (simp add: vfs_file_open_def assms(9))
  ultimately show ?thesis using dis assms(4) by (simp add: vfs_at_def)
qed

lemmas call_simps = entered_def returned_def update_ports_def

lemma read_call:
  fixes s :: "'a kernel_state_scheme"
  assumes env: "env_ok env" and at: "vfs_at es fid buf 512 s data pos" and n: "unat n < 512"
  defines "k \<equiv> min (unat n) (length data - pos)"
  shows "\<exists>t. sys env 3 (scast fid) buf n a3 s = Inr (of_nat k, t) \<and> vfs_at es fid buf 512 t data (pos + k) \<and>
    buffer_bytes buf t k = take (unat n) (drop pos data) \<and> term_writes (screen t) = term_writes (screen s) \<and>
    term_ready (screen t) = term_ready (screen s)"
proof -
  let ?s = "entered (registers env) (entry_frame env) 3 (scast fid) buf n a3 s"
  have e: "vfs_at es fid buf 512 ?s data pos" by (rule vfs_at_keep [OF at]) (simp_all add: call_simps)
  have dis: "bytes_of buf (unat n) \<inter> archive_area (tar_fs_start_address ?s) es = {}"
    using e bytes_of_mono [of "unat n" 512 buf] n unfolding vfs_at_def by auto
  obtain m where m: "vfs_read fid buf n ?s = Inr (of_nat k, advanced fid k m ?s)" "\<forall>i<k. m (buf + of_nat i) = data ! (pos + i)"
    "fs_ok es (advanced fid k m ?s)" "mounted (advanced fid k m ?s)" "vfs_file_open es (advanced fid k m ?s) fid data (pos + k)"
    using vfs_read_eq [OF _ _ _ dis, of fid data pos] e unfolding vfs_at_def k_def by blast
  let ?t = "returned (entry_frame env) (of_nat k) (advanced fid k m ?s)"
  have c: "ucast (scast fid :: u64) = fid" by (rule bit_word_eqI) (simp add: bit_simps)
  have "sys env 3 (scast fid) buf n a3 s = Inr (of_nat k, ?t)" by (simp add: sys_read [OF env] c m(1))
  moreover have "vfs_at es fid buf 512 (advanced fid k m ?s) data (pos + k)"
    using m(3-5) e by (simp add: vfs_at_def advanced_def update_file_def)
  then have "vfs_at es fid buf 512 ?t data (pos + k)" by (rule vfs_at_keep) (simp_all add: call_simps)
  moreover have "pos \<le> length data" using at by (simp add: vfs_at_def vfs_file_open_def Let_def)
  then have "buffer_bytes buf ?t k = take (unat n) (drop pos data)"
    using m(2) by (intro nth_equalityI) (simp_all add: buffer_bytes_def call_simps advanced_def update_file_def k_def)
  ultimately show ?thesis by (intro exI [of _ ?t]) (simp add: call_simps advanced_def update_file_def)
qed

lemma terminated_chunk:
  assumes "buffer_bytes buf t k = bs" and "0 \<notin> set bs" and "k < 512"
  shows "is_cstr (mem_cstr ((mem t)(buf + of_nat k := 0)) buf) bs"
proof -
  have l: "length bs = k" using assms(1) by (auto simp: buffer_bytes_def)
  have "mem t (buf + of_nat i) = bs ! i" if "i < k" for i using assms(1) that by (auto simp: buffer_bytes_def)
  moreover have "i < k \<Longrightarrow> buf + of_nat i \<noteq> buf + of_nat k" for i
    using of_nat_eq_small [of i k, where 'a = 64] assms(3) by simp
  ultimately show ?thesis using assms(2) l by (simp add: is_cstr_def mem_cstr_def)
qed

lemma cat_round:
  fixes s :: "'a kernel_state_scheme"
  assumes env: "env_ok env" and at: "vfs_at es fid (buffer_array fr) 512 s data pos"
    and clean: "0 \<notin> set data" "0x25 \<notin> set data" and ready: "term_ready (screen s)"
  defines "k \<equiv> min 511 (length data - pos)"
  shows "\<exists>t. vfs_at es fid (buffer_array fr) 512 t data (pos + k) \<and> term_ready (screen t) \<and>
    term_writes (screen t) = term_writes (screen s) @ [take 511 (drop pos data)] \<and>
    cat_loop env fr fid s = (if k \<noteq> 0 then cat_loop env fr fid t else Some (Inr t))"
proof -
  let ?b = "buffer_array fr" and ?c = "take 511 (drop pos data)"
  obtain t where t: "sys env 3 (scast fid) ?b 511 0 s = Inr (of_nat k, t)" "vfs_at es fid ?b 512 t data (pos + k)"
    "buffer_bytes ?b t k = ?c" "term_writes (screen t) = term_writes (screen s)" "term_ready (screen t) = term_ready (screen s)"
    using read_call [OF env at, of 511 0] unfolding k_def by auto
  have k: "k < 512" by (simp add: k_def)
  let ?u = "t\<lparr>mem := (mem t)(?b + of_nat k := 0)\<rparr>"
  have "?b + of_nat k \<in> bytes_of ?b 512" using k unfolding bytes_of_iff by blast
  then have u: "vfs_at es fid ?b 512 ?u data (pos + k)" by (intro vfs_at_keep [OF t(2)]) auto
  have c: "0 \<notin> set ?c" "0x25 \<notin> set ?c" "length ?c < 1024" using clean by (auto dest: in_set_takeD in_set_dropD)
  obtain r where r: "sys env 4 ?b 0 0 0 ?u = Inr (r, returned (entry_frame env) r
      ((entered (registers env) (entry_frame env) 4 ?b 0 0 0 ?u)\<lparr>screen := (screen ?u)\<lparr>term_writes := term_writes (screen ?u) @ [?c]\<rparr>\<rparr>))"
    using sys_print [OF env, of ?u ?b ?c 0 0 0] terminated_chunk [OF t(3) c(1) k] c ready t(5) by auto
  let ?v = "returned (entry_frame env) r
      ((entered (registers env) (entry_frame env) 4 ?b 0 0 0 ?u)\<lparr>screen := (screen ?u)\<lparr>term_writes := term_writes (screen ?u) @ [?c]\<rparr>\<rparr>)"
  have "vfs_at es fid ?b 512 ?v data (pos + k)" by (rule vfs_at_keep [OF u]) (simp_all add: call_simps)
  moreover have "term_ready (screen ?v)" "term_writes (screen ?v) = term_writes (screen s) @ [?c]"
    using ready t(4,5) by (simp_all add: call_simps)
  moreover have "(of_nat k :: u64) = 0 \<longleftrightarrow> k = 0" using of_nat_eq_small [of k 0, where 'a = 64] k by simp
  then have "cat_loop env fr fid s = (if k \<noteq> 0 then cat_loop env fr fid ?v else Some (Inr ?v))"
    by (subst cat_loop.simps) (simp only: t(1) r sum.case prod.case Let_def)
  ultimately show ?thesis by blast
qed

lemma take_drop_min: "take n (drop pos data) @ drop (pos + min n (length data - pos)) data = drop pos data"
  by (metis append_take_drop_id drop_drop add.commute take_all_iff length_drop min_def nle_le)

lemma cat_loop_shows:
  fixes s :: "'a kernel_state_scheme"
  assumes env: "env_ok env" and clean: "0 \<notin> set data" "0x25 \<notin> set data"
  shows "vfs_at es fid (buffer_array fr) 512 s data pos \<Longrightarrow> term_ready (screen s) \<Longrightarrow> pos \<le> length data \<Longrightarrow>
    \<exists>t W. cat_loop env fr fid s = Some (Inr t) \<and> vfs_at es fid (buffer_array fr) 512 t data (length data) \<and>
      term_ready (screen t) \<and> term_writes (screen t) = term_writes (screen s) @ W \<and> concat W = drop pos data"
proof (induction "length data - pos" arbitrary: s pos rule: less_induct)
  case less
  let ?k = "min 511 (length data - pos)"
  obtain t where t: "vfs_at es fid (buffer_array fr) 512 t data (pos + ?k)" "term_ready (screen t)"
    "term_writes (screen t) = term_writes (screen s) @ [take 511 (drop pos data)]"
    "cat_loop env fr fid s = (if ?k \<noteq> 0 then cat_loop env fr fid t else Some (Inr t))"
    using cat_round [OF env less.prems(1) clean less.prems(2)] by blast
  show ?case
  proof (cases "?k = 0")
    case True
    then have "pos = length data" using less.prems(3) by simp
    then show ?thesis using t True by (intro exI [of _ t] exI [of _ "[take 511 (drop pos data)]"]) simp
  next
    case False
    then have "length data - (pos + ?k) < length data - pos" "pos + ?k \<le> length data" using less.prems(3) by auto
    from less.hyps [OF this(1) t(1,2) this(2)] obtain u W where u: "cat_loop env fr fid t = Some (Inr u)"
      "vfs_at es fid (buffer_array fr) 512 u data (length data)" "term_ready (screen u)"
      "term_writes (screen u) = term_writes (screen t) @ W" "concat W = drop (pos + ?k) data" by blast
    have "take 511 (drop pos data) @ drop (pos + ?k) data = drop pos data" by (rule take_drop_min)
    then show ?thesis using t(3,4) u False by (intro exI [of _ u] exI [of _ "take 511 (drop pos data) # W"]) simp
  qed
qed

lemma print_bytes:
  fixes s :: "'a kernel_state_scheme"
  assumes "term_ready (screen s)" and "\<And>i. i < n \<Longrightarrow> mem s (buffer_array fr + of_nat i) \<noteq> 0"
  shows "foldE (print_byte fr) [0..<n] s = Inr (s\<lparr>screen := (screen s)\<lparr>term_writes := term_writes (screen s) @
     map (\<lambda>i. [mem s (buffer_array fr + of_nat i)]) [0..<n]\<rparr>\<rparr>)"
  using assms
proof (induction n)
  case (Suc n)
  then show ?case by (simp add: foldE_append print_byte_def print_char)
qed simp

lemma read_file_shows:
  fixes s :: "'a kernel_state_scheme"
  assumes env: "env_ok env" and clean: "0 \<notin> set data"
  shows "vfs_at es fid (buffer_array fr) 512 s data pos \<Longrightarrow> term_ready (screen s) \<Longrightarrow> pos \<le> length data \<Longrightarrow>
    \<exists>t. read_file_loop env fr fid s = Some (Inr t) \<and> term_writes (screen t) = term_writes (screen s) @ map (\<lambda>c. [c]) (drop pos data)"
proof (induction "length data - pos" arbitrary: s pos rule: less_induct)
  case less
  let ?b = "buffer_array fr" and ?k = "min 50 (length data - pos)"
  obtain t where t: "sys env 3 (scast fid) ?b 50 0 s = Inr (of_nat ?k, t)" "vfs_at es fid ?b 512 t data (pos + ?k)"
    "buffer_bytes ?b t ?k = take 50 (drop pos data)" "term_writes (screen t) = term_writes (screen s)"
    "term_ready (screen t) = term_ready (screen s)"
    using read_call [OF env less.prems(1), of 50 0] by auto
  define n where "n = (ucast (of_nat ?k :: u64) :: u32)"
  have n: "unat n = ?k" by (simp add: n_def unsigned_ucast_eq take_bit_nat_eq_self)
  then have "sint n = int ?k" by (simp add: sint_uint uint_nat signed_take_bit_int_eq_self)
  then have pos: "0 <s n \<longleftrightarrow> ?k \<noteq> 0" by (auto simp: word_sless_alt)
  show ?case
  proof (cases "?k = 0")
    case True
    then have z: "(0 <s n) = False" using pos by simp
    have "read_file_loop env fr fid s = Some (Inr t)"
      by (subst read_file_loop.simps) (simp only: t(1) n_def [symmetric] z sum.case prod.case Let_def if_False)
    then show ?thesis using True t(4) less.prems(3) by simp
  next
    case False
    have b: "map (\<lambda>i. [mem t (?b + of_nat i)]) [0..<?k] = map (\<lambda>c. [c]) (take 50 (drop pos data))"
      unfolding t(3) [symmetric] by (simp add: buffer_bytes_def)
    have "mem t (?b + of_nat i) \<in> set data" if "i < ?k" for i
    proof -
      have "mem t (?b + of_nat i) \<in> set (buffer_bytes ?b t ?k)" using that by (simp add: buffer_bytes_def)
      then show ?thesis unfolding t(3) by (auto dest: in_set_takeD in_set_dropD)
    qed
    then have "mem t (?b + of_nat i) \<noteq> 0" if "i < ?k" for i using that clean by metis
    then have p: "foldE (print_byte fr) [0..<unat n] t = Inr (t\<lparr>screen := (screen t)\<lparr>term_writes := term_writes (screen t) @
        map (\<lambda>c. [c]) (take 50 (drop pos data))\<rparr>\<rparr>)" (is "_ = Inr ?u")
      unfolding n b [symmetric] using less.prems(2) t(5) by (intro print_bytes) simp_all
    have "vfs_at es fid ?b 512 ?u data (pos + ?k)" by (rule vfs_at_keep [OF t(2)]) simp_all
    moreover have "length data - (pos + ?k) < length data - pos" "pos + ?k \<le> length data" "term_ready (screen ?u)"
      using less.prems False t(5) by auto
    ultimately obtain v where v: "read_file_loop env fr fid ?u = Some (Inr v)"
      "term_writes (screen v) = term_writes (screen ?u) @ map (\<lambda>c. [c]) (drop (pos + ?k) data)"
      using less.hyps by blast
    have z: "(0 <s n) = True" using pos False by simp
    have "read_file_loop env fr fid s = Some (Inr v)"
      by (subst read_file_loop.simps) (simp only: t(1) n_def [symmetric] p z v(1) sum.case prod.case Let_def if_True)
    moreover have "take 50 (drop pos data) @ drop (pos + ?k) data = drop pos data" by (rule take_drop_min)
    then have "map (\<lambda>c. [c]) (take 50 (drop pos data)) @ map (\<lambda>c. [c]) (drop (pos + ?k) data) = map (\<lambda>c. [c]) (drop pos data)"
      by (metis map_append)
    ultimately show ?thesis using v(2) t(4) by simp
  qed
qed

subsection \<open>Properties\<close>

text \<open>
  C17. \<open>cat\<close> shows the file: with a file open whose bytes are neither zero nor a percent sign, its
  loop of reads and prints through the system calls ends, and what it has written to the terminal
  is the rest of the file, all of it and in order.
\<close>

theorem cat_shows_file:
  fixes s :: "'a kernel_state_scheme"
  assumes "env_ok env" and "vfs_at es fid (buffer_array fr) 512 s data pos" and "term_ready (screen s)"
    and "0 \<notin> set data" and "of_char CHR ''%'' \<notin> set data" and "pos \<le> length data"
  shows "\<exists>t W. cat_loop env fr fid s = Some (Inr t) \<and> vfs_at es fid (buffer_array fr) 512 t data (length data) \<and>
    term_writes (screen t) = term_writes (screen s) @ W \<and> concat W = drop pos data"
  using cat_loop_shows [OF assms(1,4) _ assms(2,3,6)] assms(5) by auto

definition kernel_demo :: "ustar_state \<Rightarrow> kernel_state" where
  "kernel_demo s = (vfs_state.extend (vfs_demo s (file_demo 2)) (kernel_state.fields 0 0 1 False 0
     \<lparr>key_shift = 0, key_caps_lock = 0, keyboard_buffer = 0, keyboard_has_char = False, keyboard_lock = 0, keyboard_ports = []\<rparr>))
   \<lparr>screen := console_demo\<rparr>"

definition frame_demo :: program_frame where
  "frame_demo = \<lparr>path_array = 0x2000, char_array = 0x2400, buffer_array = 0x1000, erase_text = 0x2500, newline_text = 0x2508,
     failure_text = 0x2510\<rparr>"

definition env_demo :: "kernel_state user_env" where
  "env_demo = \<lparr>syscalls = map Some (services locals_demo 0) @ replicate 24 None, registers = zero_context, entry_frame = 0x7000\<rparr>"

lemma env_demo_ok: "env_ok env_demo"
  unfolding env_ok_def env_demo_def using syscall_init_table [of locals_demo 0] by auto

lemma kernel_demo_at: "\<exists>s :: kernel_state. vfs_at archive_demo 0 0x1000 512 s [0x2F, 0x61] 0 \<and> screen s = console_demo"
proof -
  obtain s :: ustar_state where s: "fs_ok archive_demo s" "file_open archive_demo s 0 [0x2F, 0x61]"
    "archive_area (tar_fs_start_address s) archive_demo \<subseteq> {x. 0xffff800000000000 \<le> x}"
    using archive_demo_open unfolding ustar_inv_def by blast
  have "vfs_at archive_demo 0 0x1000 512 (kernel_demo s) [0x2F, 0x61] 0"
    by (rule vfs_at_keep [OF vfs_demo_at [OF s]]) (simp_all add: kernel_demo_def vfs_state.defs kernel_state.defs)
  moreover have "screen (kernel_demo s) = console_demo" by (simp add: kernel_demo_def)
  ultimately show ?thesis by blast
qed

theorem cat_shows_file_witness:
  "\<exists>(s :: kernel_state) t W. cat_loop env_demo frame_demo 0 s = Some (Inr t) \<and> term_writes (screen t) = W \<and> concat W = [0x2F, 0x61]"
proof -
  obtain s :: kernel_state where s: "vfs_at archive_demo 0 0x1000 512 s [0x2F, 0x61] 0" "screen s = console_demo"
    using kernel_demo_at by blast
  then show ?thesis using cat_shows_file [OF env_demo_ok, of archive_demo 0 frame_demo s "[0x2F, 0x61]" 0]
    by (auto simp: frame_demo_def console_demo_def)
qed

text \<open>
  The demonstration process that reads a file ends as well: its loop of 50-byte reads shows every
  byte of a file without zero bytes, each as one write to the terminal, percent signs included.
\<close>

theorem read_file_shows_bytes:
  fixes s :: "'a kernel_state_scheme"
  assumes "env_ok env" and "vfs_at es fid (buffer_array fr) 512 s data pos" and "term_ready (screen s)"
    and "0 \<notin> set data" and "pos \<le> length data"
  shows "\<exists>t. read_file_loop env fr fid s = Some (Inr t) \<and>
    term_writes (screen t) = term_writes (screen s) @ map (\<lambda>c. [c]) (drop pos data)"
  using read_file_shows [OF assms(1,4,2,3,5)] .

theorem read_file_shows_bytes_witness:
  "\<exists>(s :: kernel_state) t. read_file_loop env_demo frame_demo 0 s = Some (Inr t) \<and> term_writes (screen t) = [[0x2F], [0x61]]"
proof -
  obtain s :: kernel_state where s: "vfs_at archive_demo 0 0x1000 512 s [0x2F, 0x61] 0" "screen s = console_demo"
    using kernel_demo_at by blast
  then show ?thesis using read_file_shows_bytes [OF env_demo_ok, of archive_demo 0 frame_demo s "[0x2F, 0x61]" 0]
    by (auto simp: frame_demo_def console_demo_def)
qed

end
