(* ===== verification/Snake.thy ===== *)
theory Snake
  imports Gol
begin

text \<open>
  The snake game, \<open>programs/snake/snake.c\<close>. The 16-bit signed positions are integers; \<open>i16\<close> is the
  conversion at an assignment. The multiplication of the random number generator exceeds an
  \<open>int\<close>; it is taken modulo \<open>2 ^ 32\<close>, as the machine computes it. Reading or writing outside the
  board of 2800 cells or the array of the snake's positions is a \<open>Fault\<close>.

  The reference is a snake as the list of its positions from tail to head, and the board that
  shows it.
\<close>

subsection \<open>Definitions\<close>

datatype snake_dir = Up | Down | Right | Left | Stop

definition Empty_cell :: u8 where "Empty_cell = 0"
definition Block_cell :: u8 where "Block_cell = 1"
definition Snake_Body :: u8 where "Snake_Body = 2"
definition Snake_Head :: u8 where "Snake_Head = 3"
definition Fruit_cell :: u8 where "Fruit_cell = 4"

definition SNAKE_WIDTH :: int where "SNAKE_WIDTH = 70"
definition SNAKE_HEIGHT :: int where "SNAKE_HEIGHT = 40"
definition SNAKE_MAX_SIZE :: nat where "SNAKE_MAX_SIZE = 2800"

definition i16 :: "int \<Rightarrow> int" where
  "i16 x = signed_take_bit 15 x"

definition get_at :: "'a list \<Rightarrow> int \<Rightarrow> 'a result" where
  "get_at xs i = (if 0 \<le> i \<and> i < int (length xs) then Inr (xs ! nat i) else Inl Fault)"

definition put_at :: "'a list \<Rightarrow> int \<Rightarrow> 'a \<Rightarrow> 'a list result" where
  "put_at xs i v = (if 0 \<le> i \<and> i < int (length xs) then Inr (xs[nat i := v]) else Inl Fault)"

definition snake_rand :: "int \<Rightarrow> int \<Rightarrow> u16 \<Rightarrow> int \<times> u16" where
  "snake_rand lo hi seed =
     (let seed = ucast ((ucast seed * 1103515245 + 12345 :: u32) AND 0x7fffffff)
      in (i16 (lo + uint seed smod (hi - lo + 1)), seed))"

definition snake_new_fruit_pos :: "u16 \<Rightarrow> int \<times> u16" where
  "snake_new_fruit_pos seed =
     (let (i, seed) = snake_rand 1 (SNAKE_HEIGHT - 1) seed;
          (j, seed) = snake_rand 1 (SNAKE_WIDTH - 1) seed
      in (i16 (i * SNAKE_WIDTH + j), seed))"

definition snake_init_cells :: "u8 list \<Rightarrow> u8 list" where
  "snake_init_cells cells =
     (let cells = fold (\<lambda>i cells. cells[i := Empty_cell]) [0..<SNAKE_MAX_SIZE] cells;
          cells = cells[SNAKE_MAX_SIZE div 2 - 10 := Snake_Head]
      in cells[1010 := Fruit_cell])"

definition snake_init_snake :: "int list \<Rightarrow> int list" where
  "snake_init_snake snake =
     (let snake = fold (\<lambda>i snake. snake[i := 0]) [0..<SNAKE_MAX_SIZE] snake
      in snake[0 := int (SNAKE_MAX_SIZE div 2 - 10)])"

record snake_game =
  snake_cells :: "u8 list"
  snake_positions :: "int list"
  snake_direction :: snake_dir
  snake_state :: u8
  snake_head :: int
  snake_fruit :: int
  snake_seed :: u16

definition snake_restart :: "snake_game \<Rightarrow> snake_game" where
  "snake_restart g = g\<lparr>snake_state := 0, snake_positions := snake_init_snake (snake_positions g),
     snake_cells := snake_init_cells (snake_cells g), snake_head := 0, snake_direction := Stop, snake_fruit := 1010\<rparr>"

subsection \<open>Moving\<close>

function row_loop :: "int \<Rightarrow> int \<Rightarrow> int \<times> int" where
  "row_loop h i = (if h > 0 then row_loop (h - 70) (i + 1) else (h, i))"
  by pat_completeness auto
termination
  by (relation "measure (\<lambda>(h, i). nat h)") auto

declare row_loop.simps [simp del]

definition snake_cal_next :: "int list \<Rightarrow> int \<Rightarrow> snake_dir \<Rightarrow> int result" where
  "snake_cal_next snake head direction =
     bindE (get_at snake head) (\<lambda>h.
     let (h, i) = row_loop h 0; i = i - 1; j = h + SNAKE_WIDTH
     in case direction of
          Left \<Rightarrow> let j = (if j - 1 < 0 then SNAKE_WIDTH else j) in Inr (i16 (i * SNAKE_WIDTH + j - 1))
        | Right \<Rightarrow> let j = (if j + 1 > SNAKE_WIDTH then 0 else j) in Inr (i16 (i * SNAKE_WIDTH + j + 1))
        | Up \<Rightarrow> let i = (if i - 1 < 0 then SNAKE_HEIGHT else i) in Inr (i16 ((i - 1) * SNAKE_WIDTH + j))
        | Down \<Rightarrow> let i = (if i + 1 > SNAKE_HEIGHT then 0 else i) in Inr (i16 ((i + 1) * SNAKE_WIDTH + j))
        | Stop \<Rightarrow> Inr 0)"

text \<open>The step: eat and grow, or move every position one place on.\<close>

definition snake_advance :: "int \<Rightarrow> u8 \<Rightarrow> snake_game \<Rightarrow> snake_game result" where
  "snake_advance next_cell c g =
     (if c = Fruit_cell then
        let (fruit, seed) = snake_new_fruit_pos (snake_seed g);
            g = g\<lparr>snake_fruit := fruit, snake_seed := seed, snake_head := i16 (snake_head g + 1)\<rparr>
        in bindE (put_at (snake_positions g) (snake_head g) next_cell) (\<lambda>ps. Inr (g\<lparr>snake_positions := ps\<rparr>))
      else
        bindE (foldE (\<lambda>h ps. bindE (get_at ps (int h + 1)) (put_at ps (int h))) [0..<nat (snake_head g)] (snake_positions g)) (\<lambda>ps.
        bindE (put_at ps (snake_head g) next_cell) (\<lambda>ps. Inr (g\<lparr>snake_positions := ps\<rparr>))))"

definition snake_show :: "snake_game \<Rightarrow> snake_game result" where
  "snake_show g =
     (let cells = fold (\<lambda>i cells. cells[i := Empty_cell]) [0..<SNAKE_MAX_SIZE] (snake_cells g) in
      bindE (foldE (\<lambda>i cells. bindE (get_at (snake_positions g) (int i)) (\<lambda>index. put_at cells index Snake_Body))
               [0..<nat (snake_head g)] cells) (\<lambda>cells.
      bindE (get_at (snake_positions g) (snake_head g)) (\<lambda>index.
      bindE (put_at cells index Snake_Head) (\<lambda>cells.
      bindE (put_at cells (snake_fruit g) Fruit_cell) (\<lambda>cells.
      Inr (g\<lparr>snake_cells := cells\<rparr>))))))"

definition snake_update :: "snake_game \<Rightarrow> snake_game result" where
  "snake_update g =
     bindE (snake_cal_next (snake_positions g) (snake_head g) (snake_direction g)) (\<lambda>next_cell.
     bindE (get_at (snake_cells g) next_cell) (\<lambda>c.
     bindE (if c = Snake_Body \<or> c = Block_cell then Inr (snake_restart g) else snake_advance next_cell c g) snake_show))"

subsection \<open>Drawing and keys\<close>

definition snake_char :: "u8 list \<Rightarrow> nat \<Rightarrow> nat \<Rightarrow> u8 \<Rightarrow> u8" where
  "snake_char cells i j old =
     (if i = 0 \<or> i = 39 \<or> j = 0 \<or> j = 69 then of_char CHR ''*''
      else
        let c = cells ! (i * 70 + j) in
        if c = Empty_cell then of_char CHR '' ''
        else if c = Block_cell then of_char CHR ''#''
        else if c = Snake_Head then of_char CHR ''@''
        else if c = Snake_Body then of_char CHR ''*''
        else if c = Fruit_cell then of_char CHR ''$''
        else old)"

definition snake_draw_line ::
  "u8 list \<Rightarrow> nat \<Rightarrow> u8 list \<times> 'a proc_state_scheme \<Rightarrow> (u8 list \<times> 'a proc_state_scheme) result" where
  "snake_draw_line cells i = (\<lambda>(line, s).
     let line = fold (\<lambda>j line. line[j := snake_char cells i j (line ! j)]) [0..<70] line
     in bindE (print_text (list_cstr line) [] s) (\<lambda>s. Inr (line, s)))"

definition snake_draw :: "u8 list \<Rightarrow> 'a proc_state_scheme \<Rightarrow> 'a proc_state_scheme result" where
  "snake_draw cells s =
     (let line = replicate 72 0;
          line = line[71 := 0];
          line = line[70 := 0x0A]
      in bindE (foldE (snake_draw_line cells) [0..<40] (line, s)) (\<lambda>(line, s). Inr s))"

definition snake_key :: "u8 \<Rightarrow> snake_game \<Rightarrow> snake_game" where
  "snake_key key g =
     (if key = of_char CHR ''w'' then if snake_direction g \<noteq> Down then g\<lparr>snake_direction := Up\<rparr> else g
      else if key = of_char CHR ''s'' then if snake_direction g \<noteq> Up then g\<lparr>snake_direction := Down\<rparr> else g
      else if key = of_char CHR ''a'' then if snake_direction g \<noteq> Right then g\<lparr>snake_direction := Left\<rparr> else g
      else if key = of_char CHR ''d'' then if snake_direction g \<noteq> Left then g\<lparr>snake_direction := Right\<rparr> else g
      else if key = of_char CHR ''f'' then
        if snake_state g = 0 then g\<lparr>snake_state := 1, snake_direction := Up\<rparr>
        else if snake_state g = 1 then snake_restart g
        else g
      else if key = of_char CHR ''q'' then g\<lparr>snake_state := 2\<rparr>
      else g)"

definition snake_key_handler :: "snake_game \<Rightarrow> 'a kernel_state_scheme \<Rightarrow> (snake_game \<times> 'a kernel_state_scheme) result" where
  "snake_key_handler g s = bindE (read_key s) (\<lambda>(key, s). Inr (snake_key key g, s))"

subsection \<open>The game loop\<close>

definition snake_round ::
  "kernel_image \<Rightarrow> u64 \<times> snake_game \<times> 'a kernel_state_scheme \<Rightarrow> (bool \<times> u64 \<times> snake_game \<times> 'a kernel_state_scheme) result" where
  "snake_round im = (\<lambda>(delta_time, g, s).
     if timer_get_uptime s - delta_time < 70 then Inr (False, delta_time, g, s)
     else
       let delta_time = timer_get_uptime s in
       bindE (prompt_clear im s) (\<lambda>s.
       bindE (snake_key_handler g s) (\<lambda>(g, s).
       if snake_state g = 2 then Inr (True, delta_time, g, s)
       else
         bindE (if snake_state g = 1 then snake_update g else Inr g) (\<lambda>g.
         bindE (snake_draw (snake_cells g) s) (\<lambda>s. Inr (False, delta_time, g, s))))))"

text \<open>The seed is static: it keeps its value from one game to the next, and \<open>seed\<close> is that value.\<close>

definition snake_start :: "u16 \<Rightarrow> snake_game" where
  "snake_start seed = \<lparr>snake_cells = (snake_init_cells (replicate SNAKE_MAX_SIZE 0))[1010 := Fruit_cell],
     snake_positions = snake_init_snake (replicate SNAKE_MAX_SIZE 0), snake_direction = Up, snake_state = 0, snake_head = 0,
     snake_fruit = 1010, snake_seed = seed\<rparr>"

definition snake_game_loop ::
  "kernel_image \<Rightarrow> u16 \<Rightarrow> ('a kernel_state_scheme \<Rightarrow> 'a kernel_state_scheme) list \<Rightarrow>
   ('a kernel_state_scheme \<Rightarrow> 'a kernel_state_scheme) list \<Rightarrow> 'a kernel_state_scheme \<Rightarrow> (bool \<times> 'a kernel_state_scheme) result" where
  "snake_game_loop im seed waits events s =
     bindE (rounds wait_stdin waits s) (\<lambda>(locked, s).
     if \<not> locked then Inr (False, s)
     else
       bindE (log_line (prod_mode im) (serial_device im) ''Snake Started'' '''' s) (\<lambda>s.
       bindE (rounds (snake_round im) (map (\<lambda>e (d, g, s). (d, g, e s)) events) (timer_get_uptime s, snake_start seed, s))
         (\<lambda>(left, d, g, s).
       if left then bindE (prompt_unlockstdin_syscall 0 s) (\<lambda>(r, s). Inr (True, s)) else Inr (False, s))))"

subsection \<open>Positions\<close>

text \<open>The position after a step, from the number of the head's cell.\<close>

definition next_position :: "snake_dir \<Rightarrow> int \<Rightarrow> int" where
  "next_position d p =
     (case d of
        Left \<Rightarrow> p - 1
      | Right \<Rightarrow> if p mod 70 = 0 then p - 69 else p + 1
      | Up \<Rightarrow> if p = 0 then 2800 else if p \<le> 70 then p + 2730 else p - 70
      | Down \<Rightarrow> p + 70
      | Stop \<Rightarrow> 0)"

definition on_board :: "int \<Rightarrow> bool" where
  "on_board p \<longleftrightarrow> 0 \<le> p \<and> p < 2800"

lemma i16_small: "- 32768 \<le> x \<Longrightarrow> x < 32768 \<Longrightarrow> i16 x = x"
  by (simp add: i16_def signed_take_bit_int_eq_self)

lemma row_loop_eq: "- 70 < h \<Longrightarrow> row_loop h i = (h - 70 * ((h + 69) div 70), i + (h + 69) div 70)"
proof (induction h i rule: row_loop.induct)
  case (1 h i)
  show ?case
  proof (cases "h > 0")
    case True
    have "(h - 70 + 69) div 70 = (h + 69) div 70 - 1" using div_add_self2 [of 70 "h - 1"] by (simp add: algebra_simps)
    then show ?thesis using "1.IH" [OF True] True by (simp add: row_loop.simps [of h i] algebra_simps)
  next
    case False
    then have "(h + 69) div 70 = 0" using "1.prems" by (simp add: div_pos_pos_trivial)
    then show ?thesis using False by (simp add: row_loop.simps [of h i])
  qed
qed

lemma cal_next_eq:
  assumes "get_at snake head = Inr p" and p: "on_board p"
  shows "snake_cal_next snake head d = Inr (next_position d p)"
proof -
  define c where "c = (p + 69) div 70"
  have c: "70 * c \<le> p + 69" "p < 70 * c + 1" unfolding c_def by linarith+
  have b: "0 \<le> c" "c \<le> 40" "0 \<le> p" "p < 2800" using c p by (auto simp: on_board_def)
  have row: "row_loop p 0 = (p - 70 * c, c)" using row_loop_eq [of p 0] b by (simp add: c_def)
  have m: "p mod 70 = 0 \<longleftrightarrow> p = 70 * c" using c by presburger
  have "p \<noteq> 0 \<Longrightarrow> p \<le> 70 \<Longrightarrow> c = 1" "p = 0 \<Longrightarrow> c = 0" "70 < p \<Longrightarrow> 1 < c" using c b by linarith+
  then show ?thesis
    using c b m by (cases d) (auto simp: snake_cal_next_def assms(1) row next_position_def SNAKE_WIDTH_def SNAKE_HEIGHT_def i16_small)
qed

lemma right_on_board: "on_board p \<Longrightarrow> on_board (next_position Right p) \<longleftrightarrow> p \<noteq> 0 \<and> p \<noteq> 2799"
proof -
  assume "on_board p"
  moreover have "2799 mod 70 \<noteq> (0 :: int)" by simp
  moreover have "p mod 70 = 0 \<Longrightarrow> p \<noteq> 0 \<Longrightarrow> 0 \<le> p \<Longrightarrow> 70 \<le> p" by presburger
  ultimately show ?thesis by (cases "p = 2799") (auto simp: on_board_def next_position_def)
qed

lemma next_on_board:
  "on_board p \<Longrightarrow> on_board (next_position d p) \<longleftrightarrow>
     \<not> (d = Left \<and> p = 0 \<or> d = Right \<and> (p = 0 \<or> p = 2799) \<or> d = Up \<and> (p = 0 \<or> p = 70) \<or> d = Down \<and> 2730 \<le> p)"
  using right_on_board [of p] by (cases d) (auto simp: on_board_def next_position_def)

lemma smod_range: "0 \<le> a \<Longrightarrow> 0 < (b :: int) \<Longrightarrow> 0 \<le> a smod b \<and> a smod b < b"
  by (auto simp: signed_modulo_int_def sgn_if)

lemma snake_rand_range:
  assumes "0 \<le> lo" and "lo \<le> hi" and "hi < 1000"
  shows "lo \<le> fst (snake_rand lo hi seed)" and "fst (snake_rand lo hi seed) \<le> hi"
proof -
  obtain r where r: "fst (snake_rand lo hi seed) = i16 (lo + r)" "0 \<le> r" "r < hi - lo + 1"
    using smod_range [of "uint (ucast ((ucast seed * 1103515245 + 12345 :: u32) AND 0x7fffffff) :: u16)" "hi - lo + 1"] assms
    by (auto simp: snake_rand_def Let_def)
  then show "lo \<le> fst (snake_rand lo hi seed)" "fst (snake_rand lo hi seed) \<le> hi" using assms by (simp_all add: i16_small)
qed

lemma fruit_range: "71 \<le> fst (snake_new_fruit_pos seed) \<and> fst (snake_new_fruit_pos seed) \<le> 2799"
proof -
  obtain i t where i: "snake_rand 1 39 seed = (i, t)" by (cases "snake_rand 1 39 seed")
  obtain j u where j: "snake_rand 1 69 t = (j, u)" by (cases "snake_rand 1 69 t")
  have "1 \<le> i" "i \<le> 39" "1 \<le> j" "j \<le> 69"
    using snake_rand_range [of 1 39 seed] snake_rand_range [of 1 69 t] i j by simp_all
  then show ?thesis by (simp add: snake_new_fruit_pos_def i j SNAKE_HEIGHT_def SNAKE_WIDTH_def i16_small)
qed

subsection \<open>The snake as a list of positions\<close>

definition snake_body :: "snake_game \<Rightarrow> int list" where
  "snake_body g = take (Suc (nat (snake_head g))) (snake_positions g)"

definition snake_board :: "int list \<Rightarrow> int \<Rightarrow> u8 list" where
  "snake_board body fruit =
     map (\<lambda>k. if int k = fruit then Fruit_cell else if int k = last body then Snake_Head
              else if int k \<in> set body then Snake_Body else Empty_cell) [0..<2800]"

definition snake_ok :: "snake_game \<Rightarrow> bool" where
  "snake_ok g \<longleftrightarrow> length (snake_positions g) = 2800 \<and> 0 \<le> snake_head g \<and> snake_head g < 2800 \<and>
     list_all on_board (snake_body g) \<and> on_board (snake_fruit g) \<and> length (snake_cells g) = 2800"

lemma get_at_Inr: "0 \<le> i \<Longrightarrow> i < int (length xs) \<Longrightarrow> get_at xs i = Inr (xs ! nat i)"
  by (simp add: get_at_def)

lemma put_at_Inr: "0 \<le> i \<Longrightarrow> i < int (length xs) \<Longrightarrow> put_at xs i v = Inr (xs[nat i := v])"
  by (simp add: put_at_def)

lemma fold_fill: "n \<le> length xs \<Longrightarrow> fold (\<lambda>i xs. xs[i := v]) [0..<n] xs = replicate n v @ drop n xs"
proof (induction n)
  case (Suc n)
  then show ?case by (simp add: list_update_append Cons_nth_drop_Suc [symmetric] replicate_append_same [symmetric])
qed simp

lemma fold_fill_all: "length xs = n \<Longrightarrow> fold (\<lambda>i xs. xs[i := v]) [0..<n] xs = replicate n v"
  by (simp add: fold_fill)

lemma shift_loop:
  "n < length ps \<Longrightarrow> foldE (\<lambda>h ps. bindE (get_at ps (int h + 1)) (put_at ps (int h))) [0..<n] ps =
     Inr (take n (tl ps) @ drop n ps)"
proof (induction n)
  case (Suc n)
  have "nat (int n + 1) = Suc n" by simp
  moreover have "(take n (tl ps) @ drop n ps) ! Suc n = ps ! Suc n"
    using Suc.prems by (simp add: nth_append)
  moreover have "(take n (tl ps) @ drop n ps)[n := ps ! Suc n] = take (Suc n) (tl ps) @ drop (Suc n) ps"
    using Suc.prems by (simp add: list_update_append Cons_nth_drop_Suc [symmetric] take_Suc_conv_app_nth nth_tl)
  ultimately show ?case using Suc by (simp add: foldE_append get_at_Inr put_at_Inr)
qed simp

lemma body_loop:
  "n \<le> length ps \<Longrightarrow> list_all on_board (take n ps) \<Longrightarrow> length cells = 2800 \<Longrightarrow>
   foldE (\<lambda>i cells. bindE (get_at ps (int i)) (\<lambda>index. put_at cells index v)) [0..<n] cells =
     Inr (map (\<lambda>k. if int k \<in> set (take n ps) then v else cells ! k) [0..<2800])"
proof (induction n)
  case 0
  then show ?case using map_nth [of cells] by simp
next
  case (Suc n)
  have t: "take (Suc n) ps = take n ps @ [ps ! n]" using Suc.prems by (simp add: take_Suc_conv_app_nth)
  then have "on_board (ps ! n)" using Suc.prems by simp
  then show ?case
    using Suc t by (auto simp: foldE_append get_at_Inr put_at_Inr on_board_def intro!: nth_equalityI simp: nth_list_update)
qed

lemma snake_show_eq:
  assumes "snake_ok g"
  shows "snake_show g = Inr (g\<lparr>snake_cells := snake_board (snake_body g) (snake_fruit g)\<rparr>)"
proof -
  define n where "n = nat (snake_head g)"
  define ps where "ps = snake_positions g"
  have n: "n < length ps" "snake_head g = int n" using assms by (auto simp: snake_ok_def n_def ps_def)
  have t: "snake_body g = take n ps @ [ps ! n]"
    using n by (simp add: snake_body_def take_Suc_conv_app_nth ps_def)
  have b: "on_board (ps ! n)" "list_all on_board (take n ps)" using assms t by (simp_all add: snake_ok_def)
  have f: "on_board (snake_fruit g)" "length (snake_cells g) = SNAKE_MAX_SIZE"
    using assms by (simp_all add: snake_ok_def SNAKE_MAX_SIZE_def)
  have fill: "fold (\<lambda>i xs. xs[i := Empty_cell]) [0..<SNAKE_MAX_SIZE] (snake_cells g) = replicate 2800 Empty_cell"
    using fold_fill_all [OF f(2)] by (simp add: SNAKE_MAX_SIZE_def)
  define cs where "cs = map (\<lambda>k. if int k \<in> set (take n ps) then Snake_Body else replicate 2800 Empty_cell ! k) [0..<2800]"
  have loop: "foldE (\<lambda>i cells. bindE (get_at ps (int i)) (\<lambda>index. put_at cells index Snake_Body)) [0..<n]
     (replicate 2800 Empty_cell) = Inr cs"
    unfolding cs_def by (rule body_loop) (use n b in simp_all)
  have "cs[nat (ps ! n) := Snake_Head, nat (snake_fruit g) := Fruit_cell] = snake_board (snake_body g) (snake_fruit g)"
    using b f by (auto simp: snake_board_def t cs_def on_board_def nth_list_update intro!: nth_equalityI)
  moreover have "length cs = 2800" by (simp add: cs_def)
  ultimately show ?thesis
    using n b f loop by (simp add: snake_show_def fill ps_def [symmetric] get_at_Inr put_at_Inr on_board_def)
qed

definition snake_drawn :: "snake_game \<Rightarrow> bool" where
  "snake_drawn g \<longleftrightarrow> snake_cells g = snake_board (snake_body g) (snake_fruit g)"

text \<open>One step of the game on the list of positions: biting the body starts again with a snake of one
  cell, a fruit lengthens it, and otherwise the last cell is left behind.\<close>

definition snake_step :: "snake_dir \<Rightarrow> u16 \<Rightarrow> int list \<Rightarrow> int \<Rightarrow> int list \<times> int" where
  "snake_step d seed body fruit =
     (let q = next_position d (last body) in
      if q \<noteq> fruit \<and> q \<noteq> last body \<and> q \<in> set body then ([1390], 1010)
      else if q = fruit then (body @ [q], fst (snake_new_fruit_pos seed))
      else (tl body @ [q], fruit))"

lemma snake_body_last:
  assumes "snake_ok g"
  shows "last (snake_body g) = snake_positions g ! nat (snake_head g)"
    and "on_board (last (snake_body g))" and "snake_body g \<noteq> []"
    and "get_at (snake_positions g) (snake_head g) = Inr (last (snake_body g))"
proof -
  have n: "nat (snake_head g) < length (snake_positions g)" using assms by (auto simp: snake_ok_def)
  then have t: "snake_body g = take (nat (snake_head g)) (snake_positions g) @ [snake_positions g ! nat (snake_head g)]"
    by (simp add: snake_body_def take_Suc_conv_app_nth)
  then show l: "last (snake_body g) = snake_positions g ! nat (snake_head g)" and "snake_body g \<noteq> []" by simp_all
  show "on_board (last (snake_body g))" using assms t by (simp add: snake_ok_def)
  show "get_at (snake_positions g) (snake_head g) = Inr (last (snake_body g))"
    using assms n by (auto simp: snake_ok_def get_at_def l)
qed

lemma board_nth:
  "on_board q \<Longrightarrow> snake_board body fruit ! nat q =
     (if q = fruit then Fruit_cell else if q = last body then Snake_Head else if q \<in> set body then Snake_Body else Empty_cell)"
proof -
  assume "on_board q"
  then have "nat q < length [0..<2800]" "int (nat q) = q" by (auto simp: on_board_def)
  then show ?thesis unfolding snake_board_def by (simp del: int_nat_eq)
qed

lemmas cell_codes = Empty_cell_def Block_cell_def Snake_Body_def Snake_Head_def Fruit_cell_def

lemma restart_ok:
  assumes "snake_ok g"
  shows "snake_ok (snake_restart g)" and "snake_body (snake_restart g) = [1390]" and "snake_fruit (snake_restart g) = 1010"
proof -
  have "snake_init_snake (snake_positions g) = (replicate 2800 0)[0 := 1390]"
    using assms by (simp add: snake_init_snake_def SNAKE_MAX_SIZE_def snake_ok_def fold_fill_all)
  then have p: "snake_init_snake (snake_positions g) = 1390 # replicate 2799 0"
    using replicate_Suc [of 2799 "0 :: int"] by simp
  have c: "length (snake_init_cells (snake_cells g)) = 2800"
    using assms by (simp add: snake_init_cells_def SNAKE_MAX_SIZE_def snake_ok_def fold_fill_all)
  show b: "snake_body (snake_restart g) = [1390]" by (simp add: snake_body_def snake_restart_def p)
  show "snake_fruit (snake_restart g) = 1010" by (simp add: snake_restart_def)
  show "snake_ok (snake_restart g)" using b by (simp add: snake_ok_def snake_restart_def p c on_board_def)
qed

lemma advance_moves:
  assumes "snake_ok g" and "on_board q" and "c \<noteq> Fruit_cell"
  shows "\<exists>g'. snake_advance q c g = Inr g' \<and> snake_ok g' \<and> snake_body g' = tl (snake_body g) @ [q] \<and> snake_fruit g' = snake_fruit g"
proof -
  define n where "n = nat (snake_head g)"
  define ps where "ps = snake_positions g"
  have n: "n < length ps" "snake_head g = int n" using assms by (auto simp: snake_ok_def n_def ps_def)
  define qs where "qs = (take n (tl ps) @ drop n ps)[n := q]"
  have qs: "take (Suc n) qs = take n (tl ps) @ [q]" "length qs = length ps"
    using n by (simp_all add: qs_def list_update_append take_Suc_conv_app_nth Cons_nth_drop_Suc [symmetric])
  have t: "tl (snake_body g) = take n (tl ps)" by (simp add: snake_body_def n(2) ps_def tl_take [symmetric] take_tl)
  have adv: "snake_advance q c g = Inr (g\<lparr>snake_positions := qs\<rparr>)"
    using assms(3) shift_loop [OF n(1)] n by (simp add: snake_advance_def ps_def [symmetric] put_at_Inr qs_def)
  have body: "snake_body (g\<lparr>snake_positions := qs\<rparr>) = tl (snake_body g) @ [q]" using n(2) qs(1) t by (simp add: snake_body_def)
  have "list_all on_board (tl (snake_body g))" using assms(1) snake_body_last(3) [OF assms(1)] by (cases "snake_body g") (auto simp: snake_ok_def)
  then have "snake_ok (g\<lparr>snake_positions := qs\<rparr>)"
    using assms(1,2) qs(2) body by (simp add: snake_ok_def ps_def)
  then show ?thesis using adv body by simp
qed

lemma advance_grows:
  assumes "snake_ok g" and "on_board q" and "snake_head g < 2799"
  shows "\<exists>g'. snake_advance q Fruit_cell g = Inr g' \<and> snake_ok g' \<and> snake_body g' = snake_body g @ [q] \<and>
     snake_fruit g' = fst (snake_new_fruit_pos (snake_seed g))"
proof -
  define n where "n = nat (snake_head g)"
  define ps where "ps = snake_positions g"
  have n: "Suc n < length ps" "snake_head g = int n" using assms by (auto simp: snake_ok_def n_def ps_def)
  obtain f sd where f: "snake_new_fruit_pos (snake_seed g) = (f, sd)" by (cases "snake_new_fruit_pos (snake_seed g)")
  define g' where "g' = g\<lparr>snake_fruit := f, snake_seed := sd, snake_head := int n + 1, snake_positions := ps[Suc n := q]\<rparr>"
  have adv: "snake_advance q Fruit_cell g = Inr g'"
    using n assms(3) by (simp add: snake_advance_def f ps_def [symmetric] put_at_Inr g'_def i16_small Suc_nat_eq_nat_zadd1 nat_add_distrib)
  have body: "snake_body g' = snake_body g @ [q]"
    using n by (simp add: snake_body_def g'_def ps_def [symmetric] nat_add_distrib take_Suc_conv_app_nth)
  have "snake_ok g'"
    using assms body fruit_range [of "snake_seed g"] f n
    by (auto simp: snake_ok_def g'_def ps_def on_board_def)
  then show ?thesis using adv body f by (simp add: g'_def)
qed

lemma update_cell:
  assumes "snake_ok g" and "snake_drawn g" and "q = next_position (snake_direction g) (last (snake_body g))"
  shows "snake_update g =
     (if on_board q then
        bindE (if q \<noteq> snake_fruit g \<and> q \<noteq> last (snake_body g) \<and> q \<in> set (snake_body g) then Inr (snake_restart g)
               else snake_advance q (if q = snake_fruit g then Fruit_cell else snake_cells g ! nat q) g) snake_show
      else Inl Fault)"
proof -
  have len: "length (snake_cells g) = 2800" using assms(1) by (simp add: snake_ok_def)
  have nx: "snake_cal_next (snake_positions g) (snake_head g) (snake_direction g) = Inr q"
    using cal_next_eq snake_body_last(2,4) [OF assms(1)] assms(3) by simp
  show ?thesis
  proof (cases "on_board q")
    case True
    then have "get_at (snake_cells g) q = Inr (snake_cells g ! nat q)" using len by (simp add: get_at_Inr on_board_def)
    moreover have "snake_cells g ! nat q =
      (if q = snake_fruit g then Fruit_cell else if q = last (snake_body g) then Snake_Head
       else if q \<in> set (snake_body g) then Snake_Body else Empty_cell)"
      using assms(2) board_nth [OF True] by (simp add: snake_drawn_def)
    ultimately show ?thesis using True nx by (auto simp: snake_update_def cell_codes)
  next
    case False
    then have "get_at (snake_cells g) q = Inl Fault" using len by (auto simp: get_at_def on_board_def)
    then show ?thesis using False nx by (simp add: snake_update_def)
  qed
qed

lemma update_steps:
  assumes ok: "snake_ok g" and drawn: "snake_drawn g" and room: "snake_head g < 2799"
    and on: "on_board (next_position (snake_direction g) (last (snake_body g)))"
  shows "\<exists>g'. snake_update g = Inr g' \<and> snake_ok g' \<and> snake_drawn g' \<and>
     (snake_body g', snake_fruit g') = snake_step (snake_direction g) (snake_seed g) (snake_body g) (snake_fruit g)"
proof -
  define q where "q = next_position (snake_direction g) (last (snake_body g))"
  let ?bite = "q \<noteq> snake_fruit g \<and> q \<noteq> last (snake_body g) \<and> q \<in> set (snake_body g)"
  have q: "on_board q" using on by (simp add: q_def)
  have c: "q \<noteq> snake_fruit g \<Longrightarrow> snake_cells g ! nat q \<noteq> Fruit_cell"
    using drawn board_nth [OF q] by (simp add: snake_drawn_def cell_codes)
  have "\<exists>h. (if ?bite then Inr (snake_restart g)
             else snake_advance q (if q = snake_fruit g then Fruit_cell else snake_cells g ! nat q) g) = Inr h \<and>
     snake_ok h \<and> (snake_body h, snake_fruit h) = snake_step (snake_direction g) (snake_seed g) (snake_body g) (snake_fruit g)"
    using restart_ok [OF ok] advance_grows [OF ok q room] advance_moves [OF ok q c]
    by (auto simp: snake_step_def q_def [symmetric])
  then obtain h where h: "(if ?bite then Inr (snake_restart g)
             else snake_advance q (if q = snake_fruit g then Fruit_cell else snake_cells g ! nat q) g) = Inr h" "snake_ok h"
     "(snake_body h, snake_fruit h) = snake_step (snake_direction g) (snake_seed g) (snake_body g) (snake_fruit g)" by blast
  let ?g = "h\<lparr>snake_cells := snake_board (snake_body h) (snake_fruit h)\<rparr>"
  have "snake_update g = Inr ?g"
    unfolding update_cell [OF ok drawn q_def] h(1) using q snake_show_eq [OF h(2)] by simp
  moreover have "snake_body ?g = snake_body h" by (simp add: snake_body_def)
  moreover have "length (snake_board (snake_body h) (snake_fruit h)) = 2800" by (simp add: snake_board_def)
  ultimately show ?thesis using h(2,3) by (simp add: snake_ok_def snake_drawn_def)
qed

lemma start_cells:
  "(replicate 2800 Empty_cell)[1390 := Snake_Head, 1010 := Fruit_cell, 1010 := Fruit_cell] = snake_board [1390] 1010"
  unfolding list_eq_iff_nth_eq snake_board_def by (auto simp: nth_list_update)

lemma snake_start_fields:
  "snake_head (snake_start seed) = 0" "snake_direction (snake_start seed) = Up" "snake_fruit (snake_start seed) = 1010"
  by (simp_all add: snake_start_def)

lemma snake_start_ok: "snake_ok (snake_start seed)" "snake_drawn (snake_start seed)" "snake_body (snake_start seed) = [1390]"
proof -
  have p: "snake_init_snake (replicate 2800 0) = 1390 # replicate 2799 0"
    using replicate_Suc [of 2799 "0 :: int"] by (simp add: snake_init_snake_def SNAKE_MAX_SIZE_def fold_fill_all)
  have c: "(snake_init_cells (replicate 2800 0))[1010 := Fruit_cell] = snake_board [1390] 1010"
    by (simp add: snake_init_cells_def SNAKE_MAX_SIZE_def fold_fill_all start_cells del: list_update_overwrite)
  show b: "snake_body (snake_start seed) = [1390]"
    by (simp add: snake_body_def snake_start_def p SNAKE_MAX_SIZE_def)
  show "snake_drawn (snake_start seed)" unfolding snake_drawn_def b by (simp add: snake_start_def SNAKE_MAX_SIZE_def c)
  show "snake_ok (snake_start seed)" unfolding snake_ok_def b
    by (simp add: snake_start_def SNAKE_MAX_SIZE_def p c on_board_def snake_board_def)
qed

subsection \<open>Properties\<close>

text \<open>
  C35. While the next cell is on the board and the snake is not as long as its array,
  \<open>snake_update\<close> refines the game on the list of positions: biting the body starts again, the fruit
  lengthens the snake by the next cell and a new fruit is placed, and otherwise the snake moves by one
  cell. Afterwards every position is on the board, and the board shows exactly the fruit, the head, the
  body and empty cells.
\<close>

theorem snake_update_refines:
  assumes "snake_ok g" and "snake_drawn g" and "snake_head g < 2799"
    and "on_board (next_position (snake_direction g) (last (snake_body g)))"
  shows "\<exists>g'. snake_update g = Inr g' \<and> snake_ok g' \<and> snake_drawn g' \<and>
     (snake_body g', snake_fruit g') = snake_step (snake_direction g) (snake_seed g) (snake_body g) (snake_fruit g)"
  by (rule update_steps [OF assms])

theorem snake_update_refines_witness:
  "\<exists>g'. snake_update (snake_start 0) = Inr g' \<and> snake_ok g' \<and> snake_drawn g' \<and>
     (snake_body g', snake_fruit g') = ([1320], 1010)"
  using snake_update_refines [OF snake_start_ok(1,2) [of 0]]
  by (simp add: snake_start_ok(3) snake_start_fields next_position_def on_board_def snake_step_def)

text \<open>
  C36. The bounds of a step. With the snake on the board, \<open>snake_update\<close> reads outside its array of
  cells exactly when the snake goes left or right from cell 0, right from cell 2799, up from cell 0 or
  70, or down from the last row: the tests of \<open>snake_cal_next\<close> that should wrap the position around
  do not keep it on the board in these cases, and they do in every other one.
\<close>

theorem snake_update_bounds:
  assumes "snake_ok g" and "snake_drawn g" and "snake_head g < 2799" and "p = last (snake_body g)"
  shows "snake_update g = Inl Fault \<longleftrightarrow>
     (case snake_direction g of Left \<Rightarrow> p = 0 | Right \<Rightarrow> p = 0 \<or> p = 2799 | Up \<Rightarrow> p = 0 \<or> p = 70
      | Down \<Rightarrow> 2730 \<le> p | Stop \<Rightarrow> False)"
proof -
  have "snake_update g = Inl Fault \<longleftrightarrow> \<not> on_board (next_position (snake_direction g) p)"
    using update_steps [OF assms(1-3)] update_cell [OF assms(1,2) refl] assms(4) by auto
  then show ?thesis
    using next_on_board [OF snake_body_last(2) [OF assms(1)], folded assms(4)] by (auto split: snake_dir.splits)
qed

theorem snake_update_bounds_witness: "snake_update (snake_start 0) \<noteq> Inl Fault"
  using snake_update_bounds [OF snake_start_ok(1,2) [of 0] _ refl]
  by (simp add: snake_start_ok(3) snake_start_fields)

end
