(* ===== verification/Teardown.thy ===== *)
theory Teardown
  imports Vmm_Space
begin

text \<open>
  \<open>vmm_destroy\<close> of \<open>mm/vmm.c\<close>, which nothing calls. Page-table entries hold physical addresses, and
  \<open>destroy_lvl\<close> uses them as pointers; \<open>seen\<close> is where the processor finds such an address in
  the memory, which the rest of the kernel addresses through the direct map. The parameter
  \<open>lvl_offset\<close> only counts down and is left out. The recursion does not stop below the last level, so
  it need not end.
\<close>

partial_function (option) destroy_from ::
  "(u64 \<Rightarrow> u64) \<Rightarrow> u64 \<Rightarrow> u64 \<Rightarrow> 'a pmm_state_scheme \<Rightarrow> 'a pmm_state_scheme result option" where
  "destroy_from seen lvl i s =
     (if i < 512 then
        let e = load64 (mem s) (seen (lvl + i * 8)) in
        if e AND PTE_PRESENT \<noteq> 0 then
          Option.bind (if PTE_GET_ADDR e = 0 then Some (Inr s) else destroy_from seen (PTE_GET_ADDR e) 0 s) (\<lambda>r.
            case bindE r (\<lambda>s. pmm_free (PTE_GET_ADDR e - get_hhdm s) 1 s) of
              Inl err \<Rightarrow> Some (Inl err)
            | Inr s \<Rightarrow> destroy_from seen lvl (i + 1) s)
        else destroy_from seen lvl (i + 1) s
      else Some (pmm_free (lvl - get_hhdm s) 1 s))"

definition destroy_lvl :: "(u64 \<Rightarrow> u64) \<Rightarrow> u64 \<Rightarrow> 'a pmm_state_scheme \<Rightarrow> 'a pmm_state_scheme result" where
  "destroy_lvl seen lvl s = (if lvl = 0 then Inr s else run_loop (destroy_from seen lvl 0 s))"

definition vmm_destroy :: "(u64 \<Rightarrow> u64) \<Rightarrow> u64 \<Rightarrow> 'a pmm_state_scheme \<Rightarrow> 'a pmm_state_scheme result" where
  "vmm_destroy seen vmm s =
     bindE (destroy_lvl seen (vmm_pml (mem s) vmm) s) (\<lambda>s.
     bindE (pmm_free (vmm_arena (mem s) vmm - get_hhdm s) 1 s) (\<lambda>s.
     pmm_free (vmm - get_hhdm s) 1 s))"

text \<open>A table without present entries is given back as it is.\<close>

lemma destroy_from_empty:
  "(\<And>k. k < 512 \<Longrightarrow> load64 (mem s) (seen (lvl + k * 8)) AND PTE_PRESENT = 0) \<Longrightarrow>
   destroy_from seen lvl i s = Some (pmm_free (lvl - get_hhdm s) 1 s)"
proof (induction "512 - unat i" arbitrary: i)
  case 0
  then have "\<not> i < 512" by (simp add: word_less_nat_alt)
  then show ?case by (subst destroy_from.simps) simp
next
  case (Suc n)
  then have i: "i < 512" by (simp add: word_less_nat_alt)
  then have "unat (i + 1) = Suc (unat i)" by (simp add: unat_word_ariths word_less_nat_alt)
  then have "destroy_from seen lvl (i + 1) s = Some (pmm_free (lvl - get_hhdm s) 1 s)" using Suc by (intro Suc.hyps) simp_all
  then show ?case using i Suc.prems by (subst destroy_from.simps) simp
qed

text \<open>A table whose first entry refers to the table itself is never finished.\<close>

lemma destroy_from_loops:
  fixes s :: "'a pmm_state_scheme"
  assumes "load64 (mem s) (seen lvl) AND PTE_PRESENT \<noteq> 0" and "PTE_GET_ADDR (load64 (mem s) (seen lvl)) = lvl" and "lvl \<noteq> 0"
  shows "destroy_lvl seen lvl s = Inl Hang"
proof -
  have "False" if "destroy_from seen lvl 0 s = Some r" for r
  proof (rule destroy_from.raw_induct [where P = "\<lambda>f l i t r. f = seen \<longrightarrow> l = lvl \<longrightarrow> i = 0 \<longrightarrow> t = s \<longrightarrow> False",
        OF _ that, simplified])
    fix destroy :: "(u64 \<Rightarrow> u64) \<Rightarrow> u64 \<Rightarrow> u64 \<Rightarrow> 'a pmm_state_scheme \<Rightarrow> 'a pmm_state_scheme result option" and f l i t r
    assume IH: "\<And>f l i t r. destroy f l i t = Some r \<Longrightarrow> f = seen \<longrightarrow> l = lvl \<longrightarrow> i = 0 \<longrightarrow> t \<noteq> s"
    show "(if i < 512 then let e = load64 (mem t) (f (l + i * 8)) in
        if e AND PTE_PRESENT \<noteq> 0 then
          Option.bind (if PTE_GET_ADDR e = 0 then Some (Inr t) else destroy f (PTE_GET_ADDR e) 0 t) (\<lambda>r.
            case bindE r (\<lambda>s. pmm_free (PTE_GET_ADDR e - get_hhdm s) 1 s) of
              Inl err \<Rightarrow> Some (Inl err) | Inr s \<Rightarrow> destroy f l (i + 1) s)
        else destroy f l (i + 1) t
      else Some (pmm_free (l - get_hhdm t) 1 t)) = Some r \<Longrightarrow> f = seen \<longrightarrow> l = lvl \<longrightarrow> i = 0 \<longrightarrow> t \<noteq> s"
      using IH [of seen lvl 0 s] assms by (auto simp: Let_def bind_eq_Some_conv)
  qed
  then have "destroy_from seen lvl 0 s = None" by (cases "destroy_from seen lvl 0 s") auto
  then show ?thesis using assms(3) by (simp add: destroy_lvl_def run_loop_def)
qed

end
