(* ===== verification/Framebuffer.thy ===== *)
theory Framebuffer
  imports Prelude
begin

text \<open>
  \<open>draw_line\<close> of \<open>terminal/fb.c\<close>, a test of the boot loader's framebuffer that nothing calls; the boot
  loader's answer is the argument. It draws the diagonal of 100 pixels.
\<close>

record limine_framebuffer =
  fb_address :: u64
  fb_pitch :: u64

definition draw_line :: "limine_framebuffer list option \<Rightarrow> memory \<Rightarrow> memory result" where
  "draw_line response m =
     (case response of
        None \<Rightarrow> Inl (Panic ''No Frame Buffer found'')
      | Some framebuffers \<Rightarrow>
          if length framebuffers < 1 then Inl (Panic ''No Frame Buffer found'')
          else
            let framebuffer = framebuffers ! 0
            in Inr (fold (\<lambda>i m. store32 m (fb_address framebuffer + 4 * (of_nat i * (fb_pitch framebuffer div 4) + of_nat i)) 0xfff000)
                 [0..<100] m))"

lemma bytes_of_apart:
  assumes "k \<le> d" and "d + n \<le> 2 ^ 64"
  shows "bytes_of a k \<inter> bytes_of (a + of_nat d) n = {}"
proof -
  have "unat (x - a) = d + j" if "x = a + of_nat d + of_nat j" "j < n" for x j
  proof -
    have "x - a = of_nat (d + j)" using that(1) by simp
    then show ?thesis using that(2) assms(2) by (simp add: unat_of_nat del: of_nat_add)
  qed
  moreover have "unat (x - a) < k" if "x \<in> bytes_of a k" for x using that assms by (subst (asm) bytes_of_offset) simp_all
  ultimately show ?thesis using assms(1) by (fastforce simp: bytes_of_iff)
qed

lemma diagonal_pixels:
  assumes "4 \<le> k" and "n * k \<le> 2 ^ 63" and "j < n"
  shows "load32 (fold (\<lambda>i m. store32 m (a + of_nat (i * k)) v) [0..<n] m) (a + of_nat (j * k)) = v"
  using assms(2,3)
proof (induction n)
  case (Suc n)
  let ?m = "fold (\<lambda>i m. store32 m (a + of_nat (i * k)) v) [0..<n] m"
  show ?case
  proof (cases "j = n")
    case False
    then have j: "j < n" using Suc.prems by simp
    have d: "a + of_nat (n * k) = a + of_nat (j * k) + of_nat ((n - j) * k)"
      using j by (simp add: algebra_simps flip: of_nat_mult of_nat_add)
    have "1 * k \<le> (n - j) * k" using j by (intro mult_right_mono) simp_all
    then have "4 \<le> (n - j) * k" using assms(1) by linarith
    moreover have "(n - j) * k \<le> Suc n * k" by (intro mult_right_mono) simp_all
    ultimately have "4 \<le> (n - j) * k" "(n - j) * k + 4 \<le> 2 ^ 64" using assms(1) Suc.prems(1) by simp_all
    then have "bytes_of (a + of_nat (j * k)) 4 \<inter> bytes_of (a + of_nat (n * k)) 4 = {}"
      unfolding d by (rule bytes_of_apart)
    then have "load32 (store32 ?m (a + of_nat (n * k)) v) (a + of_nat (j * k)) = load32 ?m (a + of_nat (j * k))"
      by (intro load32_cong store32_other) blast
    then show ?thesis using Suc.IH j Suc.prems by simp
  qed simp
qed simp

text \<open>With a pitch of less than 4 GiB, every pixel of the diagonal has the colour afterwards.\<close>

lemma draw_line_draws:
  assumes "unat (fb_pitch fb) < 2 ^ 32" and "j < 100"
  shows "\<exists>t. draw_line (Some (fb # fbs)) m = Inr t \<and>
    load32 t (fb_address fb + 4 * (of_nat j * (fb_pitch fb div 4) + of_nat j)) = 0xfff000"
proof -
  define k where "k = 4 * (unat (fb_pitch fb) div 4 + 1)"
  have p: "fb_pitch fb div 4 = of_nat (unat (fb_pitch fb) div 4)" using assms(1) by (simp add: word_unat_eq_iff unat_div unat_of_nat)
  have e: "4 * (of_nat i * (fb_pitch fb div 4) + of_nat i) = (of_nat (i * k) :: u64)" for i
    unfolding p k_def by (simp add: algebra_simps)
  have "4 \<le> k" "100 * k \<le> 2 ^ 63" using assms(1) by (simp_all add: k_def)
  from diagonal_pixels [OF this assms(2), of "fb_address fb" "0xfff000" m] show ?thesis
    by (intro exI conjI) (simp only: draw_line_def e option.case Let_def list.size if_False nth_Cons_0, rule if_not_P, simp, simp only: e)
qed

end
