(* ===== verification/Spec2Isabelle.thy ===== *)
theory Spec2Isabelle
  imports Startup Programs Snake Teardown Framebuffer
begin

text \<open>
  A verification development of MmdOS, an operating system kernel for 64-bit PCs in C, and of
  its programs. Paths are relative to \<open>src/src/\<close>.

  \<^bold>\<open>The program.\<close> The boot loader enters \<open>_start\<close> (\<open>kernel/startup.c\<close>), which starts the components in
  this order: segment and interrupt tables; the physical page allocator, a bitmap built from the
  boot loader's memory map; the page tables, whose pages come from the page allocator; the file
  systems, a virtual one with a tar archive in memory mounted on it; the system calls; the processes
  and the scheduler, whose structures come from the kernel heap, which takes whole pages and maps them;
  the command line, the keyboard and the timer. From then on interrupts run the machine: the entry
  code saves the registers in a frame, a dispatcher calls the handler of the vector, and for the
  timer and for a yield the scheduler returns the frame of another process, which the entry code
  resumes. The programs (\<open>cat\<close>, \<open>ls\<close>, two games) use the kernel through system calls.

  \<^bold>\<open>Conventions\<close> (\<open>Prelude\<close>). C's integers are words of their width. A function that can fail
  returns \<open>error + 'a\<close>: \<open>Panic\<close> is a call of \<open>panic\<close>, \<open>Fault\<close> an access that C leaves undefined or
  the processor refuses, \<open>Hang\<close> a loop that does not end. The static variables are the fields of a record, and
  each component extends the record of the components it calls (\<open>pmm_state\<close>, \<open>vmm_state\<close>,
  \<open>proc_state\<close>, \<open>ustar_state\<close>, \<open>vfs_state\<close>, \<open>kernel_state\<close>), so that an operation acts on every
  extension. Bitmap, page tables, heap, archive, strings and line buffer are bytes of the memory \<open>mem\<close>. Process
  structures, register frames, open files and mount points are typed stores by address, the
  addresses being those that the heap returns.

  \<^bold>\<open>Theories.\<close>

  \<^item> \<open>Util\<close> (\<open>lib/util.c\<close>), \<open>Spinlock\<close> (\<open>lib/spinlock.c\<close>), \<open>Bitmap\<close> (\<open>mm/bitmap.h\<close>): functional
    behaviour of the helpers, the octal round trip of tar sizes; mutual exclusion over all
    interleavings of threads that share a lock, by an inductive invariant of a step relation; the laws
    of the bit array (locale \<open>bit_array\<close>).
  \<^item> \<open>Pmm\<close>, \<open>Pmm_Init\<close> (\<open>mm/pmm.c\<close>): the bitmap scan is first fit, allocation and freeing change
    exactly the pages they should, \<open>pmm_init\<close> establishes the invariant. The locale
    \<open>frame_allocator\<close> is the contract for the page tables.
  \<^item> \<open>Vmm\<close>, \<open>Vmm_Space\<close>, \<open>Teardown\<close> (\<open>mm/vmm.c\<close>): the four-level tables refine a function from addresses to
    entries (\<open>page_entry\<close>, locale \<open>paging\<close>); mapping, unmapping and flag changes, the kernel's
    space, new spaces. \<open>Teardown\<close> holds \<open>vmm_destroy\<close>, which nothing calls, and a table on which it does not end.
  \<^item> \<open>Kheap\<close>, \<open>Kheap_Blocks\<close> (\<open>mm/kheap.c\<close>, \<open>lib/alloc.h\<close>): allocation and freeing on the pages, and the
    contract for clients, allocated blocks that are pairwise disjoint (locale \<open>heap\<close>).
  \<^item> \<open>Digits\<close>, \<open>Formatter\<close>, \<open>Console\<close> (\<open>lib/formatter.c\<close>, \<open>print.c\<close>, \<open>logger.c\<close>, \<open>panic.c\<close>,
    \<open>terminal/limine_term.c\<close>): formatted output equals a reference rendering.
  \<^item> \<open>Cpu\<close> (\<open>cpu/cpu.c\<close>, \<open>cpu/pic.c\<close>), \<open>Gdt\<close> (\<open>gdt.c\<close>), \<open>Idt\<close> (\<open>interrupts/idt.c\<close>), \<open>Stubs\<close>
    (\<open>interrupts/interrupt_vector.asm\<close>), \<open>Keyboard\<close> (\<open>interrupts/keyboard.c\<close>): port traces; the
    descriptors decode to what was encoded; dispatch; the entry code, as instructions with an executor,
    exchanges register contexts; the driver's invariant under any sequence of keys and reads.
  \<^item> \<open>Process\<close>, \<open>Scheduler\<close> (\<open>scheduler/process.c\<close>, \<open>scheduler.c\<close>, \<open>interrupts/timer.c\<close>): the linked
    list refines a list of processes; creation, deletion and exit; round robin, and a bound on the
    number of timer interrupts until a process that can run is dispatched.
  \<^item> \<open>Ustar\<close>, \<open>Vfs\<close> (\<open>fs/ustar.c\<close>, \<open>fs/vfs.c\<close>): archives as lists of entries; opening, reading in order
    (locale \<open>cursor_reader\<close>), closing, errors.
  \<^item> \<open>Prompt\<close> (\<open>terminal/prompt.c\<close>), \<open>Syscalls\<close> (\<open>userland/sys.c\<close>, \<open>syscall.asm\<close>): line editing
    refines editing of a list, commands, the owner of the standard input; the table of calls.
  \<^item> \<open>Gol\<close>, \<open>Snake\<close>, \<open>Programs\<close> (\<open>programs/\<close>, \<open>kernel/demo/\<close>), \<open>Framebuffer\<close> (\<open>terminal/fb.c\<close>): an update is the
    rule of life, and one step of the snake, within stated bounds; \<open>cat\<close> ends and shows the file.
  \<^item> \<open>Startup\<close> (\<open>startup.c\<close>): starting ends in the panic of an allocator without memory or in a
    machine where the invariants of all components hold.
  \<^item> This theory: the entry code, the dispatcher, the timer's handler and the scheduler together
    switch from one program to another.

  \<^bold>\<open>Loops.\<close> There is no fuel. A loop that follows pointers, runs to a terminator or waits for a device is a
  \<open>partial_function\<close> with the value \<open>None\<close> when it does not end, which becomes \<open>Hang\<close>; the properties
  state results, so they include that the loops end under the invariants. A loop of a program
  that waits while interrupts change the state runs over a list of arbitrary length of what happens before each round.

  \<^bold>\<open>Outside the program.\<close> The devices, the boot loader's responses, the addresses the linker assigns,
  the processor's part of an interrupt and the registers that a called function leaves are arguments.
  That the serial line's transmitter becomes empty after finitely many reads of its status is a hypothesis, \<open>uart_drains\<close>.

  \<^bold>\<open>Not modelled.\<close> The boot loader's headers \<open>limine.h\<close> declare data without code; what the kernel reads of
  them is an argument. \<open>jmp_user\<close> (\<open>userland/user.asm\<close>) is not called and does not return: its last line,
  \<open>ireqt\<close>, is a label to the assembler. The Makefile, the linker script and the disk image hold no program
  text. Interrupts during start-up, a second processor, caches and the translation buffer are left out, and
  so is translation itself: memory is read and written at the address in the program, which is right
  for addresses that the tables map as the direct map does. \<open>open_dirs\<close>, \<open>vfs_opened_dirs\<close> and the
  directory descriptor are declared and not used.
\<close>

subsection \<open>Interrupts and the scheduler\<close>

text \<open>
  The handler that the entry code of a hardware interrupt calls, on the machine's memory: the
  scheduler's contexts are the ones the memory holds.
\<close>

definition call_irq_handler :: "'a proc_state_scheme handler option list \<Rightarrow> 'a proc_state_scheme c_function" where
  "call_irq_handler handlers frame m s =
     bindE (irq_handler (\<lambda>h. h) (\<lambda>s f. int_number (frames s f)) update_ports handlers frame (s\<lparr>mem := m, frames := context_at m\<rparr>))
       (\<lambda>(frame, s). Inr (frame, mem s, s))"

lemma ports_sched_inv [simp]: "sched_inv (update_ports f s) ps i = sched_inv s ps i"
  by (simp add: sched_inv_def list_inv_def update_ports_def)

lemma timer_irq:
  fixes s :: "'a proc_state_scheme"
  assumes inv: "sched_inv s ps i" and q: "sint (remaining_quantum (procs s (ps ! i)) - 1) \<le> 0"
    and h: "handlers \<noteq> []" "hd handlers = Some timer_handler" and n: "int_number (context_at m frame) = 32"
    and a: "find (\<lambda>b. \<not> sleeper (s\<lparr>uptime := uptime s + quantum\<rparr>) b) (rotate (Suc i) ps) = Some a"
  shows "\<exists>t j. call_irq_handler handlers frame m s = Inr (if a = ps ! i then frame else proc_context (procs s a), m, t) \<and>
    sched_inv t ps j \<and> ps ! j = a \<and> proc_context (procs t (ps ! i)) = frame"
proof -
  let ?s = "s\<lparr>mem := m, frames := context_at m\<rparr>"
  let ?u = "?s\<lparr>uptime := uptime s + quantum\<rparr>"
  let ?p = "preempt frame (ps ! i) ?u"
  have "sched_inv ?u ps i" using inv by (simp add: sched_inv_def list_inv_def)
  moreover have "\<not> 0 <s remaining_quantum (procs ?u (ps ! i)) - 1" using q by (simp add: word_sless_alt)
  ultimately obtain b where b: "find (\<lambda>b. \<not> sleeper ?u b) (rotate (Suc i) ps) = Some b" "b \<in> set ps"
    "schedule frame ?u = Inr (proc_context (procs ?p b), dispatch b ?p)" using schedule_expired by blast
  obtain j where j: "sched_inv (dispatch b ?p) ps j" "ps ! j = b"
    using sched_inv_dispatch [OF \<open>sched_inv ?u ps i\<close> b(2)] by blast
  have "b = a" using a b(1) by (simp add: sleeper_def)
  have t: "mem (dispatch b ?p) = m" by (simp add: preempt_def)
  have "handlers ! 0 = Some timer_handler" "0 < length handlers" using h by (simp_all add: hd_conv_nth)
  then have "\<exists>f. call_irq_handler handlers frame m s = Inr (proc_context (procs ?p b), m, update_ports f (dispatch b ?p))"
    using b(3) t n by (auto simp: call_irq_handler_def irq_handler_def handler_at_def timer_handler_def update_ports_def)
  then obtain f where f: "call_irq_handler handlers frame m s = Inr (proc_context (procs ?p b), m, update_ports f (dispatch b ?p))" by blast
  have "proc_context (procs ?p b) = (if a = ps ! i then frame else proc_context (procs s a))" using \<open>b = a\<close> by simp
  moreover have "proc_context (procs (update_ports f (dispatch b ?p)) (ps ! i)) = frame" by (simp add: update_ports_def woken_def)
  ultimately show ?thesis
    using f j \<open>b = a\<close> by (intro exI [of _ "update_ports f (dispatch b ?p)"] exI [of _ j]) simp
qed

subsection \<open>Properties\<close>

text \<open>
  C1. A timer interrupt switches programs. The running process' program \<open>c\<close> is interrupted when its
  quantum is used up, and the first process after it in the round that is not asleep was suspended in the state
  \<open>d\<close> of the processor, its frame untouched since. Then the entry code, the interrupt dispatcher, the timer's
  handler and the scheduler together leave the processor in exactly the state \<open>d\<close>, apart from
  the memory and the kernel's state; that process is now the running one; and the interrupted program's
  registers are in the frame that its process refers to, so that it can be resumed in the same way.
\<close>

theorem timer_interrupt_switches:
  fixes c d :: "'a proc_state_scheme cpu"
  assumes "sched_inv (kernel c) ps i" and "sint (remaining_quantum (procs (kernel c) (ps ! i)) - 1) \<le> 0"
    and "handlers \<noteq> []" and "hd handlers = Some timer_handler"
    and "find (\<lambda>b. \<not> sleeper ((kernel c)\<lparr>uptime := uptime (kernel c) + quantum\<rparr>) b) (rotate (Suc i) ps) = Some a"
    and "a \<noteq> ps ! i" and "proc_context (procs (kernel c) a) = sp0 - 176"
    and "\<And>x. x \<in> bytes_of (sp0 - 176) 176 \<Longrightarrow> ram c x = saved n 0 sp0 d x"
    and "bytes_of (sp0 - 176) 176 \<inter> bytes_of (sp1 - 176) 176 = {}"
  shows "\<exists>m t j. exec (\<lambda>_. call_irq_handler handlers) left (irq 32) (interrupt sp1 c) = Inr (d\<lparr>ram := m, kernel := t\<rparr>) \<and>
    sched_inv t ps j \<and> ps ! j = a \<and> proc_context (procs t (ps ! i)) = sp1 - 176 \<and> context_at m (sp1 - 176) = context_of 32 0 c"
proof -
  let ?m = "saved 32 0 sp1 c"
  have ctx: "context_at ?m (sp1 - 176) = context_of 32 0 c" by (rule saved_context)
  then have "int_number (context_at ?m (sp1 - 176)) = 32" by (simp add: context_of_def)
  from timer_irq [OF assms(1-4) this assms(5)] obtain t j where
    t: "call_irq_handler handlers (sp1 - 176) ?m (kernel c) = Inr (sp0 - 176, ?m, t)" "sched_inv t ps j" "ps ! j = a"
      "proc_context (procs t (ps ! i)) = sp1 - 176" using assms(6,7) by auto
  have "?m x = saved n 0 sp0 d x" if x: "x \<in> bytes_of (sp0 - 176) 176" for x
  proof -
    have "x \<notin> bytes_of (sp1 - 176) 176" using x assms(9) by blast
    then show ?thesis by (simp add: saved_other assms(8) [OF x])
  qed
  then have "context_at ?m (sp0 - 176) = context_of n 0 d" using context_at_cong saved_context by metis
  moreover have "irq 32 = CLI # PUSHI 0 # PUSHI 32 # save_all @ MOV_RDI_RSP # CALL Irq_handler # load_all @ [IRETQ]"
    by (simp add: irq_def stub_parts)
  ultimately have "exec (\<lambda>_. call_irq_handler handlers) left (irq 32) (interrupt sp1 c) = Inr (d\<lparr>ram := ?m, kernel := t\<rparr>)"
    using t(1) by (simp add: stub_runs resume_context_of del: exec.simps)
  then show ?thesis using t(2-4) ctx by blast
qed

definition suspended_demo :: "proc_state cpu" where
  "suspended_demo = \<lparr>gpr = (\<lambda>_. 7), rsp = 0x60B0, rip = 0x400000, cs = 0x28, ss = 0x30, rflags = 0x202, ram = (\<lambda>_. 0),
     kernel = sched_demo READY 1\<rparr>"

definition running_demo :: "proc_state cpu" where
  "running_demo = suspended_demo\<lparr>gpr := (\<lambda>_. 9), rsp := 0x9000, rip := 0x500000, ram := saved 32 0 0x60B0 suspended_demo\<rparr>"

theorem timer_interrupt_switches_witness:
  "\<exists>m t. exec (\<lambda>_. call_irq_handler [Some timer_handler]) (\<lambda>_. 0) (irq 32) (interrupt 0x9000 running_demo) =
     Inr (suspended_demo\<lparr>ram := m, kernel := t\<rparr>) \<and> proc_context (procs t 0x1000) = 0x8F50 \<and>
     context_at m 0x8F50 = context_of 32 0 running_demo"
proof -
  have k: "kernel running_demo = sched_demo READY 1" "ram running_demo = saved 32 0 0x60B0 suspended_demo"
    by (simp_all add: running_demo_def suspended_demo_def)
  have inv: "sched_inv (kernel running_demo) [0x1000, 0x2000, 0x3000] 0" unfolding k by (rule sched_demo_inv) simp_all
  have q: "sint (remaining_quantum (procs (kernel running_demo) ([0x1000, 0x2000, 0x3000] ! 0)) - 1) \<le> 0"
    by (simp add: k sched_demo_def)
  have f: "find (\<lambda>b. \<not> sleeper ((kernel running_demo)\<lparr>uptime := uptime (kernel running_demo) + quantum\<rparr>) b)
      (rotate (Suc 0) [0x1000, 0x2000, 0x3000]) = Some 0x2000"
    by (simp add: k sched_demo_def sleeper_def zero_process_def)
  have p: "proc_context (procs (kernel running_demo) 0x2000) = 0x60B0 - 176" by (simp add: k sched_demo_def)
  have dis: "bytes_of (0x60B0 - 176) 176 \<inter> bytes_of (0x9000 - 176) 176 = {}" by (rule bytes_of_disjoint) simp_all
  have "ram running_demo x = saved 32 0 0x60B0 suspended_demo x" for x by (simp add: k)
  from timer_interrupt_switches [OF inv q _ _ f _ p this dis, of "[Some timer_handler]" "\<lambda>_. 0"] show ?thesis by auto
qed

end
